(* ===== verification/SD_Prelude.thy ===== *)
theory SD_Prelude
  imports Main "HOL-Library.Word" "HOL-Library.Monad_Syntax"
begin

text \<open>
  Shared vocabulary of the development: the fixed-width integer types of the C++ sources, the
  bounds-checked memory copies that stand for \<^verbatim>\<open>memcpy\<close>, circular reads and writes of an
  array, and the generic list and word lemmas the component theories use. A copy that would touch
  memory outside the array is \<open>None\<close>: an out-of-bounds access of the sources is a value of
  the model, so that its absence is something to prove.
\<close>

unbundle bit_operations_syntax

type_synonym u8 = "8 word"
type_synonym u16 = "16 word"
type_synonym u32 = "32 word"
type_synonym u64 = "64 word"

named_theorems table_simps
named_theorems codec_simps

text \<open>The error numbers the modelled code sets or tests.\<close>

datatype errno =
    EPERM | ENOENT | ESRCH | EINTR | EBADF | EAGAIN | ENOMEM | EFAULT | EEXIST | EINVAL | ENOTTY
  | ENOSYS | EPROTO | EOPNOTSUPP | ENAMETOOLONG | EOTHER nat


section \<open>Vectors\<close>

text \<open>
  Element access of \<^verbatim>\<open>std::vector\<close> by a C \<^verbatim>\<open>int\<close>: outside the vector the
  behaviour is undefined, which is \<open>None\<close>.
\<close>

definition vget :: "'a list \<Rightarrow> int \<Rightarrow> 'a option" where
  "vget xs i = (if 0 \<le> i \<and> nat i < length xs then Some (xs ! nat i) else None)"

definition vset :: "'a list \<Rightarrow> int \<Rightarrow> 'a \<Rightarrow> 'a list option" where
  "vset xs i x = (if 0 \<le> i \<and> nat i < length xs then Some (xs[nat i := x]) else None)"

lemma vget_ok [table_simps]: "0 \<le> i \<Longrightarrow> nat i < length xs \<Longrightarrow> vget xs i = Some (xs ! nat i)"
  by (simp add: vget_def)

lemma vset_ok [table_simps]: "0 \<le> i \<Longrightarrow> nat i < length xs \<Longrightarrow> vset xs i x = Some (xs[nat i := x])"
  by (simp add: vset_def)

lemma count_list_update:
  "i < length xs \<Longrightarrow> count_list (xs[i := x]) y
     = count_list xs y - (if xs ! i = y then 1 else 0) + (if x = y then 1 else 0)"
proof (induction xs arbitrary: i)
  case (Cons a xs)
  show ?case
  proof (cases i)
    case (Suc j)
    have "count_list xs y \<noteq> 0" if "xs ! j = y" "j < length xs"
      using that by (metis count_list_0_iff nth_mem)
    then show ?thesis using Cons Suc by auto
  qed auto
qed simp

lemma count_list_replicate: "count_list (replicate n x) y = (if x = y then n else 0)"
  by (induction n) auto

text \<open>
  The capacity growth loops of the sources double a size until it is large enough. From 0 such a
  loop never ends; the result \<open>None\<close> is that run.
\<close>

partial_function (option) double_until :: "nat \<Rightarrow> nat \<Rightarrow> nat option" where
  "double_until n need = (if n < need then double_until (n * 2) need else Some n)"

lemma double_until_ok:
  assumes "0 < n"
  shows "\<exists>m. double_until n need = Some m \<and> need \<le> m \<and> n \<le> m"
  using assms
proof (induction "need - n" arbitrary: n rule: less_induct)
  case less
  show ?case
  proof (cases "n < need")
    case True
    then have "need - n * 2 < need - n" "0 < n * 2" using less.prems by linarith+
    then obtain m where "double_until (n * 2) need = Some m" "need \<le> m" "n * 2 \<le> m"
      using less(1) [of "n * 2"] by blast
    with True show ?thesis by (subst double_until.simps) auto
  next
    case False
    then show ?thesis by (subst double_until.simps) auto
  qed
qed


section \<open>Bounds-checked copies\<close>

definition blit :: "'a list \<Rightarrow> nat \<Rightarrow> 'a list \<Rightarrow> 'a list option" where
  "blit dst off src =
     (if off + length src \<le> length dst
      then Some (take off dst @ src @ drop (off + length src) dst) else None)"

definition bslice :: "'a list \<Rightarrow> nat \<Rightarrow> nat \<Rightarrow> 'a list option" where
  "bslice src off n = (if off + n \<le> length src then Some (take n (drop off src)) else None)"

lemma blit_in_range: "off + length src \<le> length dst \<Longrightarrow>
    blit dst off src = Some (take off dst @ src @ drop (off + length src) dst)"
  by (simp add: blit_def)

lemma blit_length: "blit dst off src = Some dst' \<Longrightarrow> length dst' = length dst"
  by (auto simp: blit_def split: if_splits)

lemma blit_nth:
  assumes "blit dst off src = Some dst'" "i < length dst"
  shows "dst' ! i = (if off \<le> i \<and> i < off + length src then src ! (i - off) else dst ! i)"
  using assms by (auto simp: blit_def nth_append min_def split: if_splits)

lemma bslice_in_range: "off + n \<le> length src \<Longrightarrow> bslice src off n = Some (take n (drop off src))"
  by (simp add: bslice_def)

lemma bslice_length: "bslice src off n = Some bs \<Longrightarrow> length bs = n"
  by (auto simp: bslice_def split: if_splits)


section \<open>Circular indices\<close>

text \<open>
  Two positions of an array of size \<open>n\<close> reached from the same start by fewer than \<open>n\<close> steps
  coincide only when the steps do.
\<close>

lemma mod_add_inj:
  fixes a i j n :: nat
  assumes "(a + i) mod n = (a + j) mod n" "i < n" "j < n"
  shows "i = j"
proof -
  have "int n dvd (int a + int i) - (int a + int j)"
    by (metis assms(1) mod_eq_dvd_iff of_nat_add of_nat_mod)
  then have "int n dvd int i - int j" by simp
  then have "int i mod int n = int j mod int n" by (simp add: mod_eq_dvd_iff)
  with assms(2,3) show ?thesis by simp
qed

lemma mod_add_small:
  fixes off j n :: nat
  assumes "off < n" "j < n"
  shows "(off + j) mod n = (if off + j < n then off + j else off + j - n)"
  using assms by (auto simp: mod_if)

text \<open>
  A write that starts at \<open>off\<close> and continues at the front of the array when it reaches the end,
  and the matching read: the two copies every ring operation of the sources makes.
\<close>

definition circ_write :: "'a list \<Rightarrow> nat \<Rightarrow> 'a list \<Rightarrow> 'a list option" where
  "circ_write dst off src =
     (let f = min (length dst - off) (length src)
      in case blit dst off (take f src) of
           None \<Rightarrow> None
         | Some d \<Rightarrow> if f < length src then blit d 0 (drop f src) else Some d)"

definition circ_read :: "'a list \<Rightarrow> nat \<Rightarrow> nat \<Rightarrow> 'a list option" where
  "circ_read src off n =
     (let f = min (length src - off) n
      in case bslice src off f of
           None \<Rightarrow> None
         | Some b \<Rightarrow> if f < n then map_option ((@) b) (bslice src 0 (n - f)) else Some b)"

lemma circ_write_ok:
  assumes "off < length dst" "length src \<le> length dst"
  obtains d where "circ_write dst off src = Some d" "length d = length dst"
    "\<And>j. j < length dst \<Longrightarrow> d ! ((off + j) mod length dst)
        = (if j < length src then src ! j else dst ! ((off + j) mod length dst))"
proof -
  let ?N = "length dst"
  let ?f = "min (?N - off) (length src)"
  have "off + length (take ?f src) \<le> ?N" using assms(1) by (auto simp: min_def)
  then obtain d1 where d1: "blit dst off (take ?f src) = Some d1"
    by (auto simp: blit_in_range)
  have l1: "length d1 = ?N" using d1 by (rule blit_length)
  have n1: "d1 ! i = (if off \<le> i \<and> i < off + ?f then src ! (i - off) else dst ! i)"
    if "i < ?N" for i
    using blit_nth [OF d1 that] by (auto simp: min_def split: if_splits)
  show ?thesis
  proof (cases "?f < length src")
    case False
    then have f: "?f = length src" "off + length src \<le> ?N" using assms(1) by auto
    show ?thesis
    proof (rule that [of d1])
      show "circ_write dst off src = Some d1"
        using d1 False by (simp add: circ_write_def Let_def)
      fix j assume j: "j < ?N"
      show "d1 ! ((off + j) mod ?N)
          = (if j < length src then src ! j else dst ! ((off + j) mod ?N))"
        using n1 [of "(off + j) mod ?N"] f j assms(1) by (auto simp: mod_add_small)
    qed (rule l1)
  next
    case True
    then have f: "?f = ?N - off" by linarith
    have "0 + length (drop ?f src) \<le> length d1" using assms l1 f by simp
    then obtain d2 where d2: "blit d1 0 (drop ?f src) = Some d2"
      by (auto simp: blit_in_range)
    show ?thesis
    proof (rule that [of d2])
      show "circ_write dst off src = Some d2"
        using d1 d2 True by (simp only: circ_write_def Let_def option.case if_True)
      show "length d2 = ?N" using blit_length [OF d2] l1 by simp
      fix j assume j: "j < ?N"
      have "0 < ?N" using assms(1) by linarith
      then have i: "(off + j) mod ?N < length d1" using l1 by simp
      have "d2 ! ((off + j) mod ?N) = (if (off + j) mod ?N < length src - (?N - off)
              then src ! ((?N - off) + (off + j) mod ?N) else d1 ! ((off + j) mod ?N))"
        using blit_nth [OF d2 i] f True by (simp only: f length_drop) (simp add: nth_drop)
      then show "d2 ! ((off + j) mod ?N)
          = (if j < length src then src ! j else dst ! ((off + j) mod ?N))"
        using n1 [of "(off + j) mod ?N"] f j assms True by (auto simp: mod_add_small)
    qed
  qed
qed

lemma circ_read_ok:
  assumes "off < length src" "n \<le> length src"
  shows "circ_read src off n = Some (map (\<lambda>j. src ! ((off + j) mod length src)) [0..<n])"
proof (cases "off + n \<le> length src")
  case True
  then have "take n (drop off src) = map (\<lambda>j. src ! ((off + j) mod length src)) [0..<n]"
    using assms by (intro nth_equalityI) (auto simp: mod_add_small)
  moreover from True have "min (length src - off) n = n" by simp
  ultimately show ?thesis using True by (simp add: circ_read_def bslice_in_range)
next
  case False
  let ?f = "length src - off"
  have "take ?f (drop off src) @ take (n - ?f) src
      = map (\<lambda>j. src ! ((off + j) mod length src)) [0..<n]"
    using assms False by (intro nth_equalityI) (auto simp: mod_add_small nth_append add.commute)
  with False assms show ?thesis by (simp add: circ_read_def Let_def bslice_in_range min_def)
qed


section \<open>Machine words\<close>

lemma unat_and_mask:
  fixes x :: "'a::len word"
  shows "unat (x AND mask e) = unat x mod 2 ^ e"
proof -
  have "unat (take_bit e x) = take_bit e (unat x)"
    by (rule unsigned_take_bit_eq)
  then show ?thesis by (simp only: take_bit_eq_mask [symmetric] take_bit_nat_def)
qed

lemma unat_of_nat_small: "n < 2 ^ LENGTH('a) \<Longrightarrow> unat (of_nat n :: 'a::len word) = n"
  by (simp add: unat_of_nat)

lemma unat_bound: "unat (x :: 'a::len word) < 2 ^ LENGTH('a)"
  by (rule unsigned_less)

lemma power_dvd_word_size: "e \<le> (n::nat) \<Longrightarrow> (2::nat) ^ e dvd 2 ^ n"
  by (rule le_imp_power_dvd)

text \<open>Truncating a wrapped sum to a power of two that divides the word size forgets the wrap.\<close>

lemma unat_add_mod_pow2:
  fixes x y :: "'a::len word"
  assumes "e \<le> LENGTH('a)"
  shows "unat (x + y) mod 2 ^ e = (unat x + unat y) mod 2 ^ e"
  using assms by (simp add: unat_word_ariths mod_mod_cancel power_dvd_word_size)

lemma unat_diff_add_mod_pow2:
  fixes t h :: "'a::len word"
  assumes "e \<le> LENGTH('a)"
  shows "unat t mod 2 ^ e = (unat h + unat (t - h)) mod 2 ^ e"
  using unat_add_mod_pow2 [OF assms, of h "t - h"] by simp

lemma unat_diff_grow:
  fixes t h n :: "'a::len word"
  assumes "unat (t - h) + unat n < 2 ^ LENGTH('a)"
  shows "unat (t + n - h) = unat (t - h) + unat n"
proof -
  have "t + n - h = (t - h) + n" by simp
  then show ?thesis using assms by (simp only: unat_add_lem [THEN iffD1])
qed

lemma unat_diff_shrink:
  fixes t h n :: "'a::len word"
  assumes "unat n \<le> unat (t - h)"
  shows "unat (t - (h + n)) = unat (t - h) - unat n"
proof -
  have "t - (h + n) = (t - h) - n" by simp
  with assms show ?thesis by (metis unat_sub word_le_nat_alt)
qed

text \<open>The classic test of the sources' static assertions: only powers of two pass it.\<close>

lemma pow2_of_and:
  fixes n :: nat
  assumes "n AND (n - 1) = 0" "0 < n"
  shows "\<exists>e. n = 2 ^ e"
  using assms
proof (induction n rule: less_induct)
  case (less n)
  show ?case
  proof (cases "even n")
    case True
    then obtain m where m: "n = 2 * m" by blast
    with less.prems have "0 < m" by simp
    then have d: "(n - 1) div 2 = m - 1" and o: "odd (n - 1)" using m by auto
    have "n AND (n - 1) = 2 * (m AND (m - 1))"
      using m d o by (subst and_rec) simp
    with less.prems have "m AND (m - 1) = 0" by simp
    with less.IH [of m] \<open>0 < m\<close> m obtain e where "m = 2 ^ e" by auto
    with m show ?thesis by (metis power_Suc)
  next
    case False
    then obtain m where m: "n = 2 * m + 1" by (rule oddE)
    then have d: "(n - 1) div 2 = n div 2" and o: "even (n - 1)" by auto
    have "n AND (n - 1) = 2 * (n div 2)"
      using d o by (subst and_rec) simp
    with less.prems m have "n = 1" by simp
    then show ?thesis by (metis power_0)
  qed
qed

lemma word_pow2_of_and:
  fixes k :: "'a::len word"
  assumes "k AND (k - 1) = 0" "k \<noteq> 0"
  shows "\<exists>e < LENGTH('a). unat k = 2 ^ e"
proof -
  have "0 < unat k" using assms(2) by (simp add: unat_gt_0)
  moreover have "unat k AND (unat k - 1) = 0"
    using assms by (metis unat_0 unat_minus_one unsigned_and_eq)
  ultimately obtain e where e: "unat k = 2 ^ e" using pow2_of_and by blast
  moreover have "e < LENGTH('a)"
    by (metis e nat_power_less_imp_less power_Suc0_right unsigned_less zero_less_numeral)
  ultimately show ?thesis by blast
qed


section \<open>Lists\<close>

lemma map_upt_split: "n \<le> m \<Longrightarrow> map f [0..<m] = map f [0..<n] @ map (\<lambda>i. f (n + i)) [0..<m - n]"
  by (rule nth_equalityI) (auto simp: nth_append)

lemma take_map_upt: "n \<le> m \<Longrightarrow> take n (map f [0..<m]) = map f [0..<n]"
  by (simp add: take_map)

lemma drop_map_upt: "drop n (map f [0..<m]) = map (\<lambda>i. f (n + i)) [0..<m - n]"
  by (rule nth_equalityI) auto

end
