(* ===== verification/Shm_Ring.thy ===== *)
theory Shm_Ring
  imports SD_Prelude
begin

text \<open>
  The process-shared single-producer single-consumer byte ring of
  \<^verbatim>\<open>include/socksdirect/shm_ring.hpp\<close>. The indices are the 64-bit counters of the source, which
  are never reduced: they wrap at \<open>2 ^ 64\<close> and are masked on every access. The template argument
  \<^verbatim>\<open>kBufBytes\<close> is the length of the data array; \<open>ring_static_ok\<close> is the pair of static
  assertions on it. The contract is the interface \<open>byte_stream\<close>: a bounded FIFO of bytes.
\<close>

section \<open>The ring and its operations\<close>

record shm_ring =
  r_tail :: u64
  r_closed :: u8
  r_head :: u64
  r_data :: "u8 list"

definition kCapacity :: "shm_ring \<Rightarrow> u64" where
  "kCapacity r = of_nat (length (r_data r))"

definition kMask :: "shm_ring \<Rightarrow> u64" where
  "kMask r = kCapacity r - 1"

definition ring_static_ok :: "shm_ring \<Rightarrow> bool" where
  "ring_static_ok r \<longleftrightarrow> kCapacity r AND (kCapacity r - 1) = 0 \<and> 4096 \<le> kCapacity r"

definition ring_init :: "shm_ring \<Rightarrow> shm_ring" where
  "ring_init r = r\<lparr>r_tail := 0, r_head := 0, r_closed := 0\<rparr>"

definition readable :: "shm_ring \<Rightarrow> u64" where
  "readable r = (let t = r_tail r; h = r_head r in t - h)"

definition writable :: "shm_ring \<Rightarrow> u64" where
  "writable r = (let t = r_tail r; h = r_head r in kCapacity r - (t - h))"

definition peer_closed :: "shm_ring \<Rightarrow> bool" where
  "peer_closed r \<longleftrightarrow> r_closed r \<noteq> 0"

definition mark_closed :: "shm_ring \<Rightarrow> shm_ring" where
  "mark_closed r = r\<lparr>r_closed := 1\<rparr>"

definition send_some :: "shm_ring \<Rightarrow> u8 list \<Rightarrow> (u64 \<times> shm_ring) option" where
  "send_some r buf =
     (let len = of_nat (length buf); t = r_tail r; h = r_head r;
          free = kCapacity r - (t - h)
      in if free = 0 then Some (0, r)
         else
           let n = (if len < free then len else free);
               off = t AND kMask r;
               first = (if kCapacity r - off < n then kCapacity r - off else n)
           in case blit (r_data r) (unat off) (take (unat first) buf) of
                None \<Rightarrow> None
              | Some d \<Rightarrow>
                  (case (if first < n
                         then blit d 0 (take (unat (n - first)) (drop (unat first) buf))
                         else Some d) of
                     None \<Rightarrow> None
                   | Some d' \<Rightarrow> Some (n, r\<lparr>r_data := d', r_tail := t + n\<rparr>)))"

definition recv_some :: "shm_ring \<Rightarrow> u64 \<Rightarrow> (u64 \<times> u8 list \<times> shm_ring) option" where
  "recv_some r len =
     (let t = r_tail r; h = r_head r; avail = t - h
      in if avail = 0 then Some (0, [], r)
         else
           let n = (if len < avail then len else avail);
               off = h AND kMask r;
               first = (if kCapacity r - off < n then kCapacity r - off else n)
           in case bslice (r_data r) (unat off) (unat first) of
                None \<Rightarrow> None
              | Some b \<Rightarrow>
                  (case (if first < n then bslice (r_data r) 0 (unat (n - first)) else Some []) of
                     None \<Rightarrow> None
                   | Some b' \<Rightarrow> Some (n, b @ b', r\<lparr>r_head := h + n\<rparr>)))"

text \<open>
  Well-formedness: the array is addressable with 64-bit sizes, passes the static assertions, and
  the counters are at most one capacity apart. The abstract contents are the bytes between head
  and tail, read circularly.
\<close>

definition ring_wf :: "shm_ring \<Rightarrow> bool" where
  "ring_wf r \<longleftrightarrow> length (r_data r) < 2 ^ 64 \<and> ring_static_ok r
     \<and> unat (r_tail r - r_head r) \<le> length (r_data r)"

definition ring_at :: "shm_ring \<Rightarrow> nat \<Rightarrow> u8" where
  "ring_at r i = r_data r ! ((unat (r_head r) + i) mod length (r_data r))"

definition contents :: "shm_ring \<Rightarrow> u8 list" where
  "contents r = map (ring_at r) [0..<unat (r_tail r - r_head r)]"

definition capacity :: "shm_ring \<Rightarrow> nat" where
  "capacity r = length (r_data r)"

section \<open>Arithmetic of a well-formed ring\<close>

lemma ring_wf_pow2:
  assumes "ring_wf r"
  obtains e where "length (r_data r) = 2 ^ e" "12 \<le> e" "e < 64"
proof -
  have k: "unat (kCapacity r) = length (r_data r)"
    using assms by (simp add: ring_wf_def kCapacity_def unat_of_nat_small)
  from assms have ge: "(4096 :: u64) \<le> kCapacity r" by (simp add: ring_wf_def ring_static_ok_def)
  then have "(4096 :: nat) \<le> unat (kCapacity r)" by (simp add: word_le_nat_alt)
  moreover from ge have "kCapacity r \<noteq> 0" by auto
  then obtain e where "e < 64" "unat (kCapacity r) = 2 ^ e"
    using assms word_pow2_of_and [of "kCapacity r"] by (auto simp: ring_wf_def ring_static_ok_def)
  moreover have "12 \<le> e"
  proof (rule ccontr)
    assume "\<not> 12 \<le> e"
    then have "(2::nat) ^ e \<le> 2 ^ 11" by (intro power_increasing) auto
    with calculation show False by simp
  qed
  ultimately show ?thesis using k that by simp
qed

lemma unat_kCapacity: "ring_wf r \<Longrightarrow> unat (kCapacity r) = length (r_data r)"
  by (simp add: ring_wf_def kCapacity_def unat_of_nat_small)

lemma ring_wf_nonempty: "ring_wf r \<Longrightarrow> r_data r \<noteq> []"
  by (erule ring_wf_pow2) auto

lemma masked_index:
  assumes "ring_wf r"
  shows "unat (x AND kMask r) = unat x mod length (r_data r)"
proof -
  from assms obtain e where e: "length (r_data r) = 2 ^ e" "e < 64" by (rule ring_wf_pow2)
  then have "kMask r = mask e"
    by (simp add: kMask_def kCapacity_def mask_eq_exp_minus_1)
  with e show ?thesis by (simp add: unat_and_mask)
qed

lemma masked_tail:
  assumes "ring_wf r"
  shows "unat (r_tail r) mod length (r_data r)
           = (unat (r_head r) + unat (r_tail r - r_head r)) mod length (r_data r)"
proof -
  from assms obtain e where "length (r_data r) = 2 ^ e" "e < 64" by (rule ring_wf_pow2)
  then show ?thesis using unat_diff_add_mod_pow2 [of e "r_tail r" "r_head r"] by simp
qed

lemma advanced_head:
  assumes "ring_wf r"
  shows "unat (r_head r + x) mod length (r_data r)
           = (unat (r_head r) + unat x) mod length (r_data r)"
proof -
  from assms obtain e where "length (r_data r) = 2 ^ e" "e < 64" by (rule ring_wf_pow2)
  then show ?thesis using unat_add_mod_pow2 [of e "r_head r" x] by simp
qed

lemma unat_readable: "unat (readable r) = length (contents r)"
  by (simp add: readable_def contents_def Let_def)

lemma unat_writable:
  assumes "ring_wf r"
  shows "unat (writable r) = capacity r - length (contents r)"
proof -
  have "r_tail r - r_head r \<le> kCapacity r"
    using assms by (simp add: word_le_nat_alt unat_kCapacity) (simp add: ring_wf_def)
  then show ?thesis using assms
    by (simp add: writable_def Let_def unat_sub unat_kCapacity contents_def capacity_def)
qed

lemma contents_bounded: "ring_wf r \<Longrightarrow> length (contents r) \<le> capacity r"
  by (simp add: ring_wf_def contents_def capacity_def)

section \<open>Refinement: the ring is a bounded FIFO of bytes\<close>

lemma first_split:
  assumes "ring_wf r" "unat off < length (r_data r)"
  shows "unat (if kCapacity r - off < n then kCapacity r - off else n)
           = min (length (r_data r) - unat off) (unat n)"
proof -
  have "off \<le> kCapacity r" using assms by (simp add: word_le_nat_alt unat_kCapacity)
  then have "unat (kCapacity r - off) = length (r_data r) - unat off"
    using assms by (simp add: unat_sub unat_kCapacity)
  then show ?thesis by (auto simp: word_less_nat_alt min_def)
qed

lemma masked_index_less: "ring_wf r \<Longrightarrow> unat (x AND kMask r) < length (r_data r)"
  by (simp add: masked_index ring_wf_nonempty)

text \<open>The two copies of a send are one circular write, those of a receive one circular read.\<close>

lemma send_some_circ:
  assumes wf: "ring_wf r" and len: "length buf < 2 ^ 64" and free: "writable r \<noteq> 0"
  defines "n \<equiv> min (length buf) (capacity r - length (contents r))"
  shows "send_some r buf = map_option
           (\<lambda>d. (of_nat n, r\<lparr>r_data := d, r_tail := r_tail r + of_nat n\<rparr>))
           (circ_write (r_data r) (unat (r_tail r) mod length (r_data r)) (take n buf))"
proof -
  define nw where "nw = (if of_nat (length buf) < writable r then of_nat (length buf) else writable r)"
  define off where "off = r_tail r AND kMask r"
  define f where "f = (if kCapacity r - off < nw then kCapacity r - off else nw)"
  have nw: "unat nw = n"
    using len wf by (auto simp: nw_def n_def word_less_nat_alt unat_writable unat_of_nat_small)
  have off: "unat off = unat (r_tail r) mod length (r_data r)" "unat off < length (r_data r)"
    using wf by (simp_all add: off_def masked_index ring_wf_nonempty)
  have f: "unat f = min (length (r_data r) - unat off) n"
    using first_split [OF wf off(2), of nw] nw by (simp add: f_def)
  have nw_of: "nw = of_nat n"
    using len nw by (simp add: word_unat_eq_iff unat_of_nat_small n_def)
  have fn: "f < nw \<longleftrightarrow> unat f < n" by (simp add: word_less_nat_alt nw)
  have rest: "unat (nw - f) = n - unat f"
    using f by (subst unat_sub) (simp_all add: word_le_nat_alt nw)
  have le: "n \<le> length buf" by (simp add: n_def)
  then have len_n: "length (take n buf) = n" by simp
  have fle: "unat f \<le> n" using f by simp
  have "send_some r buf =
      (case blit (r_data r) (unat off) (take (unat f) buf) of None \<Rightarrow> None
       | Some d \<Rightarrow> (case (if f < nw then blit d 0 (take (unat (nw - f)) (drop (unat f) buf)) else Some d) of
             None \<Rightarrow> None | Some d' \<Rightarrow> Some (nw, r\<lparr>r_data := d', r_tail := r_tail r + nw\<rparr>)))"
    using free unfolding send_some_def nw_def off_def f_def writable_def Let_def by (simp only: if_False)
  also have "\<dots> = map_option (\<lambda>d. (of_nat n, r\<lparr>r_data := d, r_tail := r_tail r + of_nat n\<rparr>))
      (circ_write (r_data r) (unat off) (take n buf))"
    using le fle by (simp only: fn rest circ_write_def Let_def len_n f [symmetric])
      (auto simp add: nw_of drop_take min_absorb1 split: option.split)
  finally show ?thesis by (simp only: off)
qed

lemma recv_some_circ:
  assumes wf: "ring_wf r" and avail: "contents r \<noteq> []"
  defines "n \<equiv> \<lambda>len. min (unat len) (length (contents r))"
  shows "recv_some r len = map_option
           (\<lambda>b. (of_nat (n len), b, r\<lparr>r_head := r_head r + of_nat (n len)\<rparr>))
           (circ_read (r_data r) (unat (r_head r) mod length (r_data r)) (n len))"
proof -
  define nw where "nw = (if len < readable r then len else readable r)"
  define off where "off = r_head r AND kMask r"
  define f where "f = (if kCapacity r - off < nw then kCapacity r - off else nw)"
  have nw: "unat nw = n len"
    by (auto simp: nw_def n_def word_less_nat_alt unat_readable)
  have off: "unat off = unat (r_head r) mod length (r_data r)" "unat off < length (r_data r)"
    using wf by (simp_all add: off_def masked_index ring_wf_nonempty)
  have f: "unat f = min (length (r_data r) - unat off) (n len)"
    using first_split [OF wf off(2), of nw] nw by (simp add: f_def)
  have "n len < 2 ^ 64" using nw unat_bound [of nw] by simp
  then have nw_of: "nw = of_nat (n len)" using nw by (simp add: word_unat_eq_iff unat_of_nat_small)
  have fn: "f < nw \<longleftrightarrow> unat f < n len" by (simp add: word_less_nat_alt nw)
  have rest: "unat (nw - f) = n len - unat f"
    using f by (subst unat_sub) (simp_all add: word_le_nat_alt nw)
  have "readable r \<noteq> 0" using avail unat_readable [of r] by auto
  then have "recv_some r len =
      (case bslice (r_data r) (unat off) (unat f) of None \<Rightarrow> None
       | Some b \<Rightarrow> (case (if f < nw then bslice (r_data r) 0 (unat (nw - f)) else Some []) of
             None \<Rightarrow> None | Some b' \<Rightarrow> Some (nw, b @ b', r\<lparr>r_head := r_head r + nw\<rparr>)))"
    unfolding recv_some_def nw_def off_def f_def readable_def Let_def by (simp only: if_False)
  also have "\<dots> = map_option (\<lambda>b. (of_nat (n len), b, r\<lparr>r_head := r_head r + of_nat (n len)\<rparr>))
      (circ_read (r_data r) (unat off) (n len))"
    by (simp only: fn rest)
      (auto simp add: circ_read_def Let_def f [symmetric] nw_of split: option.split)
  finally show ?thesis by (simp only: off)
qed

lemma send_some_full: "writable r = 0 \<Longrightarrow> send_some r buf = Some (0, r)"
  by (simp add: send_some_def writable_def Let_def)

lemma recv_some_empty: "contents r = [] \<Longrightarrow> recv_some r len = Some (0, [], r)"
  using unat_readable [of r] by (simp add: recv_some_def readable_def Let_def unat_eq_0)

lemma contents_appended:
  assumes wf: "ring_wf r" and n: "n \<le> capacity r - length (contents r)" and src: "length src = n"
    and d: "length d = length (r_data r)"
      "\<And>j. j < length (r_data r) \<Longrightarrow>
         d ! ((unat (r_tail r) mod length (r_data r) + j) mod length (r_data r))
           = (if j < n then src ! j
              else r_data r ! ((unat (r_tail r) mod length (r_data r) + j) mod length (r_data r)))"
  defines "r' \<equiv> r\<lparr>r_data := d, r_tail := r_tail r + of_nat n\<rparr>"
  shows "ring_wf r'" "contents r' = contents r @ src"
proof -
  let ?N = "length (r_data r)" and ?H = "unat (r_head r)" and ?L = "length (contents r)"
  have L: "?L = unat (r_tail r - r_head r)" by (simp add: contents_def)
  have N64: "?N < 2 ^ 64" and LN: "?L \<le> ?N" using wf L by (simp_all add: ring_wf_def)
  have sum: "?L + n \<le> ?N" using n LN by (simp add: capacity_def)
  have un: "unat (of_nat n :: u64) = n" using sum N64 by (simp add: unat_of_nat_small)
  have grow: "unat (r_tail r + of_nat n - r_head r) = ?L + n"
    using unat_diff_grow [of "r_tail r" "r_head r" "of_nat n"] sum N64 L un by simp
  show "ring_wf r'"
    using wf sum d(1) by (simp add: ring_wf_def r'_def grow ring_static_ok_def kCapacity_def)
  have idx: "(unat (r_tail r) mod ?N + j) mod ?N = (?H + ?L + j) mod ?N" for j
    using masked_tail [OF wf] L by (simp add: mod_add_left_eq)
  have old: "d ! ((?H + i) mod ?N) = r_data r ! ((?H + i) mod ?N)" if "i < ?L" for i
  proof -
    have "(?H + ?L + (?N - ?L + i)) mod ?N = (?H + i + ?N) mod ?N" using LN by (simp add: ac_simps)
    then have "(?H + ?L + (?N - ?L + i)) mod ?N = (?H + i) mod ?N" by simp
    moreover have "?N - ?L + i < ?N" "\<not> ?N - ?L + i < n" using that LN sum by linarith+
    ultimately show ?thesis using d(2) [of "?N - ?L + i"] by (simp only: idx if_False)
  qed
  have new: "d ! ((?H + (?L + k)) mod ?N) = src ! k" if "k < n" for k
    using d(2) [of k] that sum by (simp add: idx add.assoc)
  have c': "contents r' = map (\<lambda>i. d ! ((?H + i) mod ?N)) [0..<?L + n]"
    unfolding contents_def [of r'] ring_at_def by (simp add: r'_def grow d(1))
  show "contents r' = contents r @ src"
  proof (rule nth_equalityI)
    show "length (contents r') = length (contents r @ src)" by (simp add: c' src)
    fix i assume "i < length (contents r')"
    then have i: "i < ?L + n" by (simp add: c')
    moreover have "contents r ! i = r_data r ! ((?H + i) mod ?N)" if "i < ?L"
      using that L by (simp add: contents_def ring_at_def)
    ultimately show "contents r' ! i = (contents r @ src) ! i"
      using old [of i] new [of "i - ?L"] by (auto simp: c' nth_append)
  qed
qed

lemma contents_dropped:
  assumes wf: "ring_wf r" and n: "n \<le> length (contents r)"
  defines "r' \<equiv> r\<lparr>r_head := r_head r + of_nat n\<rparr>"
  shows "ring_wf r'" "contents r' = drop n (contents r)"
proof -
  let ?N = "length (r_data r)" and ?H = "unat (r_head r)" and ?L = "length (contents r)"
  have L: "?L = unat (r_tail r - r_head r)" by (simp add: contents_def)
  have N64: "?N < 2 ^ 64" and LN: "?L \<le> ?N" using wf L by (simp_all add: ring_wf_def)
  have un: "unat (of_nat n :: u64) = n" using n LN N64 by (simp add: unat_of_nat_small)
  have shrink: "unat (r_tail r - (r_head r + of_nat n)) = ?L - n"
    using unat_diff_shrink [of "of_nat n" "r_tail r" "r_head r"] n L un by simp
  show "ring_wf r'"
    using wf LN by (simp add: ring_wf_def r'_def shrink ring_static_ok_def kCapacity_def)
  have idx: "(unat (r_head r + of_nat n) + i) mod ?N = (?H + (n + i)) mod ?N" for i
    using advanced_head [OF wf, of "of_nat n"] un by (metis add.assoc mod_add_left_eq)
  have "contents r' = map (\<lambda>i. r_data r ! ((?H + (n + i)) mod ?N)) [0..<?L - n]"
    unfolding contents_def [of r'] ring_at_def by (simp add: r'_def shrink idx)
  then show "contents r' = drop n (contents r)"
    by (simp add: contents_def [of r] ring_at_def drop_map_upt)
qed

lemma contents_prefix_read:
  assumes "ring_wf r" "n \<le> length (contents r)"
  shows "circ_read (r_data r) (unat (r_head r) mod length (r_data r)) n = Some (take n (contents r))"
proof -
  have n: "n \<le> length (r_data r)" using assms by (simp add: ring_wf_def contents_def)
  moreover have "unat (r_head r) mod length (r_data r) < length (r_data r)"
    using assms(1) by (simp add: ring_wf_nonempty)
  ultimately show ?thesis
    using assms(2) by (simp add: circ_read_ok contents_def ring_at_def mod_add_left_eq take_map_upt)
qed

text \<open>The functional contract of the two data operations, on every well-formed ring.\<close>

lemma send_some_spec:
  assumes wf: "ring_wf r" and len: "length buf < 2 ^ 64"
  obtains n r' where "send_some r buf = Some (n, r')" "ring_wf r'"
    "unat n = min (length buf) (capacity r - length (contents r))"
    "contents r' = contents r @ take (unat n) buf"
    "capacity r' = capacity r" "r_head r' = r_head r" "r_closed r' = r_closed r"
proof (cases "writable r = 0")
  case True
  then show ?thesis using wf that [of 0 r] unat_writable [OF wf] by (simp add: send_some_full)
next
  case False
  let ?n = "min (length buf) (capacity r - length (contents r))"
  let ?off = "unat (r_tail r) mod length (r_data r)"
  have off: "?off < length (r_data r)" using wf by (simp add: ring_wf_nonempty)
  have ln: "length (take ?n buf) = ?n" "?n \<le> capacity r - length (contents r)" by simp_all
  have le: "length (take ?n buf) \<le> length (r_data r)" using ln by (simp add: capacity_def)
  obtain d where d: "circ_write (r_data r) ?off (take ?n buf) = Some d"
      "length d = length (r_data r)"
      "\<And>j. j < length (r_data r) \<Longrightarrow> d ! ((?off + j) mod length (r_data r))
         = (if j < ?n then take ?n buf ! j else r_data r ! ((?off + j) mod length (r_data r)))"
    by (rule circ_write_ok [OF off le, unfolded ln(1)]) blast
  have "?n < 2 ^ 64" using len by simp
  then have un: "unat (of_nat ?n :: u64) = ?n" by (simp add: unat_of_nat_small)
  let ?r = "r\<lparr>r_data := d, r_tail := r_tail r + of_nat ?n\<rparr>"
  show ?thesis
  proof (rule that)
    show "send_some r buf = Some (of_nat ?n, ?r)"
      using send_some_circ [OF wf len False] d(1) by simp
    show "ring_wf ?r" "contents ?r = contents r @ take (unat (of_nat ?n :: u64)) buf"
      using contents_appended [OF wf ln(2,1) d(2,3)] un by simp_all
  qed (use un d(2) in \<open>simp_all add: capacity_def\<close>)
qed

lemma recv_some_spec:
  assumes wf: "ring_wf r"
  obtains n r' where "recv_some r len = Some (n, take (unat n) (contents r), r')" "ring_wf r'"
    "unat n = min (unat len) (length (contents r))"
    "contents r' = drop (unat n) (contents r)"
    "capacity r' = capacity r" "r_tail r' = r_tail r" "r_closed r' = r_closed r"
proof (cases "contents r = []")
  case True
  then show ?thesis using wf that [of 0 r] by (simp add: recv_some_empty)
next
  case False
  let ?n = "min (unat len) (length (contents r))"
  have "?n < 2 ^ 64" using unat_bound [of len] by simp
  then have un: "unat (of_nat ?n :: u64) = ?n" by (simp add: unat_of_nat_small)
  let ?r = "r\<lparr>r_head := r_head r + of_nat ?n\<rparr>"
  show ?thesis
  proof (rule that)
    show "recv_some r len = Some (of_nat ?n, take (unat (of_nat ?n :: u64)) (contents r), ?r)"
      using recv_some_circ [OF wf False, of len] contents_prefix_read [OF wf, of ?n] un by simp
    show "ring_wf ?r" "contents ?r = drop (unat (of_nat ?n :: u64)) (contents r)"
      using contents_dropped [OF wf, of ?n] un by simp_all
  qed (use un in \<open>simp_all add: capacity_def\<close>)
qed


section \<open>The interface the connection layer relies on\<close>

text \<open>
  A sequence of non-blocking operations on a stream: each send offers a buffer and accepts a prefix
  of it, each receive asks for at most so many bytes. The run collects the accepted bytes and the
  delivered ones.
\<close>

datatype stream_op = Offer "u8 list" | Ask u64

fun stream_run :: "('r \<Rightarrow> u8 list \<Rightarrow> (u64 \<times> 'r) option) \<Rightarrow> ('r \<Rightarrow> u64 \<Rightarrow> (u64 \<times> u8 list \<times> 'r) option)
    \<Rightarrow> 'r \<Rightarrow> stream_op list \<Rightarrow> (u8 list \<times> u8 list \<times> 'r) option" where
  "stream_run send recv r [] = Some ([], [], r)"
| "stream_run send recv r (Offer buf # ops) =
     (case send r buf of None \<Rightarrow> None
      | Some (n, r') \<Rightarrow> map_option (\<lambda>(a, d, s). (take (unat n) buf @ a, d, s)) (stream_run send recv r' ops))"
| "stream_run send recv r (Ask len # ops) =
     (case recv r len of None \<Rightarrow> None
      | Some (n, b, r') \<Rightarrow> map_option (\<lambda>(a, d, s). (a, b @ d, s)) (stream_run send recv r' ops))"

definition op_sized :: "stream_op \<Rightarrow> bool" where
  "op_sized p = (case p of Offer buf \<Rightarrow> length buf < 2 ^ 64 | Ask _ \<Rightarrow> True)"

locale byte_stream =
  fixes invar :: "'r \<Rightarrow> bool"
    and send :: "'r \<Rightarrow> u8 list \<Rightarrow> (u64 \<times> 'r) option"
    and recv :: "'r \<Rightarrow> u64 \<Rightarrow> (u64 \<times> u8 list \<times> 'r) option"
    and cont :: "'r \<Rightarrow> u8 list"
    and cap :: "'r \<Rightarrow> nat"
  assumes send_law: "invar r \<Longrightarrow> length buf < 2 ^ 64 \<Longrightarrow>
      \<exists>n r'. send r buf = Some (n, r') \<and> invar r' \<and> cap r' = cap r
        \<and> unat n = min (length buf) (cap r - length (cont r))
        \<and> cont r' = cont r @ take (unat n) buf"
    and recv_law: "invar r \<Longrightarrow>
      \<exists>n r'. recv r len = Some (n, take (unat n) (cont r), r') \<and> invar r' \<and> cap r' = cap r
        \<and> unat n = min (unat len) (length (cont r)) \<and> cont r' = drop (unat n) (cont r)"
    and bound_law: "invar r \<Longrightarrow> length (cont r) \<le> cap r"
begin

lemma run_integrity:
  assumes "invar r" "list_all op_sized ops"
  shows "\<exists>a d r'. stream_run send recv r ops = Some (a, d, r') \<and> invar r' \<and> cap r' = cap r
           \<and> cont r @ a = d @ cont r'"
  using assms
proof (induction ops arbitrary: r)
  case Nil
  then show ?case by simp
next
  case (Cons p ops)
  show ?case
  proof (cases p)
    case (Offer buf)
    then have len: "length buf < 2 ^ 64" using Cons.prems(2) by (simp add: op_sized_def)
    from send_law [OF Cons.prems(1) len] obtain n r1
      where s: "send r buf = Some (n, r1)" "invar r1" "cap r1 = cap r"
        "cont r1 = cont r @ take (unat n) buf" by blast
    from Cons.IH [OF s(2)] Cons.prems(2) obtain a d r'
      where "stream_run send recv r1 ops = Some (a, d, r')" "invar r'" "cap r' = cap r1"
        "cont r1 @ a = d @ cont r'" by auto
    with s Offer show ?thesis by simp
  next
    case (Ask len)
    from recv_law [OF Cons.prems(1), of len] obtain n r1
      where s: "recv r len = Some (n, take (unat n) (cont r), r1)" "invar r1" "cap r1 = cap r"
        "cont r1 = drop (unat n) (cont r)" by blast
    from Cons.IH [OF s(2)] Cons.prems(2) obtain a d r'
      where "stream_run send recv r1 ops = Some (a, d, r')" "invar r'" "cap r' = cap r1"
        "cont r1 @ a = d @ cont r'" by auto
    moreover from this s(4) have "cont r @ a = take (unat n) (cont r) @ d @ cont r'"
      by (metis append_assoc append_take_drop_id)
    ultimately show ?thesis using s Ask by simp
  qed
qed

lemma send_progress:
  assumes "invar r" "length buf < 2 ^ 64" "buf \<noteq> []" "length (cont r) < cap r"
    "send r buf = Some (n, r')"
  shows "0 < unat n"
  using send_law [OF assms(1,2)] assms(3-5) by (auto simp: min_def)

end

interpretation ring_stream: byte_stream ring_wf send_some recv_some contents capacity
proof
  fix r buf assume wf: "ring_wf r" and len: "length (buf :: u8 list) < 2 ^ 64"
  show "\<exists>n r'. send_some r buf = Some (n, r') \<and> ring_wf r' \<and> capacity r' = capacity r
        \<and> unat n = min (length buf) (capacity r - length (contents r))
        \<and> contents r' = contents r @ take (unat n) buf"
    by (rule send_some_spec [OF wf len]) blast
next
  fix r len assume wf: "ring_wf r"
  show "\<exists>n r'. recv_some r len = Some (n, take (unat n) (contents r), r') \<and> ring_wf r'
        \<and> capacity r' = capacity r \<and> unat n = min (unat len) (length (contents r))
        \<and> contents r' = drop (unat n) (contents r)"
    by (rule recv_some_spec [OF wf]) blast
qed (rule contents_bounded)

lemma ring_init_wf:
  assumes "length (r_data r) < 2 ^ 64" "ring_static_ok r"
  shows "ring_wf (ring_init r)" "contents (ring_init r) = []" "\<not> peer_closed (ring_init r)"
  using assms by (simp_all add: ring_wf_def ring_init_def ring_static_ok_def kCapacity_def
      contents_def peer_closed_def)

lemma mark_closed_frame:
  "ring_wf (mark_closed r) = ring_wf r" "contents (mark_closed r) = contents r"
  "capacity (mark_closed r) = capacity r" "peer_closed (mark_closed r)"
  "r_head (mark_closed r) = r_head r" "r_tail (mark_closed r) = r_tail r"
  by (simp_all add: ring_wf_def ring_static_ok_def kCapacity_def mark_closed_def contents_def
      ring_at_def capacity_def peer_closed_def)


text \<open>A ring whose counters straddle the 64-bit wrap, with four bytes in flight.\<close>

definition wrapped_ring :: shm_ring where
  "wrapped_ring = \<lparr>r_tail = 2, r_closed = 0, r_head = 18446744073709551614,
     r_data = replicate 4096 7\<rparr>"

lemma wrapped_ring_facts:
  "ring_wf wrapped_ring" "contents wrapped_ring = [7, 7, 7, 7]" "unat (writable wrapped_ring) = 4092"
proof -
  show wf: "ring_wf wrapped_ring"
    by (simp add: wrapped_ring_def ring_wf_def ring_static_ok_def kCapacity_def)
  show "contents wrapped_ring = [7, 7, 7, 7]"
    by (simp add: wrapped_ring_def contents_def ring_at_def upt_rec)
  then show "unat (writable wrapped_ring) = 4092"
    using unat_writable [OF wf] by (simp add: capacity_def wrapped_ring_def)
qed


section \<open>Properties\<close>

text \<open>
  C16. A non-blocking send on a well-formed ring never touches memory outside the data array, accepts
  exactly the prefix of the buffer that fits in the free space, appends it to the bytes in flight and
  leaves the consumer's index and the closed flag alone, also when the 64-bit counters wrap around
  and when the write wraps around the end of the array.
\<close>

theorem send_some_refines:
  assumes "ring_wf r" and "length buf < 2 ^ 64"
  shows "\<exists>n r'. send_some r buf = Some (n, r') \<and> ring_wf r'
           \<and> unat n = min (length buf) (unat (writable r))
           \<and> contents r' = contents r @ take (unat n) buf
           \<and> capacity r' = capacity r \<and> r_head r' = r_head r \<and> r_closed r' = r_closed r"
proof -
  obtain n r' where "send_some r buf = Some (n, r')" "ring_wf r'"
    "unat n = min (length buf) (capacity r - length (contents r))"
    "contents r' = contents r @ take (unat n) buf"
    "capacity r' = capacity r" "r_head r' = r_head r" "r_closed r' = r_closed r"
    by (rule send_some_spec [OF assms])
  then show ?thesis using unat_writable [OF assms(1)] by auto
qed

theorem send_some_refines_witness:
  "ring_wf wrapped_ring \<and> (\<exists>n r'. send_some wrapped_ring [1, 2, 3] = Some (n, r') \<and> ring_wf r'
     \<and> unat n = 3 \<and> contents r' = [7, 7, 7, 7, 1, 2, 3])"
  using send_some_refines [of wrapped_ring "[1, 2, 3]"] wrapped_ring_facts by auto

text \<open>
  C17. A non-blocking receive on a well-formed ring stays within the data array, delivers exactly the
  oldest bytes in flight, as many as are asked for and available, removes them, and leaves the
  producer's index and the closed flag alone.
\<close>

theorem recv_some_refines:
  assumes "ring_wf r"
  shows "\<exists>n r'. recv_some r len = Some (n, take (unat n) (contents r), r') \<and> ring_wf r'
           \<and> unat n = min (unat len) (unat (readable r))
           \<and> contents r' = drop (unat n) (contents r)
           \<and> capacity r' = capacity r \<and> r_tail r' = r_tail r \<and> r_closed r' = r_closed r"
  by (rule recv_some_spec [OF assms, of len]) (auto simp: unat_readable)

theorem recv_some_refines_witness:
  "ring_wf wrapped_ring \<and> (\<exists>n r'. recv_some wrapped_ring 3 = Some (n, [7, 7, 7], r') \<and> ring_wf r'
     \<and> unat n = 3 \<and> contents r' = [7])"
  using recv_some_refines [of wrapped_ring 3] wrapped_ring_facts by (auto simp: unat_readable)

text \<open>
  C2. Over any sequence of sends and receives on a well-formed ring no operation faults, and the bytes
  delivered followed by the bytes still in the ring are the bytes that were in the ring followed by
  the bytes accepted: nothing is lost, duplicated or reordered.
\<close>

theorem ring_stream_integrity:
  assumes "ring_wf r" and "list_all op_sized ops"
  shows "\<exists>a d r'. stream_run send_some recv_some r ops = Some (a, d, r') \<and> ring_wf r'
           \<and> contents r @ a = d @ contents r'"
  using ring_stream.run_integrity [OF assms] by blast

theorem ring_stream_integrity_witness:
  "ring_wf wrapped_ring \<and> list_all op_sized [Offer [1, 2], Ask 5]
     \<and> (\<exists>a d r'. stream_run send_some recv_some wrapped_ring [Offer [1, 2], Ask 5] = Some (a, d, r')
          \<and> ring_wf r' \<and> [7, 7, 7, 7] @ a = d @ contents r')"
  using ring_stream_integrity [of wrapped_ring "[Offer [1, 2], Ask 5]"] wrapped_ring_facts
  by (auto simp: op_sized_def)

end
