(* ===== verification/Shm_Ring_Spsc.thy ===== *)
theory Shm_Ring_Spsc
  imports Shm_Ring
begin

text \<open>
  The ring under concurrency. The producer process runs \<^verbatim>\<open>send_some\<close> and finally
  \<^verbatim>\<open>mark_closed\<close>, the consumer process runs \<^verbatim>\<open>recv_some\<close> and the end-of-stream test
  of \<^verbatim>\<open>shm_recv\<close>; their loads, the single bytes of their copies and their stores interleave in
  any order. Each atomic access of \<^verbatim>\<open>shm_ring.hpp\<close> is one step, so an index a process has
  loaded may be stale by the time it is used. The release stores and acquire loads of the source
  order a process's byte copies with its index accesses; that order is the program order of the steps.
  Two ghost lists record the bytes published and the bytes delivered.
\<close>

section \<open>Processes and steps\<close>

datatype prod_pc =
    PIdle
  | PLoadedTail "u8 list" u64
  | PCopy "u8 list" u64 u64 nat
  | PDone

datatype cons_pc =
    CIdle
  | CLoadedTail u64 u64
  | CCopy u64 u64 nat "u8 list"
  | CSawClosed
  | CEof

record spsc =
  ring :: shm_ring
  ppc :: prod_pc
  cpc :: cons_pc
  sent :: "u8 list"
  recvd :: "u8 list"

text \<open>
  Byte \<open>i\<close> of a copy that starts at the counter \<open>x\<close>: the first \<^verbatim>\<open>memcpy\<close> fills the array
  up to its end, the second continues at its front.
\<close>

definition copy_index :: "shm_ring \<Rightarrow> u64 \<Rightarrow> nat \<Rightarrow> nat" where
  "copy_index r x i =
     (let off = unat (x AND kMask r)
      in if off + i < length (r_data r) then off + i else off + i - length (r_data r))"

inductive spsc_step :: "spsc \<Rightarrow> spsc \<Rightarrow> bool" where
  p_load_tail: "ppc s = PIdle \<Longrightarrow> length buf < 2 ^ 64 \<Longrightarrow>
     spsc_step s (s\<lparr>ppc := PLoadedTail buf (r_tail (ring s))\<rparr>)"
| p_full: "ppc s = PLoadedTail buf t \<Longrightarrow> kCapacity (ring s) - (t - r_head (ring s)) = 0 \<Longrightarrow>
     spsc_step s (s\<lparr>ppc := PIdle\<rparr>)"
| p_load_head: "ppc s = PLoadedTail buf t \<Longrightarrow>
     free = kCapacity (ring s) - (t - r_head (ring s)) \<Longrightarrow> free \<noteq> 0 \<Longrightarrow>
     n = (if of_nat (length buf) < free then of_nat (length buf) else free) \<Longrightarrow>
     spsc_step s (s\<lparr>ppc := PCopy buf t n 0\<rparr>)"
| p_copy: "ppc s = PCopy buf t n i \<Longrightarrow> i < unat n \<Longrightarrow>
     spsc_step s (s\<lparr>ring := (ring s)\<lparr>r_data := (r_data (ring s))[copy_index (ring s) t i := buf ! i]\<rparr>,
                    ppc := PCopy buf t n (Suc i)\<rparr>)"
| p_store: "ppc s = PCopy buf t n (unat n) \<Longrightarrow>
     spsc_step s (s\<lparr>ring := (ring s)\<lparr>r_tail := t + n\<rparr>, ppc := PIdle,
                    sent := sent s @ take (unat n) buf\<rparr>)"
| p_close: "ppc s = PIdle \<Longrightarrow> spsc_step s (s\<lparr>ring := mark_closed (ring s), ppc := PDone\<rparr>)"
| c_load_tail: "cpc s = CIdle \<Longrightarrow> spsc_step s (s\<lparr>cpc := CLoadedTail len (r_tail (ring s))\<rparr>)"
| c_empty: "cpc s = CLoadedTail len t \<Longrightarrow> t - r_head (ring s) = 0 \<Longrightarrow>
     spsc_step s (s\<lparr>cpc := CIdle\<rparr>)"
| c_load_head: "cpc s = CLoadedTail len t \<Longrightarrow>
     avail = t - r_head (ring s) \<Longrightarrow> avail \<noteq> 0 \<Longrightarrow>
     n = (if len < avail then len else avail) \<Longrightarrow>
     spsc_step s (s\<lparr>cpc := CCopy (r_head (ring s)) n 0 []\<rparr>)"
| c_copy: "cpc s = CCopy h n i acc \<Longrightarrow> i < unat n \<Longrightarrow>
     spsc_step s (s\<lparr>cpc := CCopy h n (Suc i) (acc @ [r_data (ring s) ! copy_index (ring s) h i])\<rparr>)"
| c_store: "cpc s = CCopy h n (unat n) acc \<Longrightarrow>
     spsc_step s (s\<lparr>ring := (ring s)\<lparr>r_head := h + n\<rparr>, cpc := CIdle, recvd := recvd s @ acc\<rparr>)"
| c_see_closed: "cpc s = CIdle \<Longrightarrow> peer_closed (ring s) \<Longrightarrow> spsc_step s (s\<lparr>cpc := CSawClosed\<rparr>)"
| c_more: "cpc s = CSawClosed \<Longrightarrow> readable (ring s) \<noteq> 0 \<Longrightarrow> spsc_step s (s\<lparr>cpc := CIdle\<rparr>)"
| c_eof: "cpc s = CSawClosed \<Longrightarrow> readable (ring s) = 0 \<Longrightarrow> spsc_step s (s\<lparr>cpc := CEof\<rparr>)"

definition spsc_init :: "u8 list \<Rightarrow> spsc" where
  "spsc_init d = \<lparr>ring = ring_init \<lparr>r_tail = 0, r_closed = 0, r_head = 0, r_data = d\<rparr>,
     ppc = PIdle, cpc = CIdle, sent = [], recvd = []\<rparr>"

inductive spsc_reach :: "u8 list \<Rightarrow> spsc \<Rightarrow> bool" for d where
  start: "spsc_reach d (spsc_init d)"
| step: "spsc_reach d s \<Longrightarrow> spsc_step s t \<Longrightarrow> spsc_reach d t"

text \<open>
  The inductive invariant. The producer holds the current tail and has reserved space that no
  consumer step can take away; the bytes it has copied so far are in that space. The consumer's
  loaded tail is a past one, so it sees at most what is in the ring, and what it has copied is a
  prefix of the contents. Published bytes are the delivered ones followed by the contents.
\<close>

fun prod_ok :: "shm_ring \<Rightarrow> prod_pc \<Rightarrow> bool" where
  "prod_ok r PIdle = (\<not> peer_closed r)"
| "prod_ok r (PLoadedTail buf t) = (\<not> peer_closed r \<and> t = r_tail r \<and> length buf < 2 ^ 64)"
| "prod_ok r (PCopy buf t n i) =
     (\<not> peer_closed r \<and> t = r_tail r \<and> unat n \<le> length buf \<and> i \<le> unat n
      \<and> length (contents r) + unat n \<le> capacity r
      \<and> (\<forall>j<i. r_data r ! copy_index r t j = buf ! j))"
| "prod_ok r PDone = peer_closed r"

fun cons_ok :: "shm_ring \<Rightarrow> prod_pc \<Rightarrow> cons_pc \<Rightarrow> bool" where
  "cons_ok r p CIdle = True"
| "cons_ok r p (CLoadedTail len t) = (unat (t - r_head r) \<le> length (contents r))"
| "cons_ok r p (CCopy h n i acc) =
     (h = r_head r \<and> unat n \<le> length (contents r) \<and> i \<le> unat n \<and> acc = take i (contents r))"
| "cons_ok r p CSawClosed = (p = PDone)"
| "cons_ok r p CEof = (p = PDone \<and> contents r = [])"

definition spsc_inv :: "spsc \<Rightarrow> bool" where
  "spsc_inv s \<longleftrightarrow> ring_wf (ring s) \<and> prod_ok (ring s) (ppc s) \<and> cons_ok (ring s) (ppc s) (cpc s)
     \<and> sent s = recvd s @ contents (ring s)"

section \<open>Every step keeps the invariant\<close>

lemma copy_index_eq:
  assumes "ring_wf r" "i < length (r_data r)"
  shows "copy_index r x i = (unat x mod length (r_data r) + i) mod length (r_data r)"
    and "copy_index r x i < length (r_data r)"
proof -
  let ?N = "length (r_data r)"
  have off: "unat x mod ?N < ?N" using assms(1) by (simp add: ring_wf_nonempty)
  then show "copy_index r x i = (unat x mod ?N + i) mod ?N"
    using assms(2) by (simp add: copy_index_def masked_index [OF assms(1)] mod_add_small Let_def)
  then show "copy_index r x i < ?N" using ring_wf_nonempty [OF assms(1)] by simp
qed

lemma copy_index_inj:
  assumes "ring_wf r" "i < capacity r" "j < capacity r" "copy_index r x i = copy_index r x j"
  shows "i = j"
proof -
  let ?N = "length (r_data r)"
  have ij: "i < ?N" "j < ?N" using assms(2,3) by (simp_all add: capacity_def)
  have "(unat x mod ?N + i) mod ?N = (unat x mod ?N + j) mod ?N"
    using assms(4) copy_index_eq(1) [OF assms(1) ij(1), of x] copy_index_eq(1) [OF assms(1) ij(2), of x]
    by simp
  then show ?thesis using ij by (rule mod_add_inj)
qed

lemma copy_index_head:
  assumes "ring_wf r" "i < length (r_data r)"
  shows "r_data r ! copy_index r (r_head r) i = ring_at r i"
  using copy_index_eq(1) [OF assms, of "r_head r"] by (simp add: ring_at_def mod_add_left_eq)

lemma copy_index_tail:
  assumes "ring_wf r" "j < length (r_data r)"
  shows "copy_index r (r_tail r) j
           = (unat (r_head r) + (length (contents r) + j)) mod length (r_data r)"
  using copy_index_eq(1) [OF assms, of "r_tail r"] masked_tail [OF assms(1)]
  by (simp add: contents_def mod_add_left_eq add.assoc)

text \<open>A byte written beyond the tail leaves the contents as they are.\<close>

lemma reserved_write:
  fixes b :: u8
  assumes wf: "ring_wf r" and j: "length (contents r) + j < capacity r"
  defines "r' \<equiv> r\<lparr>r_data := (r_data r)[copy_index r (r_tail r) j := b]\<rparr>"
  shows "contents r' = contents r" "ring_wf r'"
proof -
  let ?N = "length (r_data r)" and ?H = "unat (r_head r)"
  show "ring_wf r'" using wf by (simp add: r'_def ring_wf_def ring_static_ok_def kCapacity_def)
  have jn: "j < ?N" using j by (simp add: capacity_def)
  have "ring_at r' i = ring_at r i" if i: "i < unat (r_tail r - r_head r)" for i
  proof -
    have iL: "i < length (contents r)" using i by (simp add: contents_def)
    have "(?H + i) mod ?N \<noteq> copy_index r (r_tail r) j"
    proof
      assume "(?H + i) mod ?N = copy_index r (r_tail r) j"
      then have "(?H + i) mod ?N = (?H + (length (contents r) + j)) mod ?N"
        by (simp only: copy_index_tail [OF wf jn])
      then have "i = length (contents r) + j"
        by (rule mod_add_inj) (use iL j in \<open>simp_all add: capacity_def\<close>)
      with iL show False by simp
    qed
    then show ?thesis by (simp add: r'_def ring_at_def)
  qed
  then show "contents r' = contents r"
    unfolding contents_def [of r'] contents_def [of r] by (simp add: r'_def)
qed

lemma copy_index_data [simp]:
  "copy_index (r\<lparr>r_data := (r_data r)[k := b]\<rparr>) x i = copy_index r x i"
  "copy_index (r\<lparr>r_tail := t\<rparr>) x i = copy_index r x i"
  "copy_index (r\<lparr>r_head := h\<rparr>) x i = copy_index r x i"
  by (simp_all add: copy_index_def kMask_def kCapacity_def Let_def)

lemma ring_frame [simp]:
  "capacity (r\<lparr>r_data := (r_data r)[k := b]\<rparr>) = capacity r"
  "capacity (r\<lparr>r_tail := t\<rparr>) = capacity r" "capacity (r\<lparr>r_head := h\<rparr>) = capacity r"
  "peer_closed (r\<lparr>r_data := d\<rparr>) = peer_closed r"
  "peer_closed (r\<lparr>r_tail := t\<rparr>) = peer_closed r" "peer_closed (r\<lparr>r_head := h\<rparr>) = peer_closed r"
  by (simp_all add: capacity_def peer_closed_def)

lemma published:
  assumes wf: "ring_wf r" and p: "prod_ok r (PCopy buf t n (unat n))"
  shows "ring_wf (r\<lparr>r_tail := t + n\<rparr>)" "contents (r\<lparr>r_tail := t + n\<rparr>) = contents r @ take (unat n) buf"
proof -
  let ?N = "length (r_data r)"
  have t: "t = r_tail r" and le: "unat n \<le> length buf" "unat n \<le> capacity r - length (contents r)"
    and copied: "\<And>j. j < unat n \<Longrightarrow> r_data r ! copy_index r t j = buf ! j"
    using p by auto
  have "r_data r ! ((unat (r_tail r) mod ?N + j) mod ?N)
      = (if j < unat n then take (unat n) buf ! j
         else r_data r ! ((unat (r_tail r) mod ?N + j) mod ?N))" if "j < ?N" for j
    using copied [of j] copy_index_eq(1) [OF wf that, of t] t by auto
  from contents_appended [OF wf le(2) _ refl this] le(1)
  show "ring_wf (r\<lparr>r_tail := t + n\<rparr>)" "contents (r\<lparr>r_tail := t + n\<rparr>) = contents r @ take (unat n) buf"
    by (simp_all add: t)
qed

lemma consumed:
  assumes wf: "ring_wf r" and n: "unat n \<le> length (contents r)"
  shows "ring_wf (r\<lparr>r_head := r_head r + n\<rparr>)"
    "contents (r\<lparr>r_head := r_head r + n\<rparr>) = drop (unat n) (contents r)"
  using contents_dropped [OF wf n] by simp_all

lemma prod_ok_consumed:
  assumes "ring_wf r" "unat n \<le> length (contents r)" "prod_ok r p"
  shows "prod_ok (r\<lparr>r_head := r_head r + n\<rparr>) p"
  using assms consumed [OF assms(1,2)] by (cases p) auto

lemma prod_ok_copied:
  assumes wf: "ring_wf r" and p: "prod_ok r (PCopy buf t n i)" and i: "i < unat n"
  defines "r' \<equiv> r\<lparr>r_data := (r_data r)[copy_index r t i := buf ! i]\<rparr>"
  shows "prod_ok r' (PCopy buf t n (Suc i))" "contents r' = contents r" "ring_wf r'"
proof -
  have t: "t = r_tail r" and room: "length (contents r) + unat n \<le> capacity r"
    and copied: "\<And>j. j < i \<Longrightarrow> r_data r ! copy_index r t j = buf ! j"
    using p by auto
  then have li: "length (contents r) + i < capacity r" "i < length (r_data r)"
    using i by (auto simp: capacity_def)
  show c: "contents r' = contents r" and "ring_wf r'"
    using reserved_write [OF wf li(1), of "buf ! i"] by (simp_all add: r'_def t)
  have "r_data r' ! copy_index r t j = buf ! j" if "j < Suc i" for j
  proof (cases "j = i")
    case True
    then show ?thesis using copy_index_eq(2) [OF wf li(2), of t] by (simp add: r'_def)
  next
    case False
    with that have "j < i" by simp
    moreover have "copy_index r t i \<noteq> copy_index r t j"
      using copy_index_inj [OF wf, of i j t] \<open>j < i\<close> li(1) by auto
    ultimately show ?thesis using copied by (simp add: r'_def)
  qed
  then show "prod_ok r' (PCopy buf t n (Suc i))"
    using p i c by (simp add: r'_def)
qed

lemma cons_ok_published:
  assumes wf: "ring_wf r" and c: "cons_ok r (PCopy buf t n (unat n)) pc"
    and p: "prod_ok r (PCopy buf t n (unat n))"
  shows "cons_ok (r\<lparr>r_tail := t + n\<rparr>) PIdle pc"
  using c published [OF wf p] by (cases pc) auto

lemma snapshot_bounds:
  assumes "ring_wf r" "length buf < 2 ^ 64"
    "free = kCapacity r - (r_tail r - r_head r)"
    "n = (if of_nat (length buf) < free then of_nat (length buf) else free)"
  shows "unat n \<le> length buf" "length (contents r) + unat n \<le> capacity r"
proof -
  have "unat free = capacity r - length (contents r)"
    using unat_writable [OF assms(1)] assms(3) by (simp add: writable_def Let_def)
  moreover have "length (contents r) \<le> capacity r" using assms(1) by (rule contents_bounded)
  ultimately show "unat n \<le> length buf" "length (contents r) + unat n \<le> capacity r"
    using assms(2,4) by (auto simp: word_less_nat_alt unat_of_nat_small)
qed

lemma cons_ok_frame:
  "contents r' = contents r \<Longrightarrow> r_head r' = r_head r \<Longrightarrow> p \<noteq> PDone \<Longrightarrow>
     cons_ok r p c \<Longrightarrow> cons_ok r' p' c"
  by (cases c) auto

lemma spsc_invD:
  assumes "spsc_inv s"
  shows "ring_wf (ring s)" "prod_ok (ring s) (ppc s)" "cons_ok (ring s) (ppc s) (cpc s)"
    "sent s = recvd s @ contents (ring s)"
  using assms by (simp_all add: spsc_inv_def)

lemma spsc_step_inv:
  assumes "spsc_step s s'" "spsc_inv s"
  shows "spsc_inv s'"
  using assms
proof (induction rule: spsc_step.induct)
  case (p_copy s buf t n i)
  note inv = spsc_invD [OF p_copy.prems, unfolded p_copy.hyps(1)]
  note copied = prod_ok_copied [OF inv(1,2) p_copy.hyps(2)]
  have "cons_ok ((ring s)\<lparr>r_data := (r_data (ring s))[copy_index (ring s) t i := buf ! i]\<rparr>)
      (PCopy buf t n (Suc i)) (cpc s)"
    by (rule cons_ok_frame [OF copied(2) _ _ inv(3)]) simp_all
  then show ?case
    unfolding spsc_inv_def using copied inv(4) by (simp del: prod_ok.simps cons_ok.simps)
next
  case (p_store s buf t n)
  note inv = spsc_invD [OF p_store.prems, unfolded p_store.hyps(1)]
  show ?case
    unfolding spsc_inv_def
    using published [OF inv(1,2)] cons_ok_published [OF inv(1,3,2)] inv(2,4) by simp
next
  case (p_load_head s buf t free n)
  then have "ring_wf (ring s)" "t = r_tail (ring s)" "length buf < 2 ^ 64" by (auto simp: spsc_inv_def)
  with snapshot_bounds [OF this(1,3), of free n] p_load_head show ?case
    by (auto simp: spsc_inv_def intro: cons_ok_frame)
next
  case (p_close s)
  then show ?case
    by (cases "cpc s") (auto simp: spsc_inv_def mark_closed_frame)
next
  case (c_load_head s len t avail n)
  then show ?case by (auto simp: spsc_inv_def word_less_nat_alt)
next
  case (c_copy s h n i acc)
  then have "ring_wf (ring s)" "h = r_head (ring s)" "i < length (contents (ring s))"
    by (auto simp: spsc_inv_def)
  moreover from this have "i < length (r_data (ring s))"
    using contents_bounded by (fastforce simp: capacity_def)
  ultimately have "r_data (ring s) ! copy_index (ring s) h i = contents (ring s) ! i"
    by (simp add: copy_index_head contents_def)
  with c_copy show ?case by (auto simp: spsc_inv_def take_Suc_conv_app_nth)
next
  case (c_store s h n acc)
  then have "ring_wf (ring s)" "unat n \<le> length (contents (ring s))" "h = r_head (ring s)"
    by (auto simp: spsc_inv_def)
  with consumed [OF this(1,2)] prod_ok_consumed [OF this(1,2)] c_store show ?case
    by (auto simp: spsc_inv_def)
next
  case (c_see_closed s)
  then show ?case by (cases "ppc s") (auto simp: spsc_inv_def)
next
  case (c_eof s)
  then show ?case using unat_readable [of "ring s"] by (auto simp: spsc_inv_def)
qed (auto simp: spsc_inv_def contents_def intro: cons_ok_frame)

lemma spsc_reach_inv:
  assumes "spsc_reach d s" "length d < 2 ^ 64"
    "ring_static_ok \<lparr>r_tail = 0, r_closed = 0, r_head = 0, r_data = d\<rparr>"
  shows "spsc_inv s"
  using assms(1)
proof (induction rule: spsc_reach.induct)
  case start
  let ?r = "\<lparr>r_tail = 0, r_closed = 0, r_head = 0, r_data = d\<rparr>"
  have "length (r_data ?r) < 2 ^ 64" using assms(2) by simp
  from ring_init_wf [OF this assms(3)] show ?case by (simp add: spsc_inv_def spsc_init_def)
next
  case (step s t)
  then show ?case by (blast intro: spsc_step_inv)
qed

section \<open>The sequential operations are uninterrupted runs of the machine\<close>

lemma index_cover:
  assumes "ring_wf r" "k < length (r_data r)"
  obtains j where "j < length (r_data r)" "k = copy_index r x j"
proof -
  let ?N = "length (r_data r)" and ?o = "unat x mod length (r_data r)"
  let ?j = "(k + (?N - ?o)) mod ?N"
  have o: "?o < ?N" and j: "?j < ?N" using assms by (auto simp: ring_wf_nonempty)
  have "(?o + ?j) mod ?N = (?o + (k + (?N - ?o))) mod ?N" by (rule mod_add_right_eq)
  also have "?o + (k + (?N - ?o)) = k + ?N" using o by simp
  finally have "(?o + ?j) mod ?N = k" using assms(2) by simp
  then show ?thesis using that [OF j] copy_index_eq(1) [OF assms(1) j, of x] by simp
qed

lemma send_some_data:
  assumes wf: "ring_wf r" and len: "length buf < 2 ^ 64" and w: "writable r \<noteq> 0"
  defines "n \<equiv> min (length buf) (capacity r - length (contents r))"
  obtains d where "send_some r buf = Some (of_nat n, r\<lparr>r_data := d, r_tail := r_tail r + of_nat n\<rparr>)"
    "length d = length (r_data r)"
    "\<And>j. j < length (r_data r) \<Longrightarrow> d ! copy_index r (r_tail r) j
        = (if j < n then buf ! j else r_data r ! copy_index r (r_tail r) j)"
proof -
  let ?off = "unat (r_tail r) mod length (r_data r)"
  have off: "?off < length (r_data r)" using wf by (simp add: ring_wf_nonempty)
  have le: "length (take n buf) \<le> length (r_data r)" by (simp add: n_def capacity_def)
  obtain d where d: "circ_write (r_data r) ?off (take n buf) = Some d" "length d = length (r_data r)"
    "\<And>j. j < length (r_data r) \<Longrightarrow> d ! ((?off + j) mod length (r_data r))
       = (if j < length (take n buf) then take n buf ! j
          else r_data r ! ((?off + j) mod length (r_data r)))"
    by (rule circ_write_ok [OF off le]) blast
  show ?thesis
  proof (rule that [OF _ d(2)])
    show "send_some r buf = Some (of_nat n, r\<lparr>r_data := d, r_tail := r_tail r + of_nat n\<rparr>)"
      using send_some_circ [OF wf len w] d(1) by (simp add: n_def)
    fix j assume j: "j < length (r_data r)"
    show "d ! copy_index r (r_tail r) j
        = (if j < n then buf ! j else r_data r ! copy_index r (r_tail r) j)"
      using d(3) [OF j] copy_index_eq(1) [OF wf j, of "r_tail r"] by (simp add: n_def)
  qed
qed

lemma copy_all:
  assumes "ring_wf (ring s)" "ppc s = PCopy buf t n i" "i \<le> unat n" "unat n \<le> capacity (ring s)"
  shows "\<exists>d. spsc_step\<^sup>*\<^sup>* s (s\<lparr>ring := (ring s)\<lparr>r_data := d\<rparr>, ppc := PCopy buf t n (unat n)\<rparr>)
           \<and> length d = length (r_data (ring s))
           \<and> (\<forall>j<length (r_data (ring s)). d ! copy_index (ring s) t j
                = (if i \<le> j \<and> j < unat n then buf ! j else r_data (ring s) ! copy_index (ring s) t j))"
  using assms
proof (induction "unat n - i" arbitrary: i s)
  case 0
  then have i: "i = unat n" by simp
  have "s\<lparr>ring := (ring s)\<lparr>r_data := r_data (ring s)\<rparr>, ppc := PCopy buf t n (unat n)\<rparr> = s"
    using 0 i by simp
  then show ?case using i by (intro exI [of _ "r_data (ring s)"]) auto
next
  case (Suc m)
  let ?r = "ring s"
  let ?k = "copy_index ?r t i"
  let ?s = "s\<lparr>ring := ?r\<lparr>r_data := (r_data ?r)[?k := buf ! i]\<rparr>, ppc := PCopy buf t n (Suc i)\<rparr>"
  have i: "i < unat n" and im: "m = unat n - Suc i" using Suc.hyps(2) by simp_all
  have iN: "i < length (r_data ?r)" using i Suc.prems(4) by (simp add: capacity_def)
  have st: "spsc_step s ?s" using spsc_step.p_copy [OF Suc.prems(2) i] .
  have wf: "ring_wf (ring ?s)"
    using Suc.prems(1) by (simp add: ring_wf_def ring_static_ok_def kCapacity_def)
  have "\<exists>d. spsc_step\<^sup>*\<^sup>* ?s (?s\<lparr>ring := (ring ?s)\<lparr>r_data := d\<rparr>, ppc := PCopy buf t n (unat n)\<rparr>)
      \<and> length d = length (r_data (ring ?s))
      \<and> (\<forall>j<length (r_data (ring ?s)). d ! copy_index (ring ?s) t j
          = (if Suc i \<le> j \<and> j < unat n then buf ! j else r_data (ring ?s) ! copy_index (ring ?s) t j))"
    using i Suc.prems(4) by (intro Suc.hyps(1) [OF im wf]) auto
  then obtain d where d: "spsc_step\<^sup>*\<^sup>* ?s (s\<lparr>ring := ?r\<lparr>r_data := d\<rparr>, ppc := PCopy buf t n (unat n)\<rparr>)"
      "length d = length (r_data ?r)"
      "\<And>j. j < length (r_data ?r) \<Longrightarrow> d ! copy_index ?r t j
          = (if Suc i \<le> j \<and> j < unat n then buf ! j
             else (r_data ?r)[?k := buf ! i] ! copy_index ?r t j)"
    by auto
  have upd: "d ! copy_index ?r t j = (if i \<le> j \<and> j < unat n then buf ! j else r_data ?r ! copy_index ?r t j)"
    if j: "j < length (r_data ?r)" for j
  proof (cases "j = i")
    case True
    then show ?thesis using d(3) [OF j] copy_index_eq(2) [OF Suc.prems(1) iN, of t] i by simp
  next
    case False
    then have "?k \<noteq> copy_index ?r t j"
      using copy_index_inj [OF Suc.prems(1), of i j t] iN j by (auto simp: capacity_def)
    then show ?thesis using d(3) [OF j] False by auto
  qed
  have "spsc_step\<^sup>*\<^sup>* s (s\<lparr>ring := ?r\<lparr>r_data := d\<rparr>, ppc := PCopy buf t n (unat n)\<rparr>)"
    using st d(1) by (rule converse_rtranclp_into_rtranclp)
  then show ?case using upd d(2) by (intro exI [of _ d]) simp
qed

lemma read_all:
  assumes "spsc_inv s" "cpc s = CCopy h n i acc"
  shows "spsc_step\<^sup>*\<^sup>* s (s\<lparr>cpc := CCopy h n (unat n) (take (unat n) (contents (ring s)))\<rparr>)"
  using assms
proof (induction "unat n - i" arbitrary: i s acc)
  case 0
  note inv = spsc_invD(3) [OF 0(2), unfolded 0(3)]
  with 0(1) have "i = unat n" "acc = take (unat n) (contents (ring s))" by auto
  then have "s\<lparr>cpc := CCopy h n (unat n) (take (unat n) (contents (ring s)))\<rparr> = s" using 0(3) by simp
  then show ?case by simp
next
  case (Suc m)
  then have i: "i < unat n" and im: "m = unat n - Suc i" by simp_all
  let ?s = "s\<lparr>cpc := CCopy h n (Suc i) (acc @ [r_data (ring s) ! copy_index (ring s) h i])\<rparr>"
  have st: "spsc_step s ?s" using Suc.prems(2) i by (rule spsc_step.c_copy)
  have "spsc_step\<^sup>*\<^sup>* ?s (?s\<lparr>cpc := CCopy h n (unat n) (take (unat n) (contents (ring ?s)))\<rparr>)"
    by (rule Suc.hyps(1) [OF im spsc_step_inv [OF st Suc.prems(1)]]) simp
  with st show ?case by (simp add: converse_rtranclp_into_rtranclp)
qed

lemma producer_run:
  assumes inv: "spsc_inv s" and idle: "ppc s = PIdle" and len: "length buf < 2 ^ 64"
    and send: "send_some (ring s) buf = Some (n, r')"
  shows "spsc_step\<^sup>*\<^sup>* s (s\<lparr>ring := r', sent := sent s @ take (unat n) buf\<rparr>)"
proof -
  let ?r = "ring s"
  let ?t = "r_tail ?r"
  let ?s1 = "s\<lparr>ppc := PLoadedTail buf ?t\<rparr>"
  have wf: "ring_wf ?r" using inv by (rule spsc_invD)
  have s1: "spsc_step s ?s1" using idle len by (rule spsc_step.p_load_tail)
  show ?thesis
  proof (cases "writable ?r = 0")
    case True
    then have n: "n = 0" "r' = ?r" using send by (simp_all add: send_some_full)
    have "spsc_step ?s1 (?s1\<lparr>ppc := PIdle\<rparr>)"
      using True by (intro spsc_step.p_full [where t = ?t]) (simp_all add: writable_def Let_def)
    moreover have "?s1\<lparr>ppc := PIdle\<rparr> = s" using idle by simp
    ultimately show ?thesis using s1 n by (simp add: r_into_rtranclp converse_rtranclp_into_rtranclp)
  next
    case False
    define m where "m = min (length buf) (capacity ?r - length (contents ?r))"
    obtain d where d: "send_some ?r buf = Some (of_nat m, ?r\<lparr>r_data := d, r_tail := ?t + of_nat m\<rparr>)"
      "length d = length (r_data ?r)"
      "\<And>j. j < length (r_data ?r) \<Longrightarrow> d ! copy_index ?r ?t j
          = (if j < m then buf ! j else r_data ?r ! copy_index ?r ?t j)"
      unfolding m_def by (rule send_some_data [OF wf len False]) blast
    have um: "unat (of_nat m :: u64) = m" using len by (simp add: m_def unat_of_nat_small)
    have n: "n = of_nat m" "r' = ?r\<lparr>r_data := d, r_tail := ?t + n\<rparr>" using send d(1) by auto
    let ?s2 = "s\<lparr>ppc := PCopy buf ?t n 0\<rparr>"
    have nw: "n = (if of_nat (length buf) < writable ?r then of_nat (length buf) else writable ?r)"
      using len um by (auto simp: n(1) word_unat_eq_iff word_less_nat_alt unat_writable [OF wf]
          unat_of_nat_small m_def)
    have "spsc_step ?s1 (?s1\<lparr>ppc := PCopy buf ?t n 0\<rparr>)"
      using False nw by (intro spsc_step.p_load_head [where free = "writable ?r"])
        (simp_all add: writable_def Let_def)
    then have s2: "spsc_step ?s1 ?s2" by simp
    have cap: "unat n \<le> capacity (ring ?s2)" using um by (simp add: n(1)) (simp add: m_def)
    obtain d' where d': "spsc_step\<^sup>*\<^sup>* ?s2 (?s2\<lparr>ring := (ring ?s2)\<lparr>r_data := d'\<rparr>, ppc := PCopy buf ?t n (unat n)\<rparr>)"
      "length d' = length (r_data ?r)"
      "\<And>j. j < length (r_data ?r) \<Longrightarrow> d' ! copy_index ?r ?t j
          = (if j < unat n then buf ! j else r_data ?r ! copy_index ?r ?t j)"
      using copy_all [of ?s2, OF _ _ _ cap] wf by auto
    have "d' = d"
    proof (rule nth_equalityI)
      fix k assume "k < length d'"
      then obtain j where j: "j < length (r_data ?r)" "k = copy_index ?r ?t j"
        using index_cover [OF wf] d'(2) by metis
      then show "d' ! k = d ! k" using d(3) [OF j(1)] d'(3) [OF j(1)] by (simp add: n(1) um)
    qed (simp add: d(2) d'(2))
    let ?s3 = "s\<lparr>ring := ?r\<lparr>r_data := d\<rparr>, ppc := PCopy buf ?t n (unat n)\<rparr>"
    have s3: "spsc_step\<^sup>*\<^sup>* ?s2 ?s3" using d'(1) \<open>d' = d\<close> by simp
    have "spsc_step ?s3 (?s3\<lparr>ring := (ring ?s3)\<lparr>r_tail := ?t + n\<rparr>, ppc := PIdle,
        sent := sent ?s3 @ take (unat n) buf\<rparr>)"
      by (rule spsc_step.p_store) simp
    moreover have "\<dots> = s\<lparr>ring := r', sent := sent s @ take (unat n) buf\<rparr>"
      using idle n(2) by simp
    ultimately show ?thesis using s1 s2 s3
      by (metis (no_types, lifting) converse_rtranclp_into_rtranclp rtranclp.rtrancl_into_rtrancl)
  qed
qed

lemma consumer_run:
  assumes inv: "spsc_inv s" and idle: "cpc s = CIdle" and recv: "recv_some (ring s) len = Some (n, b, r')"
  shows "spsc_step\<^sup>*\<^sup>* s (s\<lparr>ring := r', recvd := recvd s @ b\<rparr>)"
proof -
  let ?r = "ring s"
  let ?s1 = "s\<lparr>cpc := CLoadedTail len (r_tail ?r)\<rparr>"
  have wf: "ring_wf ?r" using inv by (rule spsc_invD)
  have s1: "spsc_step s ?s1" using idle by (rule spsc_step.c_load_tail)
  show ?thesis
  proof (cases "contents ?r = []")
    case True
    then have n: "b = []" "r' = ?r" using recv by (simp_all add: recv_some_empty)
    have "readable ?r = 0" using True unat_readable [of ?r] by (simp add: unat_eq_0)
    then have "spsc_step ?s1 (?s1\<lparr>cpc := CIdle\<rparr>)"
      by (intro spsc_step.c_empty [where t = "r_tail ?r"]) (simp_all add: readable_def Let_def)
    moreover have "?s1\<lparr>cpc := CIdle\<rparr> = s" using idle by simp
    ultimately show ?thesis using s1 n by (simp add: r_into_rtranclp converse_rtranclp_into_rtranclp)
  next
    case False
    define m where "m = min (unat len) (length (contents ?r))"
    have um: "unat (of_nat m :: u64) = m"
      using unat_bound [of len] by (simp add: m_def unat_of_nat_small)
    have n: "n = of_nat m" "b = take m (contents ?r)" "r' = ?r\<lparr>r_head := r_head ?r + n\<rparr>"
      using recv recv_some_circ [OF wf False, of len] contents_prefix_read [OF wf, of m]
      by (auto simp: m_def)
    let ?s2 = "s\<lparr>cpc := CCopy (r_head ?r) n 0 []\<rparr>"
    have ne: "readable ?r \<noteq> 0" using False unat_readable [of ?r] by auto
    have nw: "n = (if len < readable ?r then len else readable ?r)"
      using um by (auto simp: n(1) word_unat_eq_iff word_less_nat_alt unat_readable m_def)
    have "spsc_step ?s1 (?s1\<lparr>cpc := CCopy (r_head (ring ?s1)) n 0 []\<rparr>)"
      using ne nw by (intro spsc_step.c_load_head [where avail = "readable ?r"])
        (simp_all add: readable_def Let_def)
    then have s2: "spsc_step ?s1 ?s2" by simp
    let ?s3 = "s\<lparr>cpc := CCopy (r_head ?r) n (unat n) b\<rparr>"
    have "spsc_inv ?s2" using spsc_step_inv [OF s2 spsc_step_inv [OF s1 inv]] .
    from read_all [OF this] have s3: "spsc_step\<^sup>*\<^sup>* ?s2 ?s3" by (simp add: n um)
    have "spsc_step ?s3 (?s3\<lparr>ring := (ring ?s3)\<lparr>r_head := r_head ?r + n\<rparr>, cpc := CIdle,
        recvd := recvd ?s3 @ b\<rparr>)"
      by (rule spsc_step.c_store) simp
    moreover have "\<dots> = s\<lparr>ring := r', recvd := recvd s @ b\<rparr>" using idle n(3) by simp
    ultimately show ?thesis using s1 s2 s3
      by (metis (no_types, lifting) converse_rtranclp_into_rtranclp rtranclp.rtrancl_into_rtrancl)
  qed
qed

lemma spsc_reach_steps: "spsc_step\<^sup>*\<^sup>* s t \<Longrightarrow> spsc_reach d s \<Longrightarrow> spsc_reach d t"
  by (induction rule: rtranclp_induct) (auto intro: spsc_reach.step)

text \<open>
  A concrete execution: one byte is published and delivered, the producer closes, and the consumer
  sees the flag, finds the ring empty and reports the end of the stream.
\<close>

definition page :: "u8 list" where
  "page = replicate 4096 0"

lemma page_ok: "length page < 2 ^ 64"
  "ring_static_ok \<lparr>r_tail = 0, r_closed = 0, r_head = 0, r_data = page\<rparr>"
  by (simp_all add: page_def ring_static_ok_def kCapacity_def)

lemma example_delivered:
  "\<exists>s. spsc_reach page s \<and> ppc s = PIdle \<and> cpc s = CIdle \<and> sent s = [42] \<and> recvd s = [42]"
proof -
  let ?s0 = "spsc_init page"
  have r0: "spsc_reach page ?s0" by (rule spsc_reach.start)
  then have i0: "spsc_inv ?s0" using page_ok by (rule spsc_reach_inv)
  have c0: "contents (ring ?s0) = []" "capacity (ring ?s0) = 4096"
    by (simp_all add: spsc_init_def ring_init_def contents_def capacity_def page_def)
  have l: "length [42 :: u8] < 2 ^ 64" by simp
  obtain n r1 where s: "send_some (ring ?s0) [42] = Some (n, r1)" "ring_wf r1" "unat n = 1"
    "contents r1 = [42]"
    by (rule send_some_spec [OF spsc_invD(1) [OF i0] l]) (simp add: c0)
  let ?s1 = "?s0\<lparr>ring := r1, sent := sent ?s0 @ take (unat n) [42]\<rparr>"
  have r1: "spsc_reach page ?s1"
    using producer_run [OF i0 _ l s(1)] r0 by (auto intro: spsc_reach_steps simp: spsc_init_def)
  then have i1: "spsc_inv ?s1" using page_ok by (rule spsc_reach_inv)
  obtain m r2 where t: "recv_some (ring ?s1) 8 = Some (m, take (unat m) (contents (ring ?s1)), r2)"
    "unat m = 1"
    by (rule recv_some_spec [OF spsc_invD(1) [OF i1], of 8]) (simp add: s(4))
  have "spsc_reach page (?s1\<lparr>ring := r2, recvd := recvd ?s1 @ take (unat m) (contents (ring ?s1))\<rparr>)"
    using consumer_run [OF i1 _ t(1)] r1 by (auto intro: spsc_reach_steps simp: spsc_init_def)
  then show ?thesis using s t by (intro exI, intro conjI) (assumption, simp_all add: spsc_init_def)
qed

lemma example_eof:
  "\<exists>s. spsc_reach page s \<and> cpc s = CEof \<and> sent s = [42]"
proof -
  obtain s where s: "spsc_reach page s" "ppc s = PIdle" "cpc s = CIdle" "sent s = [42]" "recvd s = [42]"
    using example_delivered by blast
  let ?s1 = "s\<lparr>ring := mark_closed (ring s), ppc := PDone\<rparr>"
  let ?s2 = "?s1\<lparr>cpc := CSawClosed\<rparr>"
  have "spsc_reach page ?s1" using s(1,2) by (blast intro: spsc_reach.step spsc_step.p_close)
  then have r2: "spsc_reach page ?s2"
    by (rule spsc_reach.step) (rule spsc_step.c_see_closed, simp_all add: s mark_closed_frame)
  then have i2: "spsc_inv ?s2" using page_ok by (rule spsc_reach_inv)
  then have "contents (ring ?s2) = []" using spsc_invD(4) [OF i2] s by simp
  then have "readable (ring ?s2) = 0" using unat_readable [of "ring ?s2"] by (simp add: unat_eq_0)
  then have "spsc_reach page (?s2\<lparr>cpc := CEof\<rparr>)"
    by (intro spsc_reach.step [OF r2] spsc_step.c_eof) simp_all
  then show ?thesis using s(4) by (intro exI, intro conjI) (assumption, simp_all)
qed


section \<open>Properties\<close>

text \<open>
  C1. However the producer's and the consumer's loads, byte copies and stores interleave, the bytes
  delivered so far followed by the bytes in the ring are exactly the bytes published so far: the
  concurrent ring delivers the producer's stream in order, without loss, duplication or torn data.
\<close>

theorem spsc_fifo:
  assumes "spsc_reach d s" and "length d < 2 ^ 64"
    and "ring_static_ok \<lparr>r_tail = 0, r_closed = 0, r_head = 0, r_data = d\<rparr>"
  shows "sent s = recvd s @ contents (ring s) \<and> length (contents (ring s)) \<le> length d"
proof -
  have inv: "spsc_inv s" using assms by (rule spsc_reach_inv)
  have "length (r_data (ring s)) = length d"
    using assms(1)
  proof (induction rule: spsc_reach.induct)
    case start
    then show ?case by (simp add: spsc_init_def ring_init_def)
  next
    case (step s t)
    from step(2) step.IH show ?case by cases (simp_all add: mark_closed_def)
  qed
  then show ?thesis
    using spsc_invD(4) [OF inv] contents_bounded [OF spsc_invD(1) [OF inv]] by (simp add: capacity_def)
qed

theorem spsc_fifo_witness:
  "\<exists>s. spsc_reach page s \<and> recvd s = [42] \<and> sent s = recvd s @ contents (ring s)"
  using spsc_fifo [OF _ page_ok] example_delivered by blast

text \<open>
  C14. The consumer's end-of-stream test reads the closed flag before it reads the indices. When it
  reports the end of the stream, the producer has closed and every byte it ever published has been
  delivered.
\<close>

theorem spsc_eof_complete:
  assumes "spsc_reach d s" and "length d < 2 ^ 64"
    and "ring_static_ok \<lparr>r_tail = 0, r_closed = 0, r_head = 0, r_data = d\<rparr>"
    and "cpc s = CEof"
  shows "recvd s = sent s \<and> ppc s = PDone"
  using spsc_invD(3,4) [OF spsc_reach_inv [OF assms(1-3)]] assms(4) by simp

theorem spsc_eof_complete_witness:
  "\<exists>s. spsc_reach page s \<and> cpc s = CEof \<and> recvd s = [42]"
  using spsc_eof_complete [OF _ page_ok] example_eof by metis

text \<open>
  C15. The sequential operations are runs of the concurrent machine: from a reachable state whose
  producer is idle, the uninterrupted steps of one send reach the state in which the ring is what
  \<open>send_some\<close> computes and the accepted bytes are published, and likewise for \<open>recv_some\<close>
  and an idle consumer.
\<close>

theorem ring_operations_are_runs:
  assumes "spsc_reach d s" and "length d < 2 ^ 64"
    and "ring_static_ok \<lparr>r_tail = 0, r_closed = 0, r_head = 0, r_data = d\<rparr>"
  shows "(ppc s = PIdle \<longrightarrow> length buf < 2 ^ 64 \<longrightarrow> send_some (ring s) buf = Some (n, r') \<longrightarrow>
           spsc_reach d (s\<lparr>ring := r', sent := sent s @ take (unat n) buf\<rparr>))
     \<and> (cpc s = CIdle \<longrightarrow> recv_some (ring s) len = Some (m, b, r'') \<longrightarrow>
           spsc_reach d (s\<lparr>ring := r'', recvd := recvd s @ b\<rparr>))"
  using producer_run [OF spsc_reach_inv [OF assms]] consumer_run [OF spsc_reach_inv [OF assms]]
    spsc_reach_steps [OF _ assms(1)] by blast

theorem ring_operations_are_runs_witness:
  "\<exists>n r' s. s = spsc_init page \<and> ppc s = PIdle \<and> cpc s = CIdle
     \<and> send_some (ring s) [1, 2] = Some (n, r') \<and> recv_some (ring s) 9 = Some (0, [], ring s)
     \<and> spsc_reach page (s\<lparr>ring := r', sent := sent s @ take (unat n) [1, 2]\<rparr>)
     \<and> spsc_reach page (s\<lparr>ring := ring s, recvd := recvd s @ []\<rparr>)"
proof -
  let ?s = "spsc_init page"
  have r: "spsc_reach page ?s" by (rule spsc_reach.start)
  have wf: "ring_wf (ring ?s)" using spsc_reach_inv [OF r page_ok] by (rule spsc_invD)
  have l: "length [1, 2 :: u8] < 2 ^ 64" by simp
  obtain n r' where s: "send_some (ring ?s) [1, 2] = Some (n, r')"
    by (rule send_some_spec [OF wf l])
  have e: "recv_some (ring ?s) 9 = Some (0, [], ring ?s)"
    by (simp add: recv_some_empty spsc_init_def ring_init_def contents_def)
  have i: "ppc ?s = PIdle" "cpc ?s = CIdle" by (simp_all add: spsc_init_def)
  show ?thesis
    using ring_operations_are_runs [OF r page_ok, of "[1, 2]" n r' 9 0 "[]" "ring ?s"] s e i l by blast
qed

end
