(* ===== verification/Fd_Remap.thy ===== *)
theory Fd_Remap
  imports SD_Prelude
begin

text \<open>
  The virtual file descriptor table of \<^verbatim>\<open>include/socksdirect/fd_remap.hpp\<close>: a forward vector
  from virtual fds to bindings, a reverse vector and a reference count vector per fd type, a stack
  of freed virtual fds and a watermark. Every operation runs under the table's mutex, so operations
  are atomic and are modelled as functions. \<open>None\<close> is an out-of-range vector access or a growth
  loop that does not end; \<open>table_inv\<close> excludes both.
\<close>

section \<open>The table and its operations\<close>

datatype FdType = kUnknown | kSystem | kSocket | kEpoll | kEventfd | kFile

record FdMapping =
  m_type :: FdType
  m_real_fd :: int

record FdRemapTable =
  forward :: "FdMapping list"
  reverse :: "FdType \<Rightarrow> int list"
  refcounts :: "FdType \<Rightarrow> int list"
  free_list :: "int list"
  watermark :: nat

abbreviation unbound :: FdMapping where
  "unbound \<equiv> \<lparr>m_type = kUnknown, m_real_fd = -1\<rparr>"

definition kInitialCapacity :: nat where
  "kInitialCapacity = 256"

definition new_table :: FdRemapTable where
  "new_table = \<lparr>forward = replicate kInitialCapacity unbound,
     reverse = (\<lambda>_. replicate kInitialCapacity (-1)),
     refcounts = (\<lambda>_. replicate kInitialCapacity 0), free_list = [], watermark = 0\<rparr>"

definition ensure_capacity_locked :: "FdRemapTable \<Rightarrow> int \<Rightarrow> FdRemapTable option" where
  "ensure_capacity_locked T virtual_fd =
     (let needed = nat virtual_fd + 1
      in if needed \<le> length (forward T) then Some T
         else do {
           new_size \<leftarrow> double_until (length (forward T)) needed;
           Some (T\<lparr>forward := forward T @ replicate (new_size - length (forward T)) unbound\<rparr>)
         })"

definition ensure_reverse_capacity_locked :: "FdRemapTable \<Rightarrow> FdType \<Rightarrow> int \<Rightarrow> FdRemapTable option" where
  "ensure_reverse_capacity_locked T ty real_fd =
     (let r = reverse T ty; c = refcounts T ty; needed = nat real_fd + 1
      in if needed \<le> length r then Some T
         else do {
           new_size \<leftarrow> double_until (length r) needed;
           Some (T\<lparr>reverse := (reverse T)(ty := r @ replicate (new_size - length r) (-1)),
                   refcounts := (refcounts T)(ty := take new_size c @ replicate (new_size - length c) 0)\<rparr>)
         })"

definition alloc_locked :: "FdRemapTable \<Rightarrow> (int \<times> FdRemapTable) option" where
  "alloc_locked T =
     (let (vfd, T1) =
        (if free_list T \<noteq> [] then (last (free_list T), T\<lparr>free_list := butlast (free_list T)\<rparr>)
         else (int (watermark T), T\<lparr>watermark := watermark T + 1\<rparr>))
      in do { T2 \<leftarrow> ensure_capacity_locked T1 vfd; Some (vfd, T2) })"

text \<open>The linear scan of \<^verbatim>\<open>decref_locked\<close>: the first vfd bound to the same resource, or -1.\<close>

fun scan_forward :: "FdMapping list \<Rightarrow> int \<Rightarrow> FdType \<Rightarrow> int \<Rightarrow> int" where
  "scan_forward [] i ty real_fd = -1"
| "scan_forward (m # ms) i ty real_fd =
     (if m_type m = ty \<and> m_real_fd m = real_fd then i else scan_forward ms (i + 1) ty real_fd)"

definition decref_locked :: "FdRemapTable \<Rightarrow> FdType \<Rightarrow> int \<Rightarrow> int \<Rightarrow> (int \<times> FdRemapTable) option" where
  "decref_locked T ty real_fd vfd_being_dropped =
     (if ty = kUnknown \<or> real_fd < 0 then Some (0, T)
      else if nat real_fd \<ge> length (refcounts T ty) then Some (0, T)
      else do {
        rc0 \<leftarrow> vget (refcounts T ty) real_fd;
        if rc0 \<le> 0 then Some (0, T)
        else do {
          let rc = rc0 - 1;
          cs \<leftarrow> vset (refcounts T ty) real_fd rc;
          let T1 = T\<lparr>refcounts := (refcounts T)(ty := cs)\<rparr>;
          rv \<leftarrow> vget (reverse T1 ty) real_fd;
          if rc = 0 then
            (if rv = vfd_being_dropped then do {
               rs \<leftarrow> vset (reverse T1 ty) real_fd (-1);
               Some (rc, T1\<lparr>reverse := (reverse T1)(ty := rs)\<rparr>)
             } else Some (rc, T1))
          else if rv = vfd_being_dropped then do {
            rs \<leftarrow> vset (reverse T1 ty) real_fd (scan_forward (forward T1) 0 ty real_fd);
            Some (rc, T1\<lparr>reverse := (reverse T1)(ty := rs)\<rparr>)
          } else Some (rc, T1)
        }
      })"

text \<open>
  Binding a virtual fd: the forward entry is written and, for a known type, the reverse entry is
  filled if empty and the reference count goes up. \<open>bind_locked\<close> is the common tail of
  \<^verbatim>\<open>alloc\<close>, \<^verbatim>\<open>set\<close> and \<^verbatim>\<open>dup_to\<close>.
\<close>

definition bind_locked :: "FdRemapTable \<Rightarrow> int \<Rightarrow> FdType \<Rightarrow> int \<Rightarrow> FdRemapTable option" where
  "bind_locked T vfd ty real_fd = do {
     fs \<leftarrow> vset (forward T) vfd \<lparr>m_type = ty, m_real_fd = real_fd\<rparr>;
     let T1 = T\<lparr>forward := fs\<rparr>;
     if ty = kUnknown then Some T1
     else do {
       T2 \<leftarrow> ensure_reverse_capacity_locked T1 ty real_fd;
       rv \<leftarrow> vget (reverse T2 ty) real_fd;
       T3 \<leftarrow> (if rv < 0 then do {
                rs \<leftarrow> vset (reverse T2 ty) real_fd vfd;
                Some (T2\<lparr>reverse := (reverse T2)(ty := rs)\<rparr>)
              } else Some T2);
       rc \<leftarrow> vget (refcounts T3 ty) real_fd;
       cs \<leftarrow> vset (refcounts T3 ty) real_fd (rc + 1);
       Some (T3\<lparr>refcounts := (refcounts T3)(ty := cs)\<rparr>)
     }
   }"

definition fd_alloc :: "FdRemapTable \<Rightarrow> FdType \<Rightarrow> int \<Rightarrow> (int \<times> FdRemapTable) option" where
  "fd_alloc T ty real_fd =
     (if real_fd < 0 then Some (real_fd, T)
      else do {
        (vfd, T1) \<leftarrow> alloc_locked T;
        T2 \<leftarrow> bind_locked T1 vfd ty real_fd;
        Some (vfd, T2)
      })"

definition raise_watermark :: "FdRemapTable \<Rightarrow> int \<Rightarrow> FdRemapTable" where
  "raise_watermark T vfd = (if nat vfd \<ge> watermark T then T\<lparr>watermark := nat vfd + 1\<rparr> else T)"

definition fd_set :: "FdRemapTable \<Rightarrow> int \<Rightarrow> FdType \<Rightarrow> int \<Rightarrow> FdRemapTable option" where
  "fd_set T virtual_fd ty real_fd =
     (if virtual_fd < 0 \<or> real_fd < 0 then Some T
      else do {
        T1 \<leftarrow> ensure_capacity_locked T virtual_fd;
        prev \<leftarrow> vget (forward T1) virtual_fd;
        (_, T2) \<leftarrow> (if m_type prev \<noteq> kUnknown \<and> m_real_fd prev \<ge> 0
                   then decref_locked T1 (m_type prev) (m_real_fd prev) virtual_fd
                   else Some (0, T1));
        T3 \<leftarrow> bind_locked T2 virtual_fd ty real_fd;
        Some (raise_watermark T3 virtual_fd)
      })"

definition fd_lookup :: "FdRemapTable \<Rightarrow> int \<Rightarrow> FdMapping option" where
  "fd_lookup T virtual_fd =
     (if virtual_fd < 0 then Some unbound
      else if nat virtual_fd \<ge> length (forward T) then Some unbound
      else vget (forward T) virtual_fd)"

definition reverse_lookup :: "FdRemapTable \<Rightarrow> FdType \<Rightarrow> int \<Rightarrow> int option" where
  "reverse_lookup T ty real_fd =
     (if real_fd < 0 then Some (-1)
      else if nat real_fd \<ge> length (reverse T ty) then Some (-1)
      else vget (reverse T ty) real_fd)"

definition refcount :: "FdRemapTable \<Rightarrow> int \<Rightarrow> int option" where
  "refcount T virtual_fd =
     (if virtual_fd < 0 then Some 0
      else if nat virtual_fd \<ge> length (forward T) then Some 0
      else do {
        m \<leftarrow> vget (forward T) virtual_fd;
        if m_type m = kUnknown \<or> m_real_fd m < 0 then Some 0
        else if nat (m_real_fd m) \<ge> length (refcounts T (m_type m)) then Some 0
        else vget (refcounts T (m_type m)) (m_real_fd m)
      })"

definition bound_vfd :: "FdRemapTable \<Rightarrow> int \<Rightarrow> bool" where
  "bound_vfd T v \<longleftrightarrow> 0 \<le> v \<and> nat v < length (forward T)
     \<and> m_type (forward T ! nat v) \<noteq> kUnknown \<and> 0 \<le> m_real_fd (forward T ! nat v)"

definition fd_dup :: "FdRemapTable \<Rightarrow> int \<Rightarrow> ((errno + int) \<times> FdRemapTable) option" where
  "fd_dup T virtual_fd =
     (if \<not> bound_vfd T virtual_fd then Some (Inl EBADF, T)
      else do {
        src \<leftarrow> vget (forward T) virtual_fd;
        (new_vfd, T1) \<leftarrow> alloc_locked T;
        fs \<leftarrow> vset (forward T1) new_vfd src;
        T2 \<leftarrow> ensure_reverse_capacity_locked (T1\<lparr>forward := fs\<rparr>) (m_type src) (m_real_fd src);
        rc \<leftarrow> vget (refcounts T2 (m_type src)) (m_real_fd src);
        cs \<leftarrow> vset (refcounts T2 (m_type src)) (m_real_fd src) (rc + 1);
        Some (Inr new_vfd, T2\<lparr>refcounts := (refcounts T2)(m_type src := cs)\<rparr>)
      })"

text \<open>
  \<^verbatim>\<open>dup_to\<close> returns the previous binding of the target and, through the out parameter, the
  count it was left with; \<open>Inl\<close> is the error with \<^verbatim>\<open>errno\<close> set.
\<close>

definition fd_dup_to :: "FdRemapTable \<Rightarrow> int \<Rightarrow> int
    \<Rightarrow> ((errno + FdMapping \<times> int) \<times> FdRemapTable) option" where
  "fd_dup_to T src_vfd dst_vfd =
     (if src_vfd < 0 \<or> dst_vfd < 0 then Some (Inl EBADF, T)
      else if \<not> bound_vfd T src_vfd then Some (Inl EBADF, T)
      else do {
        src \<leftarrow> vget (forward T) src_vfd;
        if src_vfd = dst_vfd then do {
          rc \<leftarrow> vget (refcounts T (m_type src)) (m_real_fd src);
          Some (Inr (unbound, rc), T)
        } else do {
          T1 \<leftarrow> ensure_capacity_locked T dst_vfd;
          prev \<leftarrow> vget (forward T1) dst_vfd;
          (prev_refs, T2) \<leftarrow> (if m_type prev \<noteq> kUnknown \<and> m_real_fd prev \<ge> 0
                            then decref_locked T1 (m_type prev) (m_real_fd prev) dst_vfd
                            else Some (-1, T1));
          T3 \<leftarrow> bind_locked T2 dst_vfd (m_type src) (m_real_fd src);
          Some (Inr (prev, prev_refs), raise_watermark T3 dst_vfd)
        }
      })"

definition fd_free :: "FdRemapTable \<Rightarrow> int \<Rightarrow> (int \<times> FdRemapTable) option" where
  "fd_free T virtual_fd =
     (if virtual_fd < 0 then Some (0, T)
      else if nat virtual_fd \<ge> length (forward T) then Some (0, T)
      else do {
        cur \<leftarrow> vget (forward T) virtual_fd;
        if m_type cur = kUnknown \<and> m_real_fd cur = -1 then Some (0, T)
        else do {
          fs \<leftarrow> vset (forward T) virtual_fd unbound;
          let T1 = T\<lparr>forward := fs, free_list := free_list T @ [virtual_fd]\<rparr>;
          if m_type cur = kUnknown \<or> m_real_fd cur < 0 then Some (0, T1)
          else decref_locked T1 (m_type cur) (m_real_fd cur) virtual_fd
        }
      })"

definition live_count :: "FdRemapTable \<Rightarrow> nat" where
  "live_count T = watermark T - length (free_list T)"


section \<open>The invariant\<close>

text \<open>
  \<open>refs_at\<close>: the reference count of a resource is the number of virtual fds bound to it, and its
  reverse entry is a virtual fd bound to it, or -1 when there is none. \<open>slots_inv\<close>: freed virtual
  fds and those above the watermark are unbound, and no virtual fd is freed twice.
\<close>

definition refs_at :: "FdMapping list \<Rightarrow> int list \<Rightarrow> int list \<Rightarrow> FdType \<Rightarrow> nat \<Rightarrow> bool" where
  "refs_at F R C ty r =
     (let n = count_list F \<lparr>m_type = ty, m_real_fd = int r\<rparr>
      in if r < length R
         then C ! r = int n \<and>
              (if n = 0 then R ! r = -1
               else 0 \<le> R ! r \<and> nat (R ! r) < length F
                    \<and> F ! nat (R ! r) = \<lparr>m_type = ty, m_real_fd = int r\<rparr>)
         else n = 0)"

definition refs_inv :: "FdRemapTable \<Rightarrow> bool" where
  "refs_inv T \<longleftrightarrow> (\<forall>ty. ty \<noteq> kUnknown \<longrightarrow> reverse T ty \<noteq> []
     \<and> length (refcounts T ty) = length (reverse T ty)
     \<and> (\<forall>r. refs_at (forward T) (reverse T ty) (refcounts T ty) ty r))"

definition slots_inv :: "FdRemapTable \<Rightarrow> bool" where
  "slots_inv T \<longleftrightarrow> forward T \<noteq> [] \<and> watermark T \<le> length (forward T) \<and> distinct (free_list T)
     \<and> (\<forall>v \<in> set (free_list T). 0 \<le> v \<and> nat v < watermark T \<and> forward T ! nat v = unbound)
     \<and> (\<forall>i. watermark T \<le> i \<longrightarrow> i < length (forward T) \<longrightarrow> forward T ! i = unbound)
     \<and> (\<forall>i < length (forward T). forward T ! i \<noteq> unbound \<longrightarrow> 0 \<le> m_real_fd (forward T ! i))"

definition table_inv :: "FdRemapTable \<Rightarrow> bool" where
  "table_inv T \<longleftrightarrow> refs_inv T \<and> slots_inv T"

lemma count_list_append_replicate:
  "x \<noteq> y \<Longrightarrow> count_list (xs @ replicate n x) y = count_list xs y"
  by (simp add: count_list_replicate)

lemma refs_at_grow_forward:
  assumes "refs_at F R C ty r" "ty \<noteq> kUnknown"
  shows "refs_at (F @ replicate k unbound) R C ty r"
  using assms by (auto simp: refs_at_def Let_def count_list_replicate nth_append)

lemma refs_at_grow_reverse:
  assumes "refs_at F R C ty r" "length C = length R"
  shows "refs_at F (R @ replicate k (-1)) (C @ replicate k 0) ty r"
  using assms by (auto simp: refs_at_def Let_def nth_append)

lemma ensure_capacity_spec:
  assumes "forward T \<noteq> []" "0 \<le> v"
  obtains k where "ensure_capacity_locked T v = Some (T\<lparr>forward := forward T @ replicate k unbound\<rparr>)"
    "nat v < length (forward T) + k"
proof (cases "nat v + 1 \<le> length (forward T)")
  case True
  then show ?thesis using that [of 0] by (simp add: ensure_capacity_locked_def)
next
  case False
  have "0 < length (forward T)" using assms(1) by simp
  from double_until_ok [OF this, of "nat v + 1"] obtain m where
    m: "double_until (length (forward T)) (nat v + 1) = Some m" "nat v + 1 \<le> m" by blast
  show ?thesis
    using that [of "m - length (forward T)"] m False by (simp add: ensure_capacity_locked_def)
qed

lemma ensure_reverse_spec:
  assumes "reverse T ty \<noteq> []" "length (refcounts T ty) = length (reverse T ty)" "0 \<le> r"
  obtains k where "ensure_reverse_capacity_locked T ty r
      = Some (T\<lparr>reverse := (reverse T)(ty := reverse T ty @ replicate k (-1)),
                refcounts := (refcounts T)(ty := refcounts T ty @ replicate k 0)\<rparr>)"
    "nat r < length (reverse T ty) + k"
proof (cases "nat r + 1 \<le> length (reverse T ty)")
  case True
  then show ?thesis using that [of 0] by (simp add: ensure_reverse_capacity_locked_def)
next
  case False
  have "0 < length (reverse T ty)" using assms(1) by simp
  from double_until_ok [OF this, of "nat r + 1"] obtain m where
    m: "double_until (length (reverse T ty)) (nat r + 1) = Some m" "nat r + 1 \<le> m" by blast
  show ?thesis
    using that [of "m - length (reverse T ty)"] m False assms(2)
    by (simp add: ensure_reverse_capacity_locked_def Let_def)
qed

lemma refs_inv_grow_forward:
  "refs_inv T \<Longrightarrow> refs_inv (T\<lparr>forward := forward T @ replicate k unbound\<rparr>)"
  by (simp add: refs_inv_def refs_at_grow_forward)

lemma slots_inv_grow_forward:
  "slots_inv T \<Longrightarrow> slots_inv (T\<lparr>forward := forward T @ replicate k unbound\<rparr>)"
  by (auto simp: slots_inv_def nth_append)

lemma fd_lookup_cong: "forward T = forward T' \<Longrightarrow> fd_lookup T = fd_lookup T'"
  by (rule ext) (simp add: fd_lookup_def)

lemma fd_lookup_grow_forward:
  "fd_lookup (T\<lparr>forward := forward T @ replicate k unbound\<rparr>) = fd_lookup T"
  by (rule ext) (auto simp: fd_lookup_def vget_def nth_append)

lemma alloc_locked_spec:
  assumes "table_inv T"
  obtains v T1 where "alloc_locked T = Some (v, T1)" "table_inv T1" "0 \<le> v"
    "nat v < watermark T1" "v \<notin> set (free_list T1)" "fd_lookup T v = Some unbound"
    "fd_lookup T1 = fd_lookup T" "nat v < length (forward T1)" "forward T1 ! nat v = unbound"
    "reverse T1 = reverse T" "refcounts T1 = refcounts T"
    "set (free_list T1) = set (free_list T) - {v}" "int (watermark T1) = max (int (watermark T)) (v + 1)"
    "v \<in> set (free_list T) \<or> v = int (watermark T)"
proof -
  have r: "refs_inv T" and s: "slots_inv T" using assms by (simp_all add: table_inv_def)
  define v T0 where "v = (if free_list T \<noteq> [] then last (free_list T) else int (watermark T))"
    and "T0 = (if free_list T \<noteq> [] then T\<lparr>free_list := butlast (free_list T)\<rparr>
               else T\<lparr>watermark := watermark T + 1\<rparr>)"
  have f: "forward T0 = forward T" by (simp add: T0_def)
  have v: "0 \<le> v" "nat v < watermark T0"
    using s last_in_set by (auto simp: v_def T0_def slots_inv_def)
  obtain k where k: "ensure_capacity_locked T0 v
      = Some (T0\<lparr>forward := forward T @ replicate k unbound\<rparr>)" "nat v < length (forward T) + k"
    using ensure_capacity_spec [of T0 v] s v f by (auto simp: slots_inv_def)
  define T1 where "T1 = T0\<lparr>forward := forward T @ replicate k unbound\<rparr>"
  have fl: "distinct (free_list T0)" "set (free_list T0) = set (free_list T) - {v}"
  proof -
    have d: "distinct (free_list T)" using s by (simp add: slots_inv_def)
    show "distinct (free_list T0)" using d by (simp add: T0_def distinct_butlast)
    show "set (free_list T0) = set (free_list T) - {v}"
    proof (cases "free_list T = []")
      case False
      then have "free_list T = butlast (free_list T) @ [v]" by (simp add: v_def)
      then obtain ys where "free_list T = ys @ [v]" by blast
      with d show ?thesis by (auto simp: T0_def)
    qed (simp add: T0_def)
  qed
  have unb: "forward T1 ! i = unbound" if "watermark T \<le> i" "i < length (forward T1)" for i
    using s that by (auto simp: T1_def slots_inv_def nth_append)
  have fr: "forward T1 ! nat u = unbound" if "u \<in> set (free_list T)" for u
    using s that by (auto simp: T1_def slots_inv_def nth_append)
  have vu: "v \<in> set (free_list T) \<or> v = int (watermark T)" by (auto simp: v_def)
  have "nat v < watermark T" if "free_list T \<noteq> []"
    using s last_in_set [OF that] that unfolding slots_inv_def v_def by simp
  then have "v + 1 \<le> int (watermark T)" if "free_list T \<noteq> []"
    using that v(1) by fastforce
  then have wm: "int (watermark T0) = max (int (watermark T)) (v + 1)"
    by (simp add: T0_def v_def)
  have n: "nat v < length (forward T1)" using k by (simp add: T1_def)
  have v1: "forward T1 ! nat v = unbound" using vu fr unb n by auto
  have "slots_inv T1"
    unfolding slots_inv_def
  proof (intro conjI allI impI ballI)
    show "watermark T1 \<le> length (forward T1)"
      using s wm n by (auto simp: T1_def slots_inv_def)
    show "forward T1 ! i = unbound" if "watermark T1 \<le> i" "i < length (forward T1)" for i
      using that unb wm by (auto simp: T1_def)
    show "0 \<le> m_real_fd (forward T1 ! i)"
      if "i < length (forward T1)" "forward T1 ! i \<noteq> unbound" for i
      using s that by (auto simp: T1_def slots_inv_def nth_append split: if_splits)
    show "0 \<le> u" "nat u < watermark T1" "forward T1 ! nat u = unbound"
      if "u \<in> set (free_list T1)" for u
      using s that fl(2) fr wm by (auto simp: T1_def slots_inv_def)
  qed (use s fl in \<open>auto simp: T1_def slots_inv_def\<close>)
  moreover have "refs_inv T1"
    using refs_inv_grow_forward [OF r, of k] by (simp add: T1_def T0_def refs_inv_def)
  moreover have "fd_lookup T1 = fd_lookup T"
    using fd_lookup_grow_forward [of T k] 
      fd_lookup_cong [of T1 "T\<lparr>forward := forward T @ replicate k unbound\<rparr>"] by (simp add: T1_def)
  moreover from this have "fd_lookup T v = Some unbound"
    using v1 n v by (metis fd_lookup_def linorder_not_le vget_ok)
  moreover have "alloc_locked T = Some (v, T1)"
    using k(1) by (simp add: alloc_locked_def v_def T0_def T1_def split: if_splits)
  ultimately show ?thesis
    using that [of v T1] v n v1 vu wm fl by (auto simp: T1_def T0_def table_inv_def)
qed


section \<open>Binding and dropping a virtual fd\<close>

lemma refs_at_update_other:
  assumes "refs_at F R C ty r" "i < length F"
    "F ! i \<noteq> \<lparr>m_type = ty, m_real_fd = int r\<rparr>" "m \<noteq> \<lparr>m_type = ty, m_real_fd = int r\<rparr>"
  shows "refs_at (F[i := m]) R C ty r"
  using assms by (auto simp: refs_at_def Let_def count_list_update nth_list_update split: if_splits)

lemma refs_at_other_index:
  "r \<noteq> r' \<Longrightarrow> refs_at F (R[r' := x]) (C[r' := y]) ty r = refs_at F R C ty r"
  by (simp add: refs_at_def)

lemma refs_at_bind:
  assumes "refs_at F R C ty r" "i < length F" "r < length R" "length C = length R"
    "F ! i \<noteq> \<lparr>m_type = ty, m_real_fd = int r\<rparr>"
  shows "refs_at (F[i := \<lparr>m_type = ty, m_real_fd = int r\<rparr>])
           (R[r := if R ! r < 0 then int i else R ! r]) (C[r := C ! r + 1]) ty r"
  using assms
  by (auto simp: refs_at_def Let_def count_list_update nth_list_update split: if_splits)

lemma bind_locked_spec:
  assumes inv: "refs_inv T" and v: "0 \<le> v" "nat v < length (forward T)" and rfd: "0 \<le> rfd"
    and free: "forward T ! nat v = unbound"
  obtains T2 where "bind_locked T v ty rfd = Some T2" "refs_inv T2"
    "forward T2 = (forward T)[nat v := \<lparr>m_type = ty, m_real_fd = rfd\<rparr>]"
    "free_list T2 = free_list T" "watermark T2 = watermark T"
proof (cases "ty = kUnknown")
  case True
  have "refs_inv (T\<lparr>forward := (forward T)[nat v := \<lparr>m_type = ty, m_real_fd = rfd\<rparr>]\<rparr>)"
    using inv v free True by (auto simp: refs_inv_def intro!: refs_at_update_other)
  with True v show ?thesis
    by (intro that [of "T\<lparr>forward := (forward T)[nat v := \<lparr>m_type = ty, m_real_fd = rfd\<rparr>]\<rparr>"])
      (auto simp: bind_locked_def table_simps)
next
  case False
  let ?m = "\<lparr>m_type = ty, m_real_fd = rfd\<rparr>" and ?r = "nat rfd"
  let ?F = "(forward T)[nat v := ?m]"
  have inv_ty: "reverse T ty \<noteq> []" "length (refcounts T ty) = length (reverse T ty)"
    using inv False by (auto simp: refs_inv_def)
  obtain k where k: "ensure_reverse_capacity_locked (T\<lparr>forward := ?F\<rparr>) ty rfd
      = Some (T\<lparr>forward := ?F, reverse := (reverse T)(ty := reverse T ty @ replicate k (-1)),
                refcounts := (refcounts T)(ty := refcounts T ty @ replicate k 0)\<rparr>)"
      "?r < length (reverse T ty) + k"
    using ensure_reverse_spec [of "T\<lparr>forward := ?F\<rparr>" ty rfd] inv_ty rfd by auto
  define R C where "R = reverse T ty @ replicate k (-1)" and "C = refcounts T ty @ replicate k 0"
  have RC: "?r < length R" "length C = length R" using k inv_ty by (simp_all add: R_def C_def)
  define R' C' where "R' = R[?r := if R ! ?r < 0 then v else R ! ?r]" and "C' = C[?r := C ! ?r + 1]"
  have old: "refs_at (forward T) R C ty r" for r
    using inv False inv_ty by (auto simp: refs_inv_def R_def C_def intro!: refs_at_grow_reverse)
  have here: "refs_at ?F R' C' ty r" for r
  proof (cases "r = ?r")
    case True
    then show ?thesis
      using refs_at_bind [OF old [of ?r] v(2) RC] rfd v free False by (simp add: R'_def C'_def split: if_splits)
  next
    case other: False
    then have "refs_at ?F R C ty r"
      using refs_at_update_other [OF old [of r] v(2)] free False rfd by auto
    then show ?thesis using refs_at_other_index [OF other] by (simp add: R'_def C'_def)
  qed
  define T2 where "T2 = T\<lparr>forward := ?F, reverse := (reverse T)(ty := R'),
    refcounts := (refcounts T)(ty := C')\<rparr>"
  have "R[?r := R ! ?r] = R" by (rule list_update_id)
  then have "bind_locked T v ty rfd = Some T2"
    using v False k(1) RC rfd
    by (auto simp: bind_locked_def table_simps T2_def R'_def C'_def R_def [symmetric] C_def [symmetric])
  moreover have "refs_inv T2"
    unfolding refs_inv_def
  proof (intro allI impI)
    fix ty' assume ty': "ty' \<noteq> kUnknown"
    show "reverse T2 ty' \<noteq> [] \<and> length (refcounts T2 ty') = length (reverse T2 ty')
        \<and> (\<forall>r. refs_at (forward T2) (reverse T2 ty') (refcounts T2 ty') ty' r)"
    proof (cases "ty' = ty")
      case True
      then show ?thesis using here RC by (auto simp: T2_def R'_def C'_def)
    next
      case False
      then show ?thesis using inv ty' v free
        by (auto simp: T2_def refs_inv_def intro!: refs_at_update_other)
    qed
  qed
  ultimately show ?thesis by (intro that [of T2]) (simp_all add: T2_def)
qed


lemma scan_forward_found:
  "\<lparr>m_type = ty, m_real_fd = r\<rparr> \<in> set F \<Longrightarrow>
     \<exists>k < length F. scan_forward F i ty r = i + int k \<and> F ! k = \<lparr>m_type = ty, m_real_fd = r\<rparr>"
proof (induction F arbitrary: i)
  case (Cons m F)
  show ?case
  proof (cases "m_type m = ty \<and> m_real_fd m = r")
    case True
    then have "m = \<lparr>m_type = ty, m_real_fd = r\<rparr>" by simp
    with True show ?thesis by (intro exI [of _ 0]) simp
  next
    case False
    with Cons.prems have "\<lparr>m_type = ty, m_real_fd = r\<rparr> \<in> set F" by auto
    from Cons.IH [OF this, of "i + 1"] obtain k where "k < length F"
      "scan_forward F (i + 1) ty r = i + 1 + int k" "F ! k = \<lparr>m_type = ty, m_real_fd = r\<rparr>" by blast
    with False show ?thesis by (intro exI [of _ "Suc k"]) auto
  qed
qed simp

text \<open>
  \<^verbatim>\<open>decref_locked\<close> run after virtual fd \<open>v\<close> was removed from the forward vector, as
  \<^verbatim>\<open>free\<close> runs it, restores the agreement of the reverse and count vectors with it.
\<close>

lemma decref_locked_spec:
  assumes inv: "refs_inv T" and v: "0 \<le> v" "nat v < length (forward T)" and rfd: "0 \<le> rfd"
    and ty: "ty \<noteq> kUnknown" and cur: "forward T ! nat v = \<lparr>m_type = ty, m_real_fd = rfd\<rparr>"
  defines "F \<equiv> (forward T)[nat v := unbound]"
  obtains T2 where "decref_locked (T\<lparr>forward := F\<rparr>) ty rfd v
      = Some (int (count_list F \<lparr>m_type = ty, m_real_fd = rfd\<rparr>), T2)"
    "refs_inv T2" "forward T2 = F" "free_list T2 = free_list T" "watermark T2 = watermark T"
proof -
  let ?m = "\<lparr>m_type = ty, m_real_fd = rfd\<rparr>" and ?r = "nat rfd"
  define R C where "R = reverse T ty" and "C = refcounts T ty"
  define n where "n = count_list F ?m"
  have len: "length C = length R" "R \<noteq> []" using inv ty by (auto simp: refs_inv_def R_def C_def)
  have old: "refs_at (forward T) R C ty r" for r
    using inv ty by (auto simp: refs_inv_def R_def C_def)
  have m: "?m \<in> set (forward T)" using v cur by (metis nth_mem)
  have cnt: "count_list (forward T) ?m = Suc n"
  proof -
    have "count_list (forward T) ?m \<noteq> 0" using m by (simp add: count_list_0_iff)
    then show ?thesis using v cur ty by (simp add: n_def F_def count_list_update)
  qed
  have r: "?r < length R" "C ! ?r = int (Suc n)" "0 \<le> R ! ?r" "nat (R ! ?r) < length (forward T)"
    "forward T ! nat (R ! ?r) = ?m"
    using old [of ?r] cnt rfd by (auto simp: refs_at_def Let_def split: if_splits)
  define R' where "R' = R[?r := if R ! ?r \<noteq> v then R ! ?r else if n = 0 then -1
                                else scan_forward F 0 ty rfd]"
  define C' where "C' = C[?r := int n]"
  have lenF: "length F = length (forward T)" by (simp add: F_def)
  have kept: "F ! nat (R ! ?r) = ?m" if "R ! ?r \<noteq> v"
    using that r(3,5) v(1) by (simp add: F_def eq_nat_nat_iff)
  have here: "refs_at F R' C' ty ?r"
  proof (cases "n = 0 \<or> R ! ?r \<noteq> v")
    case True
    have "R ! ?r = v" if "n = 0"
    proof (rule ccontr)
      assume "R ! ?r \<noteq> v"
      then have "?m \<in> set F" using kept r(4) lenF by (metis nth_mem)
      with that show False by (simp add: n_def count_list_0_iff)
    qed
    then show ?thesis using True r rfd len kept lenF
      by (auto simp: refs_at_def Let_def n_def [symmetric] R'_def C'_def)
  next
    case False
    then have "?m \<in> set F" by (auto simp: n_def count_list_0_iff)
    from scan_forward_found [OF this, of 0] obtain k where
      "k < length F" "scan_forward F 0 ty rfd = int k" "F ! k = ?m" by auto
    with False r rfd len show ?thesis
      by (auto simp: refs_at_def Let_def n_def [symmetric] R'_def C'_def)
  qed
  define T2 where "T2 = T\<lparr>forward := F, reverse := (reverse T)(ty := R'),
    refcounts := (refcounts T)(ty := C')\<rparr>"
  have "decref_locked (T\<lparr>forward := F\<rparr>) ty rfd v = Some (int n, T2)"
    using r ty rfd len
    by (auto simp: decref_locked_def table_simps Let_def R_def C_def T2_def R'_def C'_def)
  moreover have "refs_inv T2"
    unfolding refs_inv_def
  proof (intro allI impI)
    fix ty' assume ty': "ty' \<noteq> kUnknown"
    have other: "refs_at F (reverse T ty') (refcounts T ty') ty' r"
      if "ty' \<noteq> ty \<or> r \<noteq> ?r" for r
    proof -
      have "refs_at (forward T) (reverse T ty') (refcounts T ty') ty' r"
        using inv ty' by (simp add: refs_inv_def)
      moreover have "forward T ! nat v \<noteq> \<lparr>m_type = ty', m_real_fd = int r\<rparr>"
        using cur that by auto
      ultimately show ?thesis
        unfolding F_def using ty' v(2) by (intro refs_at_update_other) simp_all
    qed
    show "reverse T2 ty' \<noteq> [] \<and> length (refcounts T2 ty') = length (reverse T2 ty')
        \<and> (\<forall>r. refs_at (forward T2) (reverse T2 ty') (refcounts T2 ty') ty' r)"
    proof (cases "ty' = ty")
      case True
      have "refs_at F R' C' ty r" for r
        using here other [of r] True refs_at_other_index [of r ?r]
        by (cases "r = ?r") (auto simp: R'_def C'_def R_def C_def)
      with True len show ?thesis by (auto simp: T2_def R'_def C'_def)
    next
      case False
      then show ?thesis using inv ty' other by (auto simp: T2_def refs_inv_def)
    qed
  qed
  ultimately show ?thesis by (intro that [of T2]) (simp_all add: T2_def n_def)
qed


section \<open>The table as a map\<close>

text \<open>
  The abstract view of a table is the function from virtual fds to bindings. An operation changes
  it at one virtual fd, and the counts it reports are cardinalities of sets of holders.
\<close>

definition tab :: "FdRemapTable \<Rightarrow> int \<Rightarrow> FdMapping" where
  "tab T v = (if 0 \<le> v \<and> nat v < length (forward T) then forward T ! nat v else unbound)"

definition holders :: "(int \<Rightarrow> FdMapping) \<Rightarrow> FdMapping \<Rightarrow> int set" where
  "holders f m = {v. f v = m}"

lemma fd_lookup_tab: "fd_lookup T v = Some (tab T v)"
  by (auto simp: fd_lookup_def tab_def vget_def)

lemma tab_lookup_eqI: "fd_lookup T = fd_lookup T' \<Longrightarrow> tab T = tab T'"
  by (rule ext) (metis fd_lookup_tab option.inject)

lemma tab_update:
  assumes "forward T' = (forward T)[nat v := m]" "0 \<le> v" "nat v < length (forward T)"
  shows "tab T' = (tab T)(v := m)"
  using assms by (auto simp: tab_def fun_eq_iff nth_list_update eq_nat_nat_iff)

lemma count_list_holders:
  assumes "m \<noteq> unbound"
  shows "count_list (forward T) m = card (holders (tab T) m)"
proof -
  have "holders (tab T) m = int ` {i. i < length (forward T) \<and> forward T ! i = m}"
    using assms by (auto simp: holders_def tab_def image_iff intro!: exI [of _ "nat x" for x])
  then have "card (holders (tab T) m) = card {i. i < length (forward T) \<and> forward T ! i = m}"
    by (simp add: card_image)
  then show ?thesis
    by (simp add: count_list_eq_length_filter length_filter_conv_card eq_commute [of m])
qed

lemma finite_holders: "m \<noteq> unbound \<Longrightarrow> finite (holders (tab T) m)"
  by (rule finite_subset [of _ "{0..<int (length (forward T))}"]) (auto simp: holders_def tab_def split: if_splits)

lemma new_table_inv: "table_inv new_table"
  by (auto simp: table_inv_def refs_inv_def refs_at_def slots_inv_def new_table_def
      kInitialCapacity_def count_list_replicate)

lemma tab_new_table: "tab new_table v = unbound"
  by (simp add: tab_def new_table_def)

lemma slots_inv_bind:
  assumes "slots_inv T" "0 \<le> v" "nat v < length (forward T)" "nat v < watermark T"
    "v \<notin> set (free_list T)" "0 \<le> m_real_fd m"
    "forward T' = (forward T)[nat v := m]" "free_list T' = free_list T" "watermark T' = watermark T"
  shows "slots_inv T'"
  using assms by (auto simp: slots_inv_def nth_list_update eq_nat_nat_iff)

lemma fd_alloc_spec:
  assumes "table_inv T" "0 \<le> rfd"
  obtains v T' where "fd_alloc T ty rfd = Some (v, T')" "table_inv T'" "0 \<le> v"
    "tab T v = unbound" "tab T' = (tab T)(v := \<lparr>m_type = ty, m_real_fd = rfd\<rparr>)"
    "set (free_list T') = set (free_list T) - {v}"
    "int (watermark T') = max (int (watermark T)) (v + 1)"
    "v \<in> set (free_list T) \<or> v = int (watermark T)"
proof -
  obtain v T1 where a: "alloc_locked T = Some (v, T1)" "table_inv T1" "0 \<le> v"
    "nat v < watermark T1" "v \<notin> set (free_list T1)" "fd_lookup T v = Some unbound"
    "fd_lookup T1 = fd_lookup T" "nat v < length (forward T1)" "forward T1 ! nat v = unbound"
    "set (free_list T1) = set (free_list T) - {v}" "int (watermark T1) = max (int (watermark T)) (v + 1)"
    "v \<in> set (free_list T) \<or> v = int (watermark T)"
    using alloc_locked_spec [OF assms(1)] by metis
  obtain T2 where b: "bind_locked T1 v ty rfd = Some T2" "refs_inv T2"
    "forward T2 = (forward T1)[nat v := \<lparr>m_type = ty, m_real_fd = rfd\<rparr>]"
    "free_list T2 = free_list T1" "watermark T2 = watermark T1"
    using bind_locked_spec [of T1 v rfd ty] a assms(2) by (auto simp: table_inv_def)
  have "slots_inv T2"
    using a(2) by (intro slots_inv_bind [OF _ a(3,8,4,5) _ b(3,4,5)]) (simp_all add: table_inv_def assms(2))
  moreover have "tab T2 = (tab T)(v := \<lparr>m_type = ty, m_real_fd = rfd\<rparr>)"
    using tab_update [OF b(3) a(3,8)] tab_lookup_eqI [OF a(7)] by simp
  ultimately show ?thesis
    using a b assms(2) by (intro that [of v T2]) (auto simp: fd_alloc_def table_inv_def fd_lookup_tab)
qed

lemma slots_inv_free:
  assumes "slots_inv T" "0 \<le> v" "nat v < length (forward T)" "forward T ! nat v \<noteq> unbound"
    "forward T' = (forward T)[nat v := unbound]" "free_list T' = free_list T @ [v]"
    "watermark T' = watermark T"
  shows "slots_inv T'"
proof -
  have "nat v < watermark T"
    using assms(1,3,4) unfolding slots_inv_def by (metis not_less)
  moreover have "v \<notin> set (free_list T)"
    using assms(1,4) by (auto simp: slots_inv_def)
  ultimately show ?thesis using assms by (auto simp: slots_inv_def nth_list_update)
qed

lemma fd_free_spec:
  assumes inv: "table_inv T" and m: "tab T v = \<lparr>m_type = ty, m_real_fd = rfd\<rparr>"
    and ty: "ty \<noteq> kUnknown" and rfd: "0 \<le> rfd"
  obtains T' where "fd_free T v
      = Some (int (card (holders (tab T) \<lparr>m_type = ty, m_real_fd = rfd\<rparr> - {v})), T')"
    "table_inv T'" "tab T' = (tab T)(v := unbound)" "free_list T' = free_list T @ [v]"
    "watermark T' = watermark T"
proof -
  let ?m = "\<lparr>m_type = ty, m_real_fd = rfd\<rparr>"
  have v: "0 \<le> v" "nat v < length (forward T)" and cur: "forward T ! nat v = ?m"
    using m ty by (auto simp: tab_def split: if_splits)
  define F where "F = (forward T)[nat v := unbound]"
  define T1 where "T1 = T\<lparr>free_list := free_list T @ [v]\<rparr>"
  have sw: "T\<lparr>forward := F, free_list := free_list T @ [v]\<rparr> = T1\<lparr>forward := F\<rparr>"
    by (simp add: T1_def)
  have "refs_inv T1" using inv by (simp add: table_inv_def refs_inv_def T1_def)
  then obtain T2 where d: "decref_locked (T\<lparr>forward := F, free_list := free_list T @ [v]\<rparr>) ty rfd v
      = Some (int (count_list F ?m), T2)" "refs_inv T2" "forward T2 = F"
      "free_list T2 = free_list T @ [v]" "watermark T2 = watermark T"
    using decref_locked_spec [of T1 v rfd ty] v cur ty rfd
    unfolding sw by (auto simp: F_def T1_def)
  have "slots_inv T2"
  proof (rule slots_inv_free [OF _ v _ _ d(4,5)])
    show "slots_inv T" using inv by (simp add: table_inv_def)
  qed (use cur ty d(3) in \<open>simp_all add: F_def\<close>)
  moreover have t: "tab T2 = (tab T)(v := unbound)"
    using tab_update [of T2 T v unbound] d(3) v by (simp add: F_def)
  moreover have "count_list F ?m = card (holders (tab T) ?m - {v})"
  proof -
    have "holders (tab T2) ?m = holders (tab T) ?m - {v}" using t ty by (auto simp: holders_def)
    then show ?thesis using count_list_holders [of ?m T2] d(3) ty by simp
  qed
  moreover have "fd_free T v = Some (int (count_list F ?m), T2)"
    using d(1) v cur ty rfd by (simp add: fd_free_def table_simps F_def)
  ultimately show ?thesis using d by (intro that [of T2]) (auto simp: table_inv_def)
qed


lemma bound_entry:
  assumes "refs_inv T" "tab T v = \<lparr>m_type = ty, m_real_fd = r\<rparr>" "ty \<noteq> kUnknown" "0 \<le> r"
  shows "nat r < length (reverse T ty)" "nat r < length (refcounts T ty)"
    "refcounts T ty ! nat r = int (card (holders (tab T) \<lparr>m_type = ty, m_real_fd = r\<rparr>))"
    "0 \<le> reverse T ty ! nat r" "tab T (reverse T ty ! nat r) = \<lparr>m_type = ty, m_real_fd = r\<rparr>"
proof -
  let ?m = "\<lparr>m_type = ty, m_real_fd = r\<rparr>"
  have a: "refs_at (forward T) (reverse T ty) (refcounts T ty) ty (nat r)"
    "length (refcounts T ty) = length (reverse T ty)"
    using assms by (auto simp: refs_inv_def)
  have "v \<in> holders (tab T) ?m" using assms(2) by (simp add: holders_def)
  then have "card (holders (tab T) ?m) \<noteq> 0" using finite_holders [of ?m T] assms(3) by auto
  then have c: "count_list (forward T) ?m \<noteq> 0"
    "count_list (forward T) ?m = card (holders (tab T) ?m)"
    using count_list_holders [of ?m T] assms(3) by auto
  then show "nat r < length (reverse T ty)"
    using a(1) assms(4) by (auto simp: refs_at_def Let_def split: if_splits)
  then show "nat r < length (refcounts T ty)"
    "refcounts T ty ! nat r = int (card (holders (tab T) ?m))"
    "0 \<le> reverse T ty ! nat r" "tab T (reverse T ty ! nat r) = ?m"
    using a c assms(4) by (auto simp: refs_at_def Let_def tab_def split: if_splits)
qed

lemma tab_bound_vfd:
  "bound_vfd T v \<longleftrightarrow> m_type (tab T v) \<noteq> kUnknown \<and> 0 \<le> m_real_fd (tab T v)"
  by (auto simp: bound_vfd_def tab_def)

lemma fd_dup_is_bind:
  assumes inv: "table_inv T" and m: "tab T u = \<lparr>m_type = ty, m_real_fd = r\<rparr>"
    "ty \<noteq> kUnknown" "0 \<le> r"
    and a: "alloc_locked T = Some (v, T1)" "reverse T1 = reverse T" "refcounts T1 = refcounts T"
  shows "fd_dup T u = map_option (\<lambda>T2. (Inr v, T2)) (bind_locked T1 v ty r)"
proof -
  have u: "bound_vfd T u" using m by (simp add: tab_bound_vfd)
  then have g: "vget (forward T) u = Some \<lparr>m_type = ty, m_real_fd = r\<rparr>"
    using m(1) by (auto simp: bound_vfd_def tab_def vget_def)
  note b = bound_entry [of T u ty r, OF _ m]
  have e: "ensure_reverse_capacity_locked (T1\<lparr>forward := fs\<rparr>) ty r = Some (T1\<lparr>forward := fs\<rparr>)" for fs
    using b(1) inv a m(3) by (simp add: ensure_reverse_capacity_locked_def table_inv_def)
  show ?thesis
    using u g e a m b inv
    by (cases "vset (forward T1) v \<lparr>m_type = ty, m_real_fd = r\<rparr>")
      (auto simp: fd_dup_def bind_locked_def table_simps table_inv_def)
qed

lemma fd_dup_spec:
  assumes inv: "table_inv T" and m: "tab T u = \<lparr>m_type = ty, m_real_fd = r\<rparr>"
    "ty \<noteq> kUnknown" "0 \<le> r"
  obtains v T' where "fd_dup T u = Some (Inr v, T')" "table_inv T'" "0 \<le> v" "tab T v = unbound"
    "tab T' = (tab T)(v := \<lparr>m_type = ty, m_real_fd = r\<rparr>)"
proof -
  obtain v T1 where a: "alloc_locked T = Some (v, T1)" "reverse T1 = reverse T"
    "refcounts T1 = refcounts T"
    using alloc_locked_spec [OF inv] by metis
  obtain w T' where b: "fd_alloc T ty r = Some (w, T')" "table_inv T'" "0 \<le> w"
    "tab T w = unbound" "tab T' = (tab T)(w := \<lparr>m_type = ty, m_real_fd = r\<rparr>)"
    using fd_alloc_spec [OF inv m(3), of ty] by metis
  have "w = v" "bind_locked T1 v ty r = Some T'"
    using b(1) a(1) m(3) by (auto simp: fd_alloc_def split: Option.bind_splits)
  with fd_dup_is_bind [OF inv m a] b show ?thesis by (intro that [of v T']) auto
qed

lemma reverse_lookup_spec:
  assumes "table_inv T" "ty \<noteq> kUnknown" "0 \<le> r"
  obtains v where "reverse_lookup T ty r = Some v"
    "if holders (tab T) \<lparr>m_type = ty, m_real_fd = r\<rparr> = {} then v = -1
     else 0 \<le> v \<and> v \<in> holders (tab T) \<lparr>m_type = ty, m_real_fd = r\<rparr>"
proof (cases "holders (tab T) \<lparr>m_type = ty, m_real_fd = r\<rparr> = {}")
  case True
  then have "count_list (forward T) \<lparr>m_type = ty, m_real_fd = int (nat r)\<rparr> = 0"
    using assms count_list_holders [of "\<lparr>m_type = ty, m_real_fd = r\<rparr>" T] by simp
  moreover have "refs_at (forward T) (reverse T ty) (refcounts T ty) ty (nat r)"
    using assms by (auto simp: table_inv_def refs_inv_def)
  ultimately have "nat r < length (reverse T ty) \<Longrightarrow> reverse T ty ! nat r = -1"
    by (simp add: refs_at_def Let_def)
  then show ?thesis
    using that [of "-1"] True assms(3) by (simp add: reverse_lookup_def table_simps)
next
  case False
  then obtain u where "tab T u = \<lparr>m_type = ty, m_real_fd = r\<rparr>" by (auto simp: holders_def)
  from bound_entry [OF _ this assms(2,3)] assms show ?thesis
    using that [of "reverse T ty ! nat r"] False
    by (simp add: reverse_lookup_def table_simps holders_def table_inv_def)
qed

lemma refcount_spec:
  assumes "table_inv T" "tab T v = \<lparr>m_type = ty, m_real_fd = r\<rparr>" "ty \<noteq> kUnknown" "0 \<le> r"
  shows "refcount T v = Some (int (card (holders (tab T) \<lparr>m_type = ty, m_real_fd = r\<rparr>)))"
proof -
  have v: "0 \<le> v" "nat v < length (forward T)" "forward T ! nat v = \<lparr>m_type = ty, m_real_fd = r\<rparr>"
    using assms(2,3) by (auto simp: tab_def split: if_splits)
  have "refs_inv T" using assms(1) by (simp add: table_inv_def)
  note b = bound_entry [OF this assms(2-4)]
  from v b(1-3) assms(3,4) show ?thesis by (simp add: refcount_def table_simps)
qed


section \<open>Rebinding a chosen virtual fd\<close>

text \<open>
  \<^verbatim>\<open>set\<close> and \<^verbatim>\<open>dup_to\<close> drop the old binding of the target before they overwrite its forward
  entry, and do not look at the free list. \<open>drop_safe\<close> is what that order needs: the target is not
  on the free list, and if the reverse entry of its old resource is the target itself while others
  hold the resource too, the scan for another holder does not stop at the target.
\<close>

definition drop_safe :: "FdRemapTable \<Rightarrow> int \<Rightarrow> bool" where
  "drop_safe T dst \<longleftrightarrow> dst \<notin> set (free_list T) \<and>
     (bound_vfd T dst \<longrightarrow>
        (let m = forward T ! nat dst; ty = m_type m; r = m_real_fd m
         in reverse T ty ! nat r = dst \<longrightarrow> refcounts T ty ! nat r \<noteq> 1 \<longrightarrow>
            scan_forward (forward T) 0 ty r \<noteq> dst))"

lemma scan_forward_skip:
  "k < length F \<Longrightarrow> ty \<noteq> kUnknown \<Longrightarrow> scan_forward F i ty r \<noteq> i + int k \<Longrightarrow>
     scan_forward (F[k := unbound]) i ty r = scan_forward F i ty r"
proof (induction F arbitrary: i k)
  case (Cons m F)
  then show ?case
  proof (cases k)
    case (Suc j)
    then show ?thesis using Cons.prems Cons.IH [of j "i + 1"] by (auto simp: algebra_simps)
  qed auto
qed simp

lemma scan_forward_grow:
  assumes "ty \<noteq> kUnknown"
  shows "scan_forward (F @ replicate k unbound) i ty r = scan_forward F i ty r"
proof -
  have "scan_forward (replicate k unbound) i ty r = -1" for i
    using assms by (induction k arbitrary: i) auto
  then show ?thesis by (induction F arbitrary: i) auto
qed

lemma decref_locked_eq:
  assumes "ty \<noteq> kUnknown" "0 \<le> r" "nat r < length (reverse T ty)"
    "nat r < length (refcounts T ty)" "0 < refcounts T ty ! nat r"
  shows "decref_locked T ty r v = Some (refcounts T ty ! nat r - 1,
    T\<lparr>reverse := (reverse T)(ty := (reverse T ty)[nat r :=
         if reverse T ty ! nat r \<noteq> v then reverse T ty ! nat r
         else if refcounts T ty ! nat r = 1 then -1 else scan_forward (forward T) 0 ty r]),
      refcounts := (refcounts T)(ty := (refcounts T ty)[nat r := refcounts T ty ! nat r - 1])\<rparr>)"
  using assms by (auto simp: decref_locked_def table_simps Let_def)

lemma decref_locked_order:
  assumes inv: "refs_inv T" and v: "0 \<le> v" "nat v < length (forward T)"
    and cur: "forward T ! nat v = \<lparr>m_type = ty, m_real_fd = r\<rparr>" "ty \<noteq> kUnknown" "0 \<le> r"
    and safe: "reverse T ty ! nat r = v \<Longrightarrow> refcounts T ty ! nat r \<noteq> 1 \<Longrightarrow>
      scan_forward (forward T) 0 ty r \<noteq> v"
  obtains c T2 where "decref_locked T ty r v = Some (c, T2)"
    "decref_locked (T\<lparr>forward := (forward T)[nat v := unbound]\<rparr>) ty r v
       = Some (c, T2\<lparr>forward := (forward T)[nat v := unbound]\<rparr>)" "forward T2 = forward T"
proof -
  have t: "tab T v = \<lparr>m_type = ty, m_real_fd = r\<rparr>" using v cur by (simp add: tab_def)
  note b = bound_entry [OF inv t cur(2,3)]
  have "scan_forward ((forward T)[nat v := unbound]) 0 ty r = scan_forward (forward T) 0 ty r"
    if "reverse T ty ! nat r = v" "refcounts T ty ! nat r \<noteq> 1"
    using scan_forward_skip [OF v(2) cur(2), of 0 r] safe [OF that] v(1) by simp
  moreover have "card (holders (tab T) \<lparr>m_type = ty, m_real_fd = r\<rparr>) \<noteq> 0"
    using finite_holders [of "\<lparr>m_type = ty, m_real_fd = r\<rparr>" T] t cur by (auto simp: holders_def)
  then have "0 < refcounts T ty ! nat r" using b(3) by simp
  note e = decref_locked_eq [OF cur(2,3), of T v, OF b(1,2) this]
    decref_locked_eq [OF cur(2,3), of "T\<lparr>forward := (forward T)[nat v := unbound]\<rparr>" v]
  ultimately show ?thesis
    using b(1,2) \<open>0 < refcounts T ty ! nat r\<close> by (intro that [OF e(1)]) (auto simp: e(2))
qed


text \<open>\<open>bind_locked\<close> overwrites the forward entry of its target without reading it.\<close>

lemma bind_locked_overwrites:
  "bind_locked (T\<lparr>forward := (forward T)[nat v := m]\<rparr>) v ty r = bind_locked T v ty r"
  by (simp add: bind_locked_def vset_def)

lemma clear_slot:
  assumes inv: "refs_inv T" and v: "0 \<le> v" "nat v < length (forward T)"
    and nonneg: "forward T ! nat v \<noteq> unbound \<Longrightarrow> 0 \<le> m_real_fd (forward T ! nat v)"
    and safe: "drop_safe T v"
  obtains c T2 where
    "(if m_type (forward T ! nat v) \<noteq> kUnknown \<and> m_real_fd (forward T ! nat v) \<ge> 0
      then decref_locked T (m_type (forward T ! nat v)) (m_real_fd (forward T ! nat v)) v
      else Some (d, T)) = Some (c, T2)"
    "c = (if bound_vfd T v then int (card (holders (tab T) (tab T v) - {v})) else d)"
    "refs_inv (T2\<lparr>forward := (forward T)[nat v := unbound]\<rparr>)" "forward T2 = forward T"
    "free_list T2 = free_list T" "watermark T2 = watermark T"
proof (cases "bound_vfd T v")
  case False
  then have k: "m_type (forward T ! nat v) = kUnknown \<or> m_real_fd (forward T ! nat v) < 0"
    using v by (auto simp: bound_vfd_def)
  then have "m_type (forward T ! nat v) = kUnknown" using nonneg by fastforce
  then have "refs_inv (T\<lparr>forward := (forward T)[nat v := unbound]\<rparr>)"
    using inv v(2) by (auto simp: refs_inv_def intro!: refs_at_update_other)
  with False k show ?thesis by (intro that [of d T]) auto
next
  case True
  define ty r where "ty = m_type (forward T ! nat v)" and "r = m_real_fd (forward T ! nat v)"
  have cur: "forward T ! nat v = \<lparr>m_type = ty, m_real_fd = r\<rparr>" "ty \<noteq> kUnknown" "0 \<le> r"
    using True by (simp_all add: ty_def r_def bound_vfd_def)
  have t: "tab T v = \<lparr>m_type = ty, m_real_fd = r\<rparr>" using v cur by (simp add: tab_def)
  obtain c T2 where d: "decref_locked T ty r v = Some (c, T2)"
    "decref_locked (T\<lparr>forward := (forward T)[nat v := unbound]\<rparr>) ty r v
       = Some (c, T2\<lparr>forward := (forward T)[nat v := unbound]\<rparr>)" "forward T2 = forward T"
    using decref_locked_order [OF inv v cur] safe True cur by (auto simp: drop_safe_def Let_def)
  obtain T3 where e: "decref_locked (T\<lparr>forward := (forward T)[nat v := unbound]\<rparr>) ty r v
      = Some (int (count_list ((forward T)[nat v := unbound]) \<lparr>m_type = ty, m_real_fd = r\<rparr>), T3)"
    "refs_inv T3" "free_list T3 = free_list T" "watermark T3 = watermark T"
    using decref_locked_spec [OF inv v cur(3,2,1)] by metis
  have "count_list ((forward T)[nat v := unbound]) \<lparr>m_type = ty, m_real_fd = r\<rparr>
      = card (holders (tab T) \<lparr>m_type = ty, m_real_fd = r\<rparr> - {v})"
  proof -
    define T0 where "T0 = T\<lparr>forward := (forward T)[nat v := unbound]\<rparr>"
    have "holders (tab T0) \<lparr>m_type = ty, m_real_fd = r\<rparr> = holders (tab T) \<lparr>m_type = ty, m_real_fd = r\<rparr> - {v}"
      using tab_update [of T0 T v unbound] v cur(2) by (auto simp: T0_def holders_def)
    then show ?thesis
      using count_list_holders [of "\<lparr>m_type = ty, m_real_fd = r\<rparr>" T0] cur(2) by (simp add: T0_def)
  qed
  with d e True t cur show ?thesis by (intro that [of c T2]) (auto simp: ty_def [symmetric] r_def [symmetric])
qed

lemma drop_safe_grow:
  assumes "drop_safe T v" "0 \<le> v"
  shows "drop_safe (T\<lparr>forward := forward T @ replicate k unbound\<rparr>) v"
proof -
  let ?T = "T\<lparr>forward := forward T @ replicate k unbound\<rparr>"
  have "bound_vfd T v \<and> forward ?T ! nat v = forward T ! nat v" if "bound_vfd ?T v"
    using that by (cases "nat v < length (forward T)") (auto simp: bound_vfd_def nth_append)
  then show ?thesis
    using assms by (simp add: drop_safe_def Let_def) (metis bound_vfd_def scan_forward_grow)
qed

lemma rebind_spec:
  assumes inv: "table_inv T" and v: "0 \<le> v" and r: "0 \<le> r" and safe: "drop_safe T v"
  obtains T1 c T2 T3 where "ensure_capacity_locked T v = Some T1"
    "vget (forward T1) v = Some (tab T v)"
    "(if m_type (tab T v) \<noteq> kUnknown \<and> m_real_fd (tab T v) \<ge> 0
      then decref_locked T1 (m_type (tab T v)) (m_real_fd (tab T v)) v else Some (d, T1)) = Some (c, T2)"
    "bind_locked T2 v ty r = Some T3"
    "table_inv (raise_watermark T3 v)"
    "tab (raise_watermark T3 v) = (tab T)(v := \<lparr>m_type = ty, m_real_fd = r\<rparr>)"
    "c = (if bound_vfd T v then int (card (holders (tab T) (tab T v) - {v})) else d)"
proof -
  have i: "refs_inv T" "slots_inv T" using inv by (simp_all add: table_inv_def)
  obtain k where k: "ensure_capacity_locked T v = Some (T\<lparr>forward := forward T @ replicate k unbound\<rparr>)"
    "nat v < length (forward T) + k"
    using ensure_capacity_spec [OF _ v, of T] i(2) by (auto simp: slots_inv_def)
  define T1 where "T1 = T\<lparr>forward := forward T @ replicate k unbound\<rparr>"
  have T1: "refs_inv T1" "slots_inv T1" "nat v < length (forward T1)" "drop_safe T1 v"
    "free_list T1 = free_list T" "watermark T1 = watermark T"
    using i k(2) safe v
    by (simp_all add: T1_def refs_inv_grow_forward slots_inv_grow_forward drop_safe_grow)
  have t: "tab T1 = tab T" unfolding T1_def
    by (rule tab_lookup_eqI [OF fd_lookup_grow_forward])
  have f: "forward T1 ! nat v = tab T v" using t v T1(3) by (metis tab_def)
  have b: "bound_vfd T1 v = bound_vfd T v" using t by (simp add: tab_bound_vfd)
  obtain c T2 where c: "(if m_type (tab T v) \<noteq> kUnknown \<and> m_real_fd (tab T v) \<ge> 0
      then decref_locked T1 (m_type (tab T v)) (m_real_fd (tab T v)) v else Some (d, T1)) = Some (c, T2)"
    "c = (if bound_vfd T v then int (card (holders (tab T) (tab T v) - {v})) else d)"
    "refs_inv (T2\<lparr>forward := (forward T1)[nat v := unbound]\<rparr>)" "forward T2 = forward T1"
    "free_list T2 = free_list T" "watermark T2 = watermark T"
    using clear_slot [OF T1(1) v T1(3) _ T1(4), of d] T1(2,3,5,6) unfolding f t b slots_inv_def
    by (metis f)
  obtain T3 where e: "bind_locked T2 v ty r = Some T3" "refs_inv T3"
    "forward T3 = (forward T1)[nat v := \<lparr>m_type = ty, m_real_fd = r\<rparr>]"
    "free_list T3 = free_list T" "watermark T3 = watermark T"
    using bind_locked_spec [OF c(3) v _ r, of ty] T1(3) c(4,5,6) bind_locked_overwrites [of T2 v unbound ty r]
    by auto
  define T4 where "T4 = raise_watermark T3 v"
  have T4: "forward T4 = (forward T1)[nat v := \<lparr>m_type = ty, m_real_fd = r\<rparr>]"
    "free_list T4 = free_list T" "watermark T4 = max (watermark T) (nat v + 1)" "refs_inv T4"
    using e by (auto simp: T4_def raise_watermark_def refs_inv_def max_def)
  have "v \<notin> set (free_list T)" using safe by (simp add: drop_safe_def)
  then have "slots_inv T4"
    using T1(2,3,5,6) T4 v r by (auto simp: slots_inv_def nth_list_update eq_nat_nat_iff)
  moreover have "tab T4 = (tab T)(v := \<lparr>m_type = ty, m_real_fd = r\<rparr>)"
    using tab_update [OF T4(1) v T1(3)] t by simp
  ultimately show ?thesis
    using k(1) c e T4 T1(3) f v
    by (intro that [of T1 c T2 T3])
      (simp_all add: T1_def [symmetric] T4_def [symmetric] table_simps table_inv_def)
qed


lemma fd_set_spec:
  assumes "table_inv T" "0 \<le> v" "0 \<le> r" "drop_safe T v"
  obtains T' where "fd_set T v ty r = Some T'" "table_inv T'"
    "tab T' = (tab T)(v := \<lparr>m_type = ty, m_real_fd = r\<rparr>)"
proof -
  obtain T1 c T2 T3 where b: "ensure_capacity_locked T v = Some T1"
    "vget (forward T1) v = Some (tab T v)"
    "(if m_type (tab T v) \<noteq> kUnknown \<and> m_real_fd (tab T v) \<ge> 0
      then decref_locked T1 (m_type (tab T v)) (m_real_fd (tab T v)) v else Some (0, T1)) = Some (c, T2)"
    "bind_locked T2 v ty r = Some T3" "table_inv (raise_watermark T3 v)"
    "tab (raise_watermark T3 v) = (tab T)(v := \<lparr>m_type = ty, m_real_fd = r\<rparr>)"
    using rebind_spec [OF assms, of 0 ty] by metis
  have "fd_set T v ty r = Some (raise_watermark T3 v)"
    using assms(2,3) b(1,2,4) by (simp add: fd_set_def b(3))
  with b(5,6) show ?thesis by (rule that [rotated])
qed

lemma fd_dup_to_spec:
  assumes "table_inv T" "tab T u = \<lparr>m_type = ty, m_real_fd = r\<rparr>" "ty \<noteq> kUnknown" "0 \<le> r"
    "0 \<le> v" "u \<noteq> v" "drop_safe T v"
  obtains T' where "fd_dup_to T u v = Some (Inr (tab T v,
      if bound_vfd T v then int (card (holders (tab T) (tab T v) - {v})) else -1), T')"
    "table_inv T'" "tab T' = (tab T)(v := \<lparr>m_type = ty, m_real_fd = r\<rparr>)"
proof -
  obtain T1 c T2 T3 where b: "ensure_capacity_locked T v = Some T1"
    "vget (forward T1) v = Some (tab T v)"
    "(if m_type (tab T v) \<noteq> kUnknown \<and> m_real_fd (tab T v) \<ge> 0
      then decref_locked T1 (m_type (tab T v)) (m_real_fd (tab T v)) v else Some (-1, T1)) = Some (c, T2)"
    "bind_locked T2 v ty r = Some T3" "table_inv (raise_watermark T3 v)"
    "tab (raise_watermark T3 v) = (tab T)(v := \<lparr>m_type = ty, m_real_fd = r\<rparr>)"
    "c = (if bound_vfd T v then int (card (holders (tab T) (tab T v) - {v})) else -1)"
    using rebind_spec [OF assms(1,5,4,7), of "-1" ty] by metis
  have u: "bound_vfd T u" using assms(2-4) by (simp add: tab_bound_vfd)
  then have "vget (forward T) u = Some \<lparr>m_type = ty, m_real_fd = r\<rparr>" "0 \<le> u"
    using assms(2) by (auto simp: bound_vfd_def tab_def vget_def)
  then have "fd_dup_to T u v = Some (Inr (tab T v, c), raise_watermark T3 v)"
    using u assms(5,6) b(1,2,4) by (simp add: fd_dup_to_def b(3))
  with b(5,6,7) show ?thesis by (intro that) auto
qed

lemma fd_free_untyped:
  assumes "table_inv T" "tab T v \<noteq> unbound" "m_type (tab T v) = kUnknown"
  obtains T' where "fd_free T v = Some (0, T')" "table_inv T'" "tab T' = (tab T)(v := unbound)"
    "free_list T' = free_list T @ [v]" "watermark T' = watermark T"
proof -
  have v: "0 \<le> v" "nat v < length (forward T)" "forward T ! nat v = tab T v"
    using assms(2) by (auto simp: tab_def split: if_splits)
  define T' where "T' = T\<lparr>forward := (forward T)[nat v := unbound], free_list := free_list T @ [v]\<rparr>"
  have "forward T ! nat v \<noteq> \<lparr>m_type = ty, m_real_fd = r\<rparr>" if "ty \<noteq> kUnknown" for ty r
    using assms(3) v(3) that by (metis FdMapping.select_convs(1))
  then have "refs_inv T'"
    using assms(1) v(2) by (auto simp: T'_def table_inv_def refs_inv_def intro!: refs_at_update_other)
  moreover have "slots_inv T'"
    by (rule slots_inv_free [of T v]) (use assms(1,2) v in \<open>simp_all add: T'_def table_inv_def\<close>)
  moreover have "fd_free T v = Some (0, T')"
    using v assms(2,3) by (cases "tab T v") (simp add: fd_free_def table_simps T'_def)
  moreover have "tab T' = (tab T)(v := unbound)"
    using v by (intro tab_update) (simp_all add: T'_def)
  ultimately show ?thesis by (intro that [of T']) (simp_all add: table_inv_def, simp_all add: T'_def)
qed

lemma fd_free_unbound: "tab T v = unbound \<Longrightarrow> fd_free T v = Some (0, T)"
  by (auto simp: fd_free_def tab_def vget_def)

lemma fd_dup_unbound:
  "m_type (tab T v) = kUnknown \<or> m_real_fd (tab T v) < 0 \<Longrightarrow> fd_dup T v = Some (Inl EBADF, T)"
  by (auto simp: fd_dup_def tab_bound_vfd)


section \<open>Sequences of operations\<close>

datatype fd_op = Op_alloc FdType int | Op_dup int | Op_free int

fun fd_apply :: "FdRemapTable \<Rightarrow> fd_op \<Rightarrow> FdRemapTable option" where
  "fd_apply T (Op_alloc ty r) = map_option snd (fd_alloc T ty r)"
| "fd_apply T (Op_dup v) = map_option snd (fd_dup T v)"
| "fd_apply T (Op_free v) = map_option snd (fd_free T v)"

fun fd_run :: "FdRemapTable \<Rightarrow> fd_op list \<Rightarrow> FdRemapTable option" where
  "fd_run T [] = Some T"
| "fd_run T (op # ops) = fd_apply T op \<bind> (\<lambda>T'. fd_run T' ops)"

text \<open>No virtual fd below the watermark is lost: an unbound one is on the free list.\<close>

definition dense :: "FdRemapTable \<Rightarrow> bool" where
  "dense T \<longleftrightarrow> (\<forall>v. 0 \<le> v \<and> v < int (watermark T) \<and> tab T v = unbound \<longrightarrow> v \<in> set (free_list T))"

lemma free_list_unbound: "table_inv T \<Longrightarrow> v \<in> set (free_list T) \<Longrightarrow> tab T v = unbound"
  by (auto simp: table_inv_def slots_inv_def tab_def)

lemma live_count_exact:
  assumes "table_inv T" "dense T"
  shows "live_count T = card {v. tab T v \<noteq> unbound}"
proof -
  have s: "slots_inv T" using assms(1) by (simp add: table_inv_def)
  have bound: "0 \<le> v \<and> v < int (watermark T)" if "tab T v \<noteq> unbound" for v
  proof -
    have "0 \<le> v" "nat v < length (forward T)" "forward T ! nat v \<noteq> unbound"
      using that by (auto simp: tab_def split: if_splits)
    moreover from this have "nat v < watermark T"
      using s unfolding slots_inv_def by (meson not_less)
    ultimately show ?thesis by simp
  qed
  have f: "set (free_list T) \<subseteq> {0..<int (watermark T)}"
    using s by (fastforce simp: slots_inv_def)
  have "{v. tab T v \<noteq> unbound} = {0..<int (watermark T)} - set (free_list T)"
  proof (intro equalityI subsetI)
    fix v assume "v \<in> {v. tab T v \<noteq> unbound}"
    then show "v \<in> {0..<int (watermark T)} - set (free_list T)"
      using bound [of v] free_list_unbound [OF assms(1), of v] by auto
  next
    fix v assume "v \<in> {0..<int (watermark T)} - set (free_list T)"
    then have "tab T v = unbound \<Longrightarrow> False" using assms(2) unfolding dense_def by auto
    then show "v \<in> {v. tab T v \<noteq> unbound}" by blast
  qed
  then show ?thesis
    using f s by (simp add: live_count_def card_Diff_subset distinct_card slots_inv_def)
qed


lemma dense_cong:
  assumes "dense T" "\<And>v. tab T' v = unbound \<Longrightarrow> 0 \<le> v \<Longrightarrow> v < int (watermark T') \<Longrightarrow>
    (tab T v = unbound \<and> v < int (watermark T) \<and> (v \<in> set (free_list T) \<longrightarrow> v \<in> set (free_list T')))
    \<or> v \<in> set (free_list T')"
  shows "dense T'"
  using assms unfolding dense_def by blast

lemma fd_apply_alloc:
  assumes "table_inv T" "dense T"
  shows "\<exists>T'. fd_apply T (Op_alloc ty r) = Some T' \<and> table_inv T' \<and> dense T'"
proof (cases "r < 0")
  case True
  with assms show ?thesis by (simp add: fd_alloc_def)
next
  case False
  then obtain v T' where a: "fd_alloc T ty r = Some (v, T')" "table_inv T'" "0 \<le> v"
    "tab T' = (tab T)(v := \<lparr>m_type = ty, m_real_fd = r\<rparr>)"
    "set (free_list T') = set (free_list T) - {v}"
    "int (watermark T') = max (int (watermark T)) (v + 1)"
    "v \<in> set (free_list T) \<or> v = int (watermark T)"
    using fd_alloc_spec [OF assms(1), of r ty] by (metis linorder_not_le)
  have "dense T'"
  proof (rule dense_cong [OF assms(2)])
    fix u assume u: "tab T' u = unbound" "0 \<le> u" "u < int (watermark T')"
    then have "u \<noteq> v" using a(4) False by auto
    moreover from this have "u < int (watermark T)"
    proof -
      have "v < int (watermark T) \<or> v = int (watermark T)"
        using a(7) assms(1) by (fastforce simp: table_inv_def slots_inv_def)
      with u(3) a(6) \<open>u \<noteq> v\<close> show ?thesis by auto
    qed
    ultimately show "(tab T u = unbound \<and> u < int (watermark T) \<and>
        (u \<in> set (free_list T) \<longrightarrow> u \<in> set (free_list T'))) \<or> u \<in> set (free_list T')"
      using u a(4,5) by simp
  qed
  with a show ?thesis by simp
qed

lemma fd_dup_is_alloc:
  assumes "table_inv T" "tab T u = \<lparr>m_type = ty, m_real_fd = r\<rparr>" "ty \<noteq> kUnknown" "0 \<le> r"
  shows "fd_dup T u = map_option (\<lambda>(v, T'). (Inr v, T')) (fd_alloc T ty r)"
proof -
  obtain v T1 where a: "alloc_locked T = Some (v, T1)" "reverse T1 = reverse T"
    "refcounts T1 = refcounts T"
    using alloc_locked_spec [OF assms(1)] by metis
  show ?thesis
    using fd_dup_is_bind [OF assms a] a(1) assms(4)
    by (cases "bind_locked T1 v ty r") (simp_all add: fd_alloc_def)
qed

lemma fd_free_any:
  assumes "table_inv T" "tab T v \<noteq> unbound" "0 \<le> m_real_fd (tab T v)"
  obtains c T' where "fd_free T v = Some (c, T')" "table_inv T'" "tab T' = (tab T)(v := unbound)"
    "free_list T' = free_list T @ [v]" "watermark T' = watermark T"
proof (cases "m_type (tab T v) = kUnknown")
  case True
  show ?thesis by (rule fd_free_untyped [OF assms(1,2) True]) (rule that)
next
  case False
  have "tab T v = \<lparr>m_type = m_type (tab T v), m_real_fd = m_real_fd (tab T v)\<rparr>" by simp
  then show ?thesis by (rule fd_free_spec [OF assms(1) _ False assms(3)]) (rule that)
qed

lemma fd_apply_ok:
  assumes "table_inv T" "dense T"
  shows "\<exists>T'. fd_apply T op = Some T' \<and> table_inv T' \<and> dense T'"
proof (cases op)
  case (Op_alloc ty r)
  with fd_apply_alloc [OF assms] show ?thesis by simp
next
  case (Op_dup u)
  show ?thesis
  proof (cases "bound_vfd T u")
    case True
    then obtain ty r where "tab T u = \<lparr>m_type = ty, m_real_fd = r\<rparr>" "ty \<noteq> kUnknown" "0 \<le> r"
      by (cases "tab T u") (auto simp: tab_bound_vfd)
    from fd_dup_is_alloc [OF assms(1) this] fd_apply_alloc [OF assms, of ty r] Op_dup
    show ?thesis by auto
  next
    case False
    with Op_dup assms show ?thesis by (simp add: fd_dup_def)
  qed
next
  case (Op_free u)
  show ?thesis
  proof (cases "tab T u = unbound")
    case True
    with Op_free assms show ?thesis by (simp add: fd_free_unbound)
  next
    case False
    then have "0 \<le> m_real_fd (tab T u)"
      using assms(1) by (auto simp: table_inv_def slots_inv_def tab_def split: if_splits)
    then obtain c T' where f: "fd_free T u = Some (c, T')" "table_inv T'"
      "tab T' = (tab T)(u := unbound)" "free_list T' = free_list T @ [u]" "watermark T' = watermark T"
      by (rule fd_free_any [OF assms(1) False])
    then have "dense T'" using assms(2) by (intro dense_cong [OF assms(2)]) (auto split: if_splits)
    with f Op_free show ?thesis by simp
  qed
qed

lemma fd_run_ok:
  assumes "table_inv T" "dense T"
  shows "\<exists>T'. fd_run T ops = Some T' \<and> table_inv T' \<and> dense T'"
  using assms
proof (induction ops arbitrary: T)
  case (Cons op ops)
  with fd_apply_ok [OF Cons.prems, of op] show ?case by auto
qed simp


section \<open>The table as an interface\<close>

text \<open>
  What the interposition hooks rely on: an abstract view of the table, a fresh virtual fd from an
  allocation, an exact count of remaining holders from a release, and a reverse lookup that finds a
  holder whenever there is one.
\<close>

locale fd_tracker =
  fixes inv :: "'t \<Rightarrow> bool"
    and view :: "'t \<Rightarrow> int \<Rightarrow> FdMapping"
    and allocate :: "'t \<Rightarrow> FdType \<Rightarrow> int \<Rightarrow> (int \<times> 't) option"
    and release :: "'t \<Rightarrow> int \<Rightarrow> (int \<times> 't) option"
    and find_vfd :: "'t \<Rightarrow> FdType \<Rightarrow> int \<Rightarrow> int option"
  assumes view_finite: "m \<noteq> unbound \<Longrightarrow> finite (holders (view T) m)"
    and allocate_law: "inv T \<Longrightarrow> 0 \<le> r \<Longrightarrow> \<exists>v T'. allocate T ty r = Some (v, T') \<and> inv T' \<and> 0 \<le> v
      \<and> view T v = unbound \<and> view T' = (view T)(v := \<lparr>m_type = ty, m_real_fd = r\<rparr>)"
    and release_law: "inv T \<Longrightarrow> view T v = \<lparr>m_type = ty, m_real_fd = r\<rparr> \<Longrightarrow> ty \<noteq> kUnknown \<Longrightarrow> 0 \<le> r \<Longrightarrow>
      \<exists>T'. release T v = Some (int (card (holders (view T) \<lparr>m_type = ty, m_real_fd = r\<rparr> - {v})), T')
        \<and> inv T' \<and> view T' = (view T)(v := unbound)"
    and find_law: "inv T \<Longrightarrow> ty \<noteq> kUnknown \<Longrightarrow> 0 \<le> r \<Longrightarrow> \<exists>v. find_vfd T ty r = Some v
      \<and> (if holders (view T) \<lparr>m_type = ty, m_real_fd = r\<rparr> = {} then v = -1
         else 0 \<le> v \<and> v \<in> holders (view T) \<lparr>m_type = ty, m_real_fd = r\<rparr>)"
begin

lemma find_none:
  assumes "inv T" "ty \<noteq> kUnknown" "0 \<le> r" "holders (view T) \<lparr>m_type = ty, m_real_fd = r\<rparr> = {}"
  shows "find_vfd T ty r = Some (-1)"
  using find_law [OF assms(1-3)] assms(4) by auto

lemma find_sole:
  assumes "inv T" "ty \<noteq> kUnknown" "0 \<le> r" "holders (view T) \<lparr>m_type = ty, m_real_fd = r\<rparr> = {v}"
  shows "find_vfd T ty r = Some v" "0 \<le> v"
  using find_law [OF assms(1-3)] assms(4) by auto

lemma find_some:
  assumes "inv T" "ty \<noteq> kUnknown" "0 \<le> r" "view T u = \<lparr>m_type = ty, m_real_fd = r\<rparr>"
  shows "\<exists>w. find_vfd T ty r = Some w \<and> 0 \<le> w \<and> view T w = \<lparr>m_type = ty, m_real_fd = r\<rparr>"
proof -
  have "holders (view T) \<lparr>m_type = ty, m_real_fd = r\<rparr> \<noteq> {}" using assms(4) by (auto simp: holders_def)
  then obtain w where "find_vfd T ty r = Some w" "0 \<le> w" "w \<in> holders (view T) \<lparr>m_type = ty, m_real_fd = r\<rparr>"
    using find_law [OF assms(1-3)] by auto
  then show ?thesis by (simp add: holders_def)
qed

text \<open>A first allocation of a resource gives it exactly one holder and changes no other resource.\<close>

lemma allocate_first:
  assumes "inv T" "0 \<le> r" "ty \<noteq> kUnknown" "holders (view T) \<lparr>m_type = ty, m_real_fd = r\<rparr> = {}"
  shows "\<exists>v T'. allocate T ty r = Some (v, T') \<and> inv T' \<and> find_vfd T' ty r = Some v \<and> 0 \<le> v
    \<and> holders (view T') \<lparr>m_type = ty, m_real_fd = r\<rparr> = {v}
    \<and> (\<forall>m. m \<noteq> \<lparr>m_type = ty, m_real_fd = r\<rparr> \<longrightarrow> m \<noteq> unbound \<longrightarrow> holders (view T') m = holders (view T) m)"
proof -
  obtain v T' where a: "allocate T ty r = Some (v, T')" "inv T'" "0 \<le> v" "view T v = unbound"
    "view T' = (view T)(v := \<lparr>m_type = ty, m_real_fd = r\<rparr>)"
    using allocate_law [OF assms(1,2)] by blast
  have h: "holders (view T') \<lparr>m_type = ty, m_real_fd = r\<rparr> = {v}"
    using a(5) assms(4) by (auto simp: holders_def)
  moreover have "holders (view T') m = holders (view T) m"
    if "m \<noteq> \<lparr>m_type = ty, m_real_fd = r\<rparr>" "m \<noteq> unbound" for m
    using a(4,5) that by (auto simp: holders_def)
  ultimately show ?thesis
    using a(1-3) find_sole [OF a(2) assms(3,2) h] by blast
qed

text \<open>Releasing the only holder reports 0 and leaves the resource without one.\<close>

lemma release_sole:
  assumes "inv T" "0 \<le> r" "ty \<noteq> kUnknown" "holders (view T) \<lparr>m_type = ty, m_real_fd = r\<rparr> = {v}"
  shows "\<exists>T'. release T v = Some (0, T') \<and> inv T' \<and> find_vfd T' ty r = Some (-1)
    \<and> holders (view T') \<lparr>m_type = ty, m_real_fd = r\<rparr> = {}
    \<and> (\<forall>m. m \<noteq> \<lparr>m_type = ty, m_real_fd = r\<rparr> \<longrightarrow> m \<noteq> unbound \<longrightarrow> holders (view T') m = holders (view T) m)"
proof -
  have v: "view T v = \<lparr>m_type = ty, m_real_fd = r\<rparr>" using assms(4) by (auto simp: holders_def)
  obtain T' where f: "release T v = Some (0, T')" "inv T'" "view T' = (view T)(v := unbound)"
    using release_law [OF assms(1) v assms(3,2)] assms(4) by auto
  have h: "holders (view T') \<lparr>m_type = ty, m_real_fd = r\<rparr> = {}"
    using f(3) assms(3,4) by (auto simp: holders_def fun_upd_def set_eq_iff)
  moreover have "holders (view T') m = holders (view T) m"
    if "m \<noteq> \<lparr>m_type = ty, m_real_fd = r\<rparr>" "m \<noteq> unbound" for m
    using f(3) v that by (auto simp: holders_def)
  ultimately show ?thesis
    using f find_none [OF f(2) assms(3,2) h] by blast
qed

text \<open>Releasing one of several holders reports a positive count, and the lookup finds another one.\<close>

lemma release_shared:
  assumes "inv T" "0 \<le> r" "ty \<noteq> kUnknown" "view T v = \<lparr>m_type = ty, m_real_fd = r\<rparr>"
    "view T u = \<lparr>m_type = ty, m_real_fd = r\<rparr>" "u \<noteq> v"
  shows "\<exists>c T' w. release T v = Some (c, T') \<and> 0 < c \<and> inv T' \<and> find_vfd T' ty r = Some w
    \<and> 0 \<le> w \<and> w \<noteq> v \<and> view T' w = \<lparr>m_type = ty, m_real_fd = r\<rparr>"
proof -
  let ?m = "\<lparr>m_type = ty, m_real_fd = r\<rparr>"
  obtain T' where f: "release T v = Some (int (card (holders (view T) ?m - {v})), T')"
    "inv T'" "view T' = (view T)(v := unbound)"
    using release_law [OF assms(1,4,3,2)] by blast
  have "u \<in> holders (view T) ?m - {v}" using assms(5,6) by (simp add: holders_def)
  moreover have "finite (holders (view T) ?m - {v})" using view_finite [of ?m T] assms(3) by simp
  ultimately have c: "0 < card (holders (view T) ?m - {v})" by (auto simp: card_gt_0_iff)
  have "view T' u = ?m" using f(3) assms(5,6) by simp
  then obtain w where w: "find_vfd T' ty r = Some w" "0 \<le> w" "view T' w = ?m"
    using find_some [OF f(2) assms(3,2)] by blast
  moreover have "w \<noteq> v" using w(3) f(3) assms(3) by auto
  ultimately show ?thesis using f(1,2) c by auto
qed

end

interpretation fd_tab: fd_tracker table_inv tab fd_alloc fd_free reverse_lookup
proof unfold_locales
  show "finite (holders (tab T) m)" if "m \<noteq> unbound" for T m
    using that by (rule finite_holders)
  show "\<exists>v T'. fd_alloc T ty r = Some (v, T') \<and> table_inv T' \<and> 0 \<le> v \<and> tab T v = unbound
      \<and> tab T' = (tab T)(v := \<lparr>m_type = ty, m_real_fd = r\<rparr>)"
    if "table_inv T" "0 \<le> r" for T ty r
    by (rule fd_alloc_spec [OF that, of ty]) blast
  show "\<exists>T'. fd_free T v = Some (int (card (holders (tab T) \<lparr>m_type = ty, m_real_fd = r\<rparr> - {v})), T')
      \<and> table_inv T' \<and> tab T' = (tab T)(v := unbound)"
    if "table_inv T" "tab T v = \<lparr>m_type = ty, m_real_fd = r\<rparr>" "ty \<noteq> kUnknown" "0 \<le> r" for T v ty r
    by (rule fd_free_spec [OF that]) blast
  show "\<exists>v. reverse_lookup T ty r = Some v
      \<and> (if holders (tab T) \<lparr>m_type = ty, m_real_fd = r\<rparr> = {} then v = -1
         else 0 \<le> v \<and> v \<in> holders (tab T) \<lparr>m_type = ty, m_real_fd = r\<rparr>)"
    if "table_inv T" "ty \<noteq> kUnknown" "0 \<le> r" for T ty r
    by (rule reverse_lookup_spec [OF that]) blast
qed


section \<open>Properties\<close>

text \<open>
  C10. From the fresh table, any sequence of \<^verbatim>\<open>alloc\<close>, \<^verbatim>\<open>dup\<close> and \<^verbatim>\<open>free\<close> calls, with any arguments,
  runs without an out-of-range access or an endless growth loop. In the table it reaches,
  \<^verbatim>\<open>live_count\<close> is the number of virtual fds in use, the reference count of every bound virtual fd
  is the number of virtual fds bound to the same resource, and \<^verbatim>\<open>reverse_lookup\<close> of a resource is
  -1 exactly when no virtual fd is bound to it and a bound virtual fd otherwise.
\<close>

theorem fd_table_sound:
  "\<exists>T. fd_run new_table ops = Some T
     \<and> live_count T = card {v. fd_lookup T v \<noteq> Some unbound}
     \<and> (\<forall>ty r. ty \<noteq> kUnknown \<longrightarrow> 0 \<le> r \<longrightarrow>
           (let H = {v. fd_lookup T v = Some \<lparr>m_type = ty, m_real_fd = r\<rparr>}
            in (\<forall>v\<in>H. refcount T v = Some (int (card H)))
               \<and> (if H = {} then reverse_lookup T ty r = Some (-1)
                  else (\<exists>v. v \<in> H \<and> reverse_lookup T ty r = Some v))))"
proof -
  have "dense new_table" by (simp add: dense_def new_table_def)
  from fd_run_ok [OF new_table_inv this] obtain T where
    T: "fd_run new_table ops = Some T" "table_inv T" "dense T" by blast
  have eq: "{v. fd_lookup T v = Some m} = holders (tab T) m" for m
    by (simp add: fd_lookup_tab holders_def)
  have res: "let H = {v. fd_lookup T v = Some \<lparr>m_type = ty, m_real_fd = r\<rparr>}
            in (\<forall>v\<in>H. refcount T v = Some (int (card H)))
               \<and> (if H = {} then reverse_lookup T ty r = Some (-1)
                  else (\<exists>v. v \<in> H \<and> reverse_lookup T ty r = Some v))"
    if "ty \<noteq> kUnknown" "0 \<le> r" for ty r
  proof -
    note h = that
    define H where "H = holders (tab T) \<lparr>m_type = ty, m_real_fd = r\<rparr>"
    obtain v where "reverse_lookup T ty r = Some v" "if H = {} then v = -1 else 0 \<le> v \<and> v \<in> H"
      using reverse_lookup_spec [OF T(2) h] H_def by metis
    moreover have "refcount T v = Some (int (card H))" if "v \<in> H" for v
      using refcount_spec [OF T(2) _ h] that by (simp add: H_def holders_def)
    ultimately show ?thesis unfolding eq Let_def H_def [symmetric] by simp
  qed
  have "live_count T = card {v. fd_lookup T v \<noteq> Some unbound}"
    using live_count_exact [OF T(2,3)] by (simp add: fd_lookup_tab)
  with T(1) res show ?thesis by blast
qed

text \<open>A socket that is allocated: whoever holds it, the reverse map agrees with the forward one.\<close>

theorem fd_table_sound_witness:
  "\<exists>T. fd_run new_table [Op_alloc kSocket 5] = Some T
     \<and> (let H = {v. fd_lookup T v = Some \<lparr>m_type = kSocket, m_real_fd = 5\<rparr>}
        in H \<noteq> {} \<and> (\<forall>v\<in>H. refcount T v = Some (int (card H)))
           \<and> (\<exists>v. v \<in> H \<and> reverse_lookup T kSocket 5 = Some v))"
proof -
  obtain T where T: "fd_run new_table [Op_alloc kSocket 5] = Some T"
    and H: "let H = {v. fd_lookup T v = Some \<lparr>m_type = kSocket, m_real_fd = 5\<rparr>}
      in (\<forall>v\<in>H. refcount T v = Some (int (card H)))
         \<and> (if H = {} then reverse_lookup T kSocket 5 = Some (-1)
            else (\<exists>v. v \<in> H \<and> reverse_lookup T kSocket 5 = Some v))"
    using fd_table_sound [of "[Op_alloc kSocket 5]"] by (elim exE conjE allE [of _ kSocket] allE [of _ 5]) simp
  have "fd_run new_table [Op_alloc kSocket 5] \<bind> (\<lambda>T. fd_lookup T 0) = Some \<lparr>m_type = kSocket, m_real_fd = 5\<rparr>"
    by code_simp
  then have ne: "{v. fd_lookup T v = Some \<lparr>m_type = kSocket, m_real_fd = 5\<rparr>} \<noteq> {}"
    unfolding T bind.simps by blast
  show ?thesis using H [unfolded Let_def if_not_P [OF ne]] ne T unfolding Let_def by blast
qed

text \<open>
  \<^verbatim>\<open>free\<close> of a bound virtual fd reports exactly how many other virtual fds still share its
  resource, so the caller, which closes the real fd when it reads 0, closes it exactly when the
  last holder is gone; the freed virtual fd becomes unbound and no other binding changes.
\<close>

theorem fd_free_reports_holders:
  assumes "table_inv T" "fd_lookup T v = Some \<lparr>m_type = ty, m_real_fd = r\<rparr>" "ty \<noteq> kUnknown" "0 \<le> r"
  shows "\<exists>T'. fd_free T v = Some (int (card {u. u \<noteq> v \<and> fd_lookup T u = fd_lookup T v}), T')
    \<and> table_inv T' \<and> fd_lookup T' = (fd_lookup T)(v := Some unbound)"
proof -
  have t: "tab T v = \<lparr>m_type = ty, m_real_fd = r\<rparr>" using assms(2) by (simp add: fd_lookup_tab)
  obtain T' where "fd_free T v = Some (int (card (holders (tab T) \<lparr>m_type = ty, m_real_fd = r\<rparr> - {v})), T')"
    "table_inv T'" "tab T' = (tab T)(v := unbound)"
    using fd_free_spec [OF assms(1) t assms(3,4)] by metis
  moreover have "holders (tab T) \<lparr>m_type = ty, m_real_fd = r\<rparr> - {v}
      = {u. u \<noteq> v \<and> fd_lookup T u = fd_lookup T v}"
    using t by (auto simp: holders_def fd_lookup_tab)
  ultimately show ?thesis by (auto simp: fd_lookup_tab fun_eq_iff)
qed

text \<open>
  \<^verbatim>\<open>dup_to\<close> of a bound virtual fd onto a target that is \<open>drop_safe\<close> returns the target's previous
  binding with the number of its remaining holders (-1 if it had none), points the target at the
  source's resource, changes no other binding and keeps the table consistent.
\<close>

theorem fd_dup_to_rebinds:
  assumes "table_inv T" "fd_lookup T u = Some m" "m_type m \<noteq> kUnknown" "0 \<le> m_real_fd m"
    "0 \<le> v" "u \<noteq> v" "drop_safe T v"
  shows "\<exists>T' prev. fd_lookup T v = Some prev
    \<and> fd_dup_to T u v = Some (Inr (prev,
        if m_type prev = kUnknown then -1 else int (card {w. w \<noteq> v \<and> fd_lookup T w = Some prev})), T')
    \<and> table_inv T' \<and> fd_lookup T' = (fd_lookup T)(v := Some m)"
proof -
  have mm: "\<lparr>m_type = m_type m, m_real_fd = m_real_fd m\<rparr> = m" by simp
  have m: "tab T u = \<lparr>m_type = m_type m, m_real_fd = m_real_fd m\<rparr>"
    using assms(2) by (simp add: fd_lookup_tab)
  obtain T' where a: "fd_dup_to T u v = Some (Inr (tab T v,
      if bound_vfd T v then int (card (holders (tab T) (tab T v) - {v})) else -1), T')"
    "table_inv T'" "tab T' = (tab T)(v := m)"
    by (rule fd_dup_to_spec [OF assms(1) m assms(3-7)]) (rule that, simp_all add: mm)
  have "m_type (tab T v) \<noteq> kUnknown \<Longrightarrow> bound_vfd T v"
    using assms(1) unfolding tab_bound_vfd table_inv_def slots_inv_def
    by (auto simp: tab_def split: if_splits)
  then have "bound_vfd T v \<longleftrightarrow> m_type (tab T v) \<noteq> kUnknown" by (auto simp: tab_bound_vfd)
  moreover have "holders (tab T) (tab T v) - {v} = {w. w \<noteq> v \<and> fd_lookup T w = Some (tab T v)}"
    by (auto simp: holders_def fd_lookup_tab)
  ultimately show ?thesis using a by (auto simp: fd_lookup_tab fun_eq_iff)
qed

section \<open>Witnesses and what the guard excludes\<close>

text \<open>
  Two virtual fds share the first resource, a third has another one. Virtual fd 0 is the reverse
  entry of the shared resource and the lowest one bound to it, so it is not \<open>drop_safe\<close>.
\<close>

definition shared_table :: FdRemapTable where
  "shared_table = the (fd_run new_table [Op_alloc kSocket 5, Op_dup 0, Op_alloc kSocket 9])"

lemma shared_table_inv: "table_inv shared_table"
proof -
  have "dense new_table" by (simp add: dense_def new_table_def)
  from fd_run_ok [OF new_table_inv this] show ?thesis
    unfolding shared_table_def by (metis option.sel)
qed

lemma shared_table_lookup:
  "map (fd_lookup shared_table) [0, 1, 2] = [Some \<lparr>m_type = kSocket, m_real_fd = 5\<rparr>,
     Some \<lparr>m_type = kSocket, m_real_fd = 5\<rparr>, Some \<lparr>m_type = kSocket, m_real_fd = 9\<rparr>]
   \<and> drop_safe shared_table 2 \<and> drop_safe shared_table 1 \<and> \<not> drop_safe shared_table 0"
  by code_simp

text \<open>
  Rebinding virtual fd 0 leaves \<^verbatim>\<open>reverse_lookup\<close> of the old resource at virtual fd 0, which is bound
  to the other resource by then: the scan of \<^verbatim>\<open>decref_locked\<close> runs before the overwrite.
\<close>

theorem dup_to_leaves_stale_reverse:
  "(case fd_dup_to shared_table 2 0 of
      Some (_, T) \<Rightarrow> (reverse_lookup T kSocket 5, fd_lookup T 0, fd_lookup T 1))
   = (Some 0, Some \<lparr>m_type = kSocket, m_real_fd = 9\<rparr>, Some \<lparr>m_type = kSocket, m_real_fd = 5\<rparr>)"
  by code_simp

text \<open>
  A freed virtual fd that \<^verbatim>\<open>dup_to\<close> binds stays on the free list, so the next \<^verbatim>\<open>alloc\<close> hands out a
  virtual fd that is in use.
\<close>

theorem dup_to_then_alloc_reuses_live_vfd:
  "(case fd_free shared_table 1 of
      Some (_, T) \<Rightarrow> (case fd_dup_to T 2 1 of
        Some (_, T1) \<Rightarrow> (fd_lookup T1 1, map_option fst (fd_alloc T1 kSocket 7))))
   = (Some \<lparr>m_type = kSocket, m_real_fd = 9\<rparr>, Some 1)"
  by code_simp

theorem fd_free_reports_holders_witness:
  "\<exists>T'. fd_free shared_table 0 = Some (int (card {u. u \<noteq> 0 \<and> fd_lookup shared_table u = fd_lookup shared_table 0}), T')
    \<and> table_inv T' \<and> fd_lookup T' = (fd_lookup shared_table)(0 := Some unbound)"
  using shared_table_lookup
  by (intro fd_free_reports_holders [where ty = kSocket and r = 5]) (auto simp: shared_table_inv)

theorem fd_dup_to_rebinds_witness:
  "\<exists>T' prev. fd_lookup shared_table 1 = Some prev
    \<and> fd_dup_to shared_table 2 1 = Some (Inr (prev,
        if m_type prev = kUnknown then -1 else int (card {w. w \<noteq> 1 \<and> fd_lookup shared_table w = Some prev})), T')
    \<and> table_inv T' \<and> fd_lookup T' = (fd_lookup shared_table)(1 := Some \<lparr>m_type = kSocket, m_real_fd = 9\<rparr>)"
  using shared_table_lookup
  by (intro fd_dup_to_rebinds) (auto simp: shared_table_inv)

end
