(* ===== verification/C_Strings.thy ===== *)
theory C_Strings
  imports SD_Prelude
begin

text \<open>
  The C string formatting and number parsing the sources use: digits of a number in a base, the
  zero-padded hexadecimal conversions of \<^verbatim>\<open>snprintf\<close>, decimal conversion of integers
  (\<^verbatim>\<open>std::to_string\<close>, \<^verbatim>\<open>%d\<close>), and the digit accumulation of the hand-written parsers, with the
  lemmas that a parser reads back what a conversion wrote.
\<close>

section \<open>Digits\<close>

fun digits :: "nat \<Rightarrow> nat \<Rightarrow> nat list" where
  "digits b n = (if b < 2 \<or> n < b then [n] else digits b (n div b) @ [n mod b])"

declare digits.simps [simp del]

definition digit_char :: "nat \<Rightarrow> char" where
  "digit_char d = (if d < 10 then char_of (48 + d) else char_of (87 + d))"

definition hexval :: "char \<Rightarrow> nat option" where
  "hexval h = (let c = of_char h in
     if 48 \<le> c \<and> c \<le> 57 then Some (c - 48)
     else if 97 \<le> c \<and> c \<le> 102 then Some (10 + (c - 97))
     else if 65 \<le> c \<and> c \<le> 70 then Some (10 + (c - 65))
     else None)"

fun hex_acc :: "nat \<Rightarrow> string \<Rightarrow> nat option" where
  "hex_acc v [] = Some v"
| "hex_acc v (h # hs) = hexval h \<bind> (\<lambda>d. hex_acc (v * 16 + d) hs)"

definition zero_pad :: "nat \<Rightarrow> string \<Rightarrow> string" where
  "zero_pad w s = replicate (w - length s) (CHR ''0'') @ s"

definition hex_str :: "nat \<Rightarrow> string" where
  "hex_str n = map digit_char (digits 16 n)"

definition dec_str :: "nat \<Rightarrow> string" where
  "dec_str n = map digit_char (digits 10 n)"

definition int_str :: "int \<Rightarrow> string" where
  "int_str i = (if i < 0 then CHR ''-'' # dec_str (nat (- i)) else dec_str (nat i))"

lemma digits_bound: "2 \<le> b \<Longrightarrow> d \<in> set (digits b n) \<Longrightarrow> d < b"
proof (induction b n rule: digits.induct)
  case (1 b n)
  then show ?case by (subst (asm) (2) digits.simps) (auto split: if_splits)
qed

lemma digits_not_Nil: "digits b n \<noteq> []"
  by (subst digits.simps) simp

lemma digits_length: "2 \<le> b \<Longrightarrow> n < b ^ k \<Longrightarrow> 0 < k \<Longrightarrow> length (digits b n) \<le> k"
proof (induction k arbitrary: n)
  case (Suc k)
  show ?case
  proof (cases "n < b")
    case True
    then show ?thesis by (subst digits.simps) simp
  next
    case False
    then have "0 < k" using Suc.prems(2) by (cases k) auto
    moreover have "n div b < b ^ k"
      using Suc.prems(1,2) by (simp add: less_mult_imp_div_less mult.commute)
    ultimately have "length (digits b (n div b)) \<le> k" using Suc.IH Suc.prems(1) by blast
    with False Suc.prems(1) show ?thesis by (subst digits.simps) simp
  qed
qed simp

lemma digits_value: "2 \<le> b \<Longrightarrow> foldl (\<lambda>v d. v * b + d) 0 (digits b n) = n"
proof (induction b n rule: digits.induct)
  case (1 b n)
  then show ?case by (subst digits.simps) auto
qed

lemma of_char_digit: "d < 16 \<Longrightarrow> of_char (digit_char d) = (if d < 10 then 48 + d else 87 + d)"
  by (simp add: digit_char_def)

lemma hexval_digit [codec_simps]: "d < 16 \<Longrightarrow> hexval (digit_char d) = Some d"
  by (simp add: hexval_def of_char_digit)

lemma hex_acc_digits: "(\<And>d. d \<in> set ds \<Longrightarrow> d < 16) \<Longrightarrow>
    hex_acc v (map digit_char ds) = Some (foldl (\<lambda>v d. v * 16 + d) v ds)"
  by (induction ds arbitrary: v) (auto simp: hexval_digit)

lemma hex_acc_append: "hex_acc v (xs @ ys) = hex_acc v xs \<bind> (\<lambda>w. hex_acc w ys)"
  by (induction xs arbitrary: v) (auto split: Option.bind_splits)

lemma hex_acc_zeros: "hex_acc 0 (replicate n (CHR ''0'')) = Some 0"
  by (induction n) (auto simp: hexval_def)

text \<open>A hexadecimal parser reads back what \<^verbatim>\<open>%0<w>x\<close> printed.\<close>

lemma hex_acc_str [codec_simps]: "hex_acc 0 (zero_pad w (hex_str n)) = Some n"
  by (simp add: zero_pad_def hex_str_def hex_acc_append hex_acc_zeros hex_acc_digits digits_bound digits_value)

lemma zero_pad_length: "length (zero_pad w s) = max w (length s)"
  by (simp add: zero_pad_def)

lemma hex_str_length: "n < 16 ^ w \<Longrightarrow> 0 < w \<Longrightarrow> length (zero_pad w (hex_str n)) = w"
  using digits_length [of 16 n w] by (simp add: zero_pad_length hex_str_def)

lemma digit_char_printable: "d < 16 \<Longrightarrow> of_char (digit_char d) \<in> {48..57} \<union> {97..(102::nat)}"
  by (simp add: of_char_digit)


section \<open>strtol and strtoull\<close>

text \<open>
  Base 10: leading white space, an optional sign, then as many digits as there are. Without a digit
  the result is 0 and nothing is consumed; a value out of range is clamped. A C string ends at
  the first NUL. The second component is the text at the end pointer.
\<close>

definition c_str :: "string \<Rightarrow> string" where
  "c_str s = takeWhile (\<lambda>c. c \<noteq> CHR 0x00) s"

definition isspace :: "char \<Rightarrow> bool" where
  "isspace c \<longleftrightarrow> c = CHR '' '' \<or> (9 \<le> (of_char c :: nat) \<and> (of_char c :: nat) \<le> 13)"

definition isdigit :: "char \<Rightarrow> bool" where
  "isdigit c \<longleftrightarrow> 48 \<le> (of_char c :: nat) \<and> (of_char c :: nat) \<le> 57"

fun dec_acc :: "nat \<Rightarrow> string \<Rightarrow> nat \<times> string" where
  "dec_acc v [] = (v, [])"
| "dec_acc v (c # s) = (if isdigit c then dec_acc (v * 10 + (of_char c - 48)) s else (v, c # s))"

fun strip_sign :: "string \<Rightarrow> bool \<times> string" where
  "strip_sign (c # s) =
     (if c = CHR ''-'' then (True, s) else if c = CHR ''+'' then (False, s) else (False, c # s))"
| "strip_sign [] = (False, [])"

definition starts_digit :: "string \<Rightarrow> bool" where
  "starts_digit s \<longleftrightarrow> (case s of [] \<Rightarrow> False | c # _ \<Rightarrow> isdigit c)"

definition strto :: "(bool \<Rightarrow> nat \<Rightarrow> 'v) \<Rightarrow> string \<Rightarrow> 'v \<times> string" where
  "strto clamp str =
     (let s = c_str str; (neg, s2) = strip_sign (dropWhile isspace s)
      in if starts_digit s2 then (let (v, rest) = dec_acc 0 s2 in (clamp neg v, rest))
         else (clamp False 0, s))"

definition strtoull :: "string \<Rightarrow> u64 \<times> string" where
  "strtoull = strto (\<lambda>neg v. if v \<ge> 2 ^ 64 then -1 else if neg then - of_nat v else of_nat v)"

definition strtol :: "string \<Rightarrow> int \<times> string" where
  "strtol = strto (\<lambda>neg v. if neg then max (- (2 ^ 63)) (- int v) else min (2 ^ 63 - 1) (int v))"

lemma isdigit_digit: "d < 10 \<Longrightarrow> isdigit (digit_char d)"
  by (simp add: isdigit_def of_char_digit)

lemma dec_acc_digits:
  assumes "\<And>d. d \<in> set ds \<Longrightarrow> d < 10" "\<not> starts_digit rest"
  shows "dec_acc v (map digit_char ds @ rest) = (foldl (\<lambda>v d. v * 10 + d) v ds, rest)"
  using assms
proof (induction ds arbitrary: v)
  case Nil
  then show ?case by (cases rest) (auto simp: starts_digit_def)
next
  case (Cons d ds)
  then have "d < 10" by simp
  then have "of_char (digit_char d) - 48 = d" "isdigit (digit_char d)"
    by (simp_all add: of_char_digit isdigit_digit)
  then show ?case using Cons by simp
qed

lemma dec_str_not_Nil: "dec_str n \<noteq> []"
  by (simp add: dec_str_def digits_not_Nil)

lemma dec_str_digits: "c \<in> set (dec_str n) \<Longrightarrow> isdigit c"
  by (auto simp: dec_str_def isdigit_digit digits_bound)

lemma not_isdigit: "\<not> isdigit (CHR 0x00)" "\<not> isdigit (CHR ''-'')" "\<not> isdigit (CHR ''+'')"
    "\<not> isdigit (CHR '' '')" "\<not> isdigit (CHR ''.'')" "\<not> isdigit (CHR '':'')" "\<not> isdigit (CHR 0x0A)"
  by (simp_all add: isdigit_def)

lemma isdigit_not_space: "isdigit c \<Longrightarrow> \<not> isspace c"
  by (auto simp: isdigit_def isspace_def)

text \<open>Both parsers read back a printed number, up to the range of their type.\<close>

lemma strto_dec_str:
  assumes "\<not> starts_digit (c_str rest)"
  shows "strto clamp (dec_str n @ rest) = (clamp False n, c_str rest)"
proof -
  have "c_str (dec_str n @ rest) = dec_str n @ c_str rest"
    unfolding c_str_def using dec_str_digits [of _ n] not_isdigit(1)
    by (intro takeWhile_append2) auto
  moreover obtain c s where c: "dec_str n = c # s" using dec_str_not_Nil [of n] by (cases "dec_str n") auto
  moreover from c have d: "isdigit c" using dec_str_digits [of c n] by simp
  moreover have "dec_acc 0 (dec_str n @ c_str rest) = (n, c_str rest)"
    using assms dec_acc_digits [of "digits 10 n" "c_str rest" 0]
    by (simp add: dec_str_def digits_bound digits_value)
  ultimately show ?thesis
    using not_isdigit(2,3) isdigit_not_space [OF d]
    by (auto simp: strto_def Let_def starts_digit_def)
qed

lemma strtoull_dec_str [codec_simps]:
  "n < 2 ^ 64 \<Longrightarrow> \<not> starts_digit (c_str rest) \<Longrightarrow> strtoull (dec_str n @ rest) = (of_nat n, c_str rest)"
  by (simp add: strtoull_def strto_dec_str)

lemma strtol_dec_str [codec_simps]:
  "n < 2 ^ 63 \<Longrightarrow> \<not> starts_digit (c_str rest) \<Longrightarrow> strtol (dec_str n @ rest) = (int n, c_str rest)"
  by (simp add: strtol_def strto_dec_str min_def)

end
