(* ===== verification/Monitor_Ipc.thy ===== *)
theory Monitor_Ipc
  imports C_Strings "HOL-Library.Sublist"
begin

text \<open>
  The control-plane wire protocol of \<^verbatim>\<open>include/socksdirect/monitor_ipc.hpp\<close>: the hand-written JSON
  encoder and parser, the request and response codecs, and the line and socket helpers. A parser
  position is the text that is left. Bytes are \<^typ>\<open>char\<close>. The results of \<^verbatim>\<open>read\<close>, \<^verbatim>\<open>write\<close>,
  \<^verbatim>\<open>socket\<close>, \<^verbatim>\<open>connect\<close>, \<^verbatim>\<open>bind\<close> and \<^verbatim>\<open>listen\<close> are arguments.
\<close>

definition kMonitorCtlSocketDefault :: string where
  "kMonitorCtlSocketDefault = ''/run/socksdirect/control.sock''"

record CtlRequest =
  req_op :: string
  req_args :: "string list"

record CtlResponse =
  resp_ok :: bool
  resp_lines :: "string list"
  resp_error :: string

abbreviation quote :: char where "quote \<equiv> CHR 0x22"
abbreviation bslash :: char where "bslash \<equiv> CHR 0x5C"
abbreviation newline :: char where "newline \<equiv> CHR 0x0A"
abbreviation creturn :: char where "creturn \<equiv> CHR 0x0D"
abbreviation tab_char :: char where "tab_char \<equiv> CHR 0x09"


section \<open>Encoder\<close>

definition json_escape_char :: "char \<Rightarrow> string" where
  "json_escape_char c =
     (if c = bslash then [bslash, bslash]
      else if c = quote then [bslash, quote]
      else if c = newline then [bslash, CHR ''n'']
      else if c = creturn then [bslash, CHR ''r'']
      else if c = tab_char then [bslash, CHR ''t'']
      else if of_char c < (0x20 :: nat) then [bslash, CHR ''u''] @ zero_pad 4 (hex_str (of_char c))
      else [c])"

definition json_escape :: "string \<Rightarrow> string" where
  "json_escape s = [quote] @ concat (map json_escape_char s) @ [quote]"

fun json_join :: "bool \<Rightarrow> string list \<Rightarrow> string" where
  "json_join first [] = []"
| "json_join first (a # as) = (if first then [] else '','') @ json_escape a @ json_join False as"

definition lbrace :: string where
  "lbrace = [CHR 0x7B]"

definition encode_request :: "CtlRequest \<Rightarrow> string" where
  "encode_request req =
     lbrace @ [quote] @ ''op'' @ [quote] @ '':'' @ json_escape (req_op req)
     @ '','' @ [quote] @ ''args'' @ [quote] @ '':['' @ json_join True (req_args req) @ '']}'' @ [newline]"

definition encode_response :: "CtlResponse \<Rightarrow> string" where
  "encode_response resp =
     (if resp_ok resp
      then lbrace @ [quote] @ ''ok'' @ [quote] @ '':true,'' @ [quote] @ ''lines'' @ [quote] @ '':[''
           @ json_join True (resp_lines resp) @ '']}'' @ [newline]
      else lbrace @ [quote] @ ''ok'' @ [quote] @ '':false,'' @ [quote] @ ''error'' @ [quote] @ '':''
           @ json_escape (resp_error resp) @ ''}'' @ [newline])"


section \<open>Parser\<close>

fun skip_ws :: "string \<Rightarrow> string" where
  "skip_ws [] = []"
| "skip_ws (c # s) =
     (if c = CHR '' '' \<or> c = tab_char \<or> c = newline \<or> c = creturn then skip_ws s else c # s)"

text \<open>The UTF-8 bytes the parser emits for \<^verbatim>\<open>\u\<close> escapes.\<close>

definition utf8_bytes :: "nat \<Rightarrow> string" where
  "utf8_bytes v =
     (if v < 0x80 then [char_of v]
      else if v < 0x800 then [char_of (0xC0 OR drop_bit 6 v), char_of (0x80 OR (v AND 0x3F))]
      else [char_of (0xE0 OR drop_bit 12 v), char_of (0x80 OR (drop_bit 6 v AND 0x3F)),
            char_of (0x80 OR (v AND 0x3F))])"

definition simple_escape :: "char \<Rightarrow> char option" where
  "simple_escape e =
     (if e = quote then Some quote else if e = bslash then Some bslash
      else if e = CHR ''/'' then Some (CHR ''/'') else if e = CHR ''n'' then Some newline
      else if e = CHR ''r'' then Some creturn else if e = CHR ''t'' then Some tab_char
      else if e = CHR ''b'' then Some (CHR 0x08) else if e = CHR ''f'' then Some (CHR 0x0C)
      else None)"

function parse_chars :: "string \<Rightarrow> string \<Rightarrow> (string \<times> string) option" where
  "parse_chars out [] = None"
| "parse_chars out (c # s) =
     (if c = quote then Some (out, s)
      else if c = bslash then
        (case s of [] \<Rightarrow> None
         | e # s' \<Rightarrow>
             if e = CHR ''u'' then
               (if length s' < 4 then None
                else hex_acc 0 (take 4 s') \<bind> (\<lambda>v. parse_chars (out @ utf8_bytes v) (drop 4 s')))
             else simple_escape e \<bind> (\<lambda>x. parse_chars (out @ [x]) s'))
      else parse_chars (out @ [c]) s)"
  by pat_completeness auto
termination by (relation "measure (\<lambda>(_, s). length s)") auto

definition parse_string :: "string \<Rightarrow> (string \<times> string) option" where
  "parse_string s = (case s of [] \<Rightarrow> None | c # s' \<Rightarrow> if c \<noteq> quote then None else parse_chars [] s')"

declare parse_chars.simps(2) [simp del]

lemma parse_chars_shrinks: "parse_chars out s = Some (r, rest) \<Longrightarrow> length rest < length s"
proof (induction "length s" arbitrary: out s rule: less_induct)
  case less
  have step: "length rest < length s" if "length s' < length s" "parse_chars out' s' = Some (r, rest)" for out' s'
    using less.hyps [OF that] that(1) by simp
  show ?case
  proof (cases s)
    case (Cons c s1)
    show ?thesis
    proof (cases "c = bslash")
      case True
      with less.prems Cons obtain e s2 where "s1 = e # s2"
        by (auto simp: parse_chars.simps(2) split: list.splits)
      with less.prems Cons True obtain out' s' where "length s' < length s" "parse_chars out' s' = Some (r, rest)"
        by (auto simp: parse_chars.simps(2) split: if_splits Option.bind_splits) force+
      then show ?thesis by (rule step)
    next
      case False
      with less.prems Cons step [of s1 "out @ [c]"] show ?thesis
        by (auto simp: parse_chars.simps(2) split: if_splits)
    qed
  qed (use less.prems in simp)
qed

lemma parse_string_shrinks: "parse_string s = Some (r, rest) \<Longrightarrow> length rest < length s"
  by (auto simp: parse_string_def split: list.splits if_splits dest: parse_chars_shrinks)

lemma skip_ws_length: "length (skip_ws s) \<le> length s"
  by (induction s) auto

function parse_items :: "string list \<Rightarrow> string \<Rightarrow> (string list \<times> string) option" where
  "parse_items out s =
     (case parse_string (skip_ws s) of None \<Rightarrow> None
      | Some (tmp, s1) \<Rightarrow>
          (case skip_ws s1 of [] \<Rightarrow> None
           | c # s2 \<Rightarrow> if c = CHR '','' then parse_items (out @ [tmp]) s2
                      else if c = CHR '']'' then Some (out @ [tmp], s2) else None))"
  by pat_completeness auto
termination
proof (relation "measure (\<lambda>(_, s). length s)", goal_cases)
  case (2 out s p tmp s1 c s2)
  have "length (skip_ws s1) \<le> length s1" by (rule skip_ws_length)
  moreover have "length s1 < length s"
    using parse_string_shrinks [of "skip_ws s" tmp s1] skip_ws_length [of s] 2 by simp
  ultimately show ?case using 2 by simp
qed simp

declare parse_items.simps [simp del]

definition parse_string_array :: "string \<Rightarrow> (string list \<times> string) option" where
  "parse_string_array s =
     (case skip_ws s of [] \<Rightarrow> None
      | c # s1 \<Rightarrow> if c \<noteq> CHR ''['' then None
                 else (let s2 = skip_ws s1
                       in case s2 of c2 # s3 \<Rightarrow> if c2 = CHR '']'' then Some ([], s3) else parse_items [] s2
                          | [] \<Rightarrow> parse_items [] s2))"


section \<open>Decoders\<close>

text \<open>
  \<open>parse_member\<close> is the part of one object member both decoders share: the key, the colon and
  the white space around them. \<open>after_member\<close> is what follows its value: \<open>True\<close> after a comma,
  \<open>False\<close> after the closing brace.
\<close>

definition parse_member :: "string \<Rightarrow> (string \<times> string) option" where
  "parse_member s =
     (case parse_string s of None \<Rightarrow> None
      | Some (key, s1) \<Rightarrow>
          (case skip_ws s1 of [] \<Rightarrow> None
           | c # s2 \<Rightarrow> if c \<noteq> CHR '':'' then None else Some (key, skip_ws s2)))"

definition after_member :: "string \<Rightarrow> (bool \<times> string) option" where
  "after_member s =
     (case skip_ws s of [] \<Rightarrow> None
      | c # s1 \<Rightarrow> if c = CHR '','' then Some (True, s1)
                 else if c = CHR ''}'' then Some (False, s1) else None)"

definition skip_string_or_array :: "string \<Rightarrow> string option" where
  "skip_string_or_array s =
     (case s of [] \<Rightarrow> None
      | c # _ \<Rightarrow> if c = quote then map_option snd (parse_string s)
                else if c = CHR ''['' then map_option snd (parse_string_array s) else None)"

definition request_value :: "string \<Rightarrow> CtlRequest \<times> bool \<times> bool \<Rightarrow> string
    \<Rightarrow> ((CtlRequest \<times> bool \<times> bool) \<times> string) option" where
  "request_value key st s =
     (case st of (out, got_op, got_args) \<Rightarrow>
        if key = ''op'' then map_option (\<lambda>(v, r). ((out\<lparr>req_op := v\<rparr>, True, got_args), r)) (parse_string s)
        else if key = ''args''
        then map_option (\<lambda>(v, r). ((out\<lparr>req_args := v\<rparr>, got_op, True), r)) (parse_string_array s)
        else map_option (\<lambda>r. (st, r)) (skip_string_or_array s))"

definition request_done :: "CtlRequest \<times> bool \<times> bool \<Rightarrow> CtlRequest option" where
  "request_done st = (case st of (out, got_op, got_args) \<Rightarrow> if got_op \<and> got_args then Some out else None)"

text \<open>One value of a response: the literals \<^verbatim>\<open>true\<close>, \<^verbatim>\<open>false\<close> and \<^verbatim>\<open>null\<close> are compared as prefixes.\<close>

definition eat :: "string \<Rightarrow> string \<Rightarrow> string option" where
  "eat lit s = (if take (length lit) s = lit then Some (drop (length lit) s) else None)"

definition response_value :: "string \<Rightarrow> CtlResponse \<times> bool \<Rightarrow> string
    \<Rightarrow> ((CtlResponse \<times> bool) \<times> string) option" where
  "response_value key st s =
     (case st of (out, got_ok) \<Rightarrow>
        if key = ''ok'' then
          (case eat ''true'' s of Some r \<Rightarrow> Some ((out\<lparr>resp_ok := True\<rparr>, True), r)
           | None \<Rightarrow> (case eat ''false'' s of Some r \<Rightarrow> Some ((out\<lparr>resp_ok := False\<rparr>, True), r)
                      | None \<Rightarrow> None))
        else if key = ''lines''
        then map_option (\<lambda>(v, r). ((out\<lparr>resp_lines := v\<rparr>, got_ok), r)) (parse_string_array s)
        else if key = ''error''
        then map_option (\<lambda>(v, r). ((out\<lparr>resp_error := v\<rparr>, got_ok), r)) (parse_string s)
        else (case s of
            c # _ \<Rightarrow> (if c = quote \<or> c = CHR ''['' then map_option (\<lambda>r. (st, r)) (skip_string_or_array s)
                     else (case eat ''true'' s of Some r \<Rightarrow> Some (st, r)
                       | None \<Rightarrow> (case eat ''false'' s of Some r \<Rightarrow> Some (st, r)
                         | None \<Rightarrow> map_option (\<lambda>r. (st, r)) (eat ''null'' s))))
          | [] \<Rightarrow> None))"

definition response_done :: "CtlResponse \<times> bool \<Rightarrow> CtlResponse option" where
  "response_done st = (case st of (out, got_ok) \<Rightarrow> if got_ok then Some out else None)"

lemma after_member_shrinks: "after_member s = Some (b, r) \<Longrightarrow> length r < length s"
  using skip_ws_length [of s] by (auto simp: after_member_def split: list.splits if_splits)

lemma parse_member_shrinks: "parse_member s = Some (k, r) \<Longrightarrow> length r < length s"
proof -
  assume "parse_member s = Some (k, r)"
  then obtain s1 s2 where "parse_string s = Some (k, s1)" "skip_ws s1 = CHR '':'' # s2" "r = skip_ws s2"
    by (auto simp: parse_member_def split: option.splits list.splits if_splits)
  then show ?thesis
    using parse_string_shrinks [of s k s1] skip_ws_length [of s1] skip_ws_length [of s2] by simp
qed

lemma parse_items_shrinks: "parse_items out s = Some (r, rest) \<Longrightarrow> length rest < length s"
proof (induction out s rule: parse_items.induct)
  case (1 out s)
  from 1(2) obtain tmp s1 c s2 where p: "parse_string (skip_ws s) = Some (tmp, s1)"
    "skip_ws s1 = c # s2" "(if c = CHR '','' then parse_items (out @ [tmp]) s2
       else if c = CHR '']'' then Some (out @ [tmp], s2) else None) = Some (r, rest)"
    by (subst (asm) parse_items.simps) (auto split: option.splits list.splits)
  have "length s2 < length s"
    using parse_string_shrinks [OF p(1)] skip_ws_length [of s] skip_ws_length [of s1] p(2) by simp
  with 1(1) [OF p(1) refl p(2)] p(3) show ?case by (auto split: if_splits)
qed

lemma parse_string_array_shrinks: "parse_string_array s = Some (r, rest) \<Longrightarrow> length rest < length s"
proof -
  assume a: "parse_string_array s = Some (r, rest)"
  then obtain s1 where "skip_ws s = CHR ''['' # s1"
    by (auto simp: parse_string_array_def split: list.splits if_splits)
  moreover from this a have "length rest \<le> length (skip_ws s1)"
    by (auto simp: parse_string_array_def Let_def split: list.splits if_splits dest!: parse_items_shrinks)
  ultimately show ?thesis using skip_ws_length [of s] skip_ws_length [of s1] by simp
qed

lemma skip_string_or_array_shrinks: "skip_string_or_array s = Some r \<Longrightarrow> length r < length s"
  by (auto simp: skip_string_or_array_def split: list.splits if_splits
      dest: parse_string_shrinks parse_string_array_shrinks)

lemma request_value_shrinks: "request_value key st s = Some (st', r) \<Longrightarrow> length r < length s"
  by (auto simp: request_value_def split: if_splits prod.splits
      dest: parse_string_shrinks parse_string_array_shrinks skip_string_or_array_shrinks)

lemma eat_le: "eat lit s = Some r \<Longrightarrow> length r \<le> length s"
  by (auto simp: eat_def split: if_splits)

lemma response_value_shrinks: "response_value key st s = Some (st', r) \<Longrightarrow> length r \<le> length s"
  by (auto simp: response_value_def split: if_splits prod.splits option.splits list.splits
      dest: eat_le parse_string_shrinks parse_string_array_shrinks skip_string_or_array_shrinks)

function request_loop :: "CtlRequest \<times> bool \<times> bool \<Rightarrow> string \<Rightarrow> CtlRequest option" where
  "request_loop st s =
     (if s = [] then request_done st
      else (case skip_ws s of [] \<Rightarrow> None
        | c # _ \<Rightarrow>
          if c = CHR ''}'' then request_done st
          else (case parse_member (skip_ws s) of None \<Rightarrow> None
            | Some (key, s1) \<Rightarrow>
              (case request_value key st s1 of None \<Rightarrow> None
               | Some (st', s2) \<Rightarrow>
                 (case after_member s2 of None \<Rightarrow> None
                  | Some (again, s3) \<Rightarrow> if again then request_loop st' s3 else request_done st')))))"
  by pat_completeness auto
termination
proof (relation "measure (\<lambda>(_, s). length s)", goal_cases)
  case (2 st s c cs km key s1 vs st' s2 am again s3)
  then show ?case
    using skip_ws_length [of s] parse_member_shrinks [of "skip_ws s" key s1]
      request_value_shrinks [of key st s1 st' s2] after_member_shrinks [of s2 again s3] by auto
qed simp

declare request_loop.simps [simp del]

function response_loop :: "CtlResponse \<times> bool \<Rightarrow> string \<Rightarrow> CtlResponse option" where
  "response_loop st s =
     (if s = [] then response_done st
      else (case skip_ws s of [] \<Rightarrow> None
        | c # _ \<Rightarrow>
          if c = CHR ''}'' then response_done st
          else (case parse_member (skip_ws s) of None \<Rightarrow> None
            | Some (key, s1) \<Rightarrow>
              (case response_value key st s1 of None \<Rightarrow> None
               | Some (st', s2) \<Rightarrow>
                 (case after_member s2 of None \<Rightarrow> None
                  | Some (again, s3) \<Rightarrow> if again then response_loop st' s3 else response_done st')))))"
  by pat_completeness auto
termination
proof (relation "measure (\<lambda>(_, s). length s)", goal_cases)
  case (2 st s c cs km key s1 vs st' s2 am again s3)
  then show ?case
    using skip_ws_length [of s] parse_member_shrinks [of "skip_ws s" key s1]
      response_value_shrinks [of key st s1 st' s2] after_member_shrinks [of s2 again s3] by auto
qed simp

declare response_loop.simps [simp del]

definition strip_eol :: "string \<Rightarrow> string" where
  "strip_eol s_in =
     (let s = (if s_in \<noteq> [] \<and> last s_in = newline then butlast s_in else s_in)
      in if s \<noteq> [] \<and> last s = creturn then butlast s else s)"

definition decode_request :: "string \<Rightarrow> CtlRequest option" where
  "decode_request s_in =
     (case skip_ws (strip_eol s_in) of [] \<Rightarrow> None
      | c # s \<Rightarrow> if [c] \<noteq> lbrace then None
                else request_loop (\<lparr>req_op = [], req_args = []\<rparr>, False, False) s)"

definition decode_response :: "string \<Rightarrow> CtlResponse option" where
  "decode_response s_in =
     (case skip_ws (strip_eol s_in) of [] \<Rightarrow> None
      | c # s \<Rightarrow> if [c] \<noteq> lbrace then None
                else response_loop (\<lparr>resp_ok = False, resp_lines = [], resp_error = []\<rparr>, False) s)"


section \<open>Round trips\<close>

lemma parse_chars_escape_char: "parse_chars out (json_escape_char c @ t) = parse_chars (out @ [c]) t"
proof (cases "of_char c < (0x20::nat) \<and> c \<noteq> newline \<and> c \<noteq> creturn \<and> c \<noteq> tab_char")
  case True
  define h where "h = zero_pad 4 (hex_str (of_char c))"
  have len: "length h = 4" using True by (simp add: h_def hex_str_length)
  have "c \<noteq> bslash" "c \<noteq> quote" using True by auto
  with True have e: "json_escape_char c = [bslash, CHR ''u''] @ h"
    by (simp add: json_escape_char_def h_def)
  have "hex_acc 0 (take 4 (h @ t)) = Some (of_char c)" using len by (simp add: h_def hex_acc_str)
  moreover have "utf8_bytes (of_char c) = [c]" using True by (simp add: utf8_bytes_def)
  ultimately show ?thesis using len by (simp add: e parse_chars.simps(2))
next
  case False
  then show ?thesis
    by (auto simp: json_escape_char_def parse_chars.simps(2) simple_escape_def)
qed

lemma parse_chars_escape:
  "parse_chars out (concat (map json_escape_char s) @ quote # rest) = Some (out @ s, rest)"
proof (induction s arbitrary: out)
  case Nil
  show ?case by (simp add: parse_chars.simps(2) [of _ quote])
next
  case (Cons c s)
  then show ?case by (simp add: parse_chars_escape_char)
qed

lemma parse_string_escape [codec_simps]: "parse_string (json_escape s @ rest) = Some (s, rest)"
  by (simp add: parse_string_def json_escape_def parse_chars_escape)

lemma json_escape_Cons: "\<exists>t. json_escape s = quote # t"
  by (simp add: json_escape_def)

lemma skip_ws_escape [codec_simps]: "skip_ws (json_escape s @ rest) = json_escape s @ rest"
  using json_escape_Cons [of s] by auto

lemma parse_items_join:
  "parse_items out (json_join True (a # as) @ CHR '']'' # rest) = Some (out @ a # as, rest)"
proof (induction as arbitrary: out a)
  case Nil
  show ?case by (subst parse_items.simps) (simp add: codec_simps)
next
  case (Cons b as)
  have "json_join True (a # b # as) @ CHR '']'' # rest
      = json_escape a @ CHR '','' # json_join True (b # as) @ CHR '']'' # rest" by simp
  then show ?case
    using Cons [of "out @ [a]" b] by (subst parse_items.simps) (simp add: codec_simps)
qed

lemma parse_string_array_join [codec_simps]:
  "parse_string_array (CHR ''['' # json_join True as @ CHR '']'' # rest) = Some (as, rest)"
proof (cases as)
  case Nil
  then show ?thesis by (simp add: parse_string_array_def)
next
  case (Cons a bs)
  then show ?thesis
    using parse_items_join [of "[]" a bs rest] json_escape_Cons [of a]
    by (auto simp: parse_string_array_def)
qed

lemma json_escape_char_plain:
  "k \<noteq> quote \<Longrightarrow> k \<noteq> bslash \<Longrightarrow> 0x20 \<le> (of_char k :: nat) \<Longrightarrow> json_escape_char k = [k]"
  by (auto simp: json_escape_char_def)

lemma parse_member_key:
  "parse_member (quote # key @ quote # CHR '':'' # c # rest) = Some (key, c # rest)"
  if "\<forall>k \<in> set key. k \<noteq> quote \<and> k \<noteq> bslash \<and> 0x20 \<le> (of_char k :: nat)"
    "\<not> (c = CHR '' '' \<or> c = tab_char \<or> c = newline \<or> c = creturn)"
proof -
  have "concat (map json_escape_char key) = key"
    using that(1) by (induction key) (simp_all add: json_escape_char_plain)
  then have e: "quote # key @ quote # CHR '':'' # c # rest = json_escape key @ CHR '':'' # c # rest"
    by (simp add: json_escape_def)
  show ?thesis unfolding e parse_member_def parse_string_escape using that(2) by simp
qed

lemma strip_eol_line: "last s \<noteq> creturn \<Longrightarrow> s \<noteq> [] \<Longrightarrow> strip_eol (s @ [newline]) = s"
  by (simp add: strip_eol_def)

lemma strip_eol_bare: "last s \<noteq> creturn \<Longrightarrow> last s \<noteq> newline \<Longrightarrow> strip_eol s = s"
  by (simp add: strip_eol_def)

lemma decode_request_body:
  "request_loop (\<lparr>req_op = [], req_args = []\<rparr>, False, False)
     ([quote] @ ''op'' @ [quote] @ '':'' @ json_escape (req_op req)
      @ '','' @ [quote] @ ''args'' @ [quote] @ '':['' @ json_join True (req_args req) @ '']}'') = Some req"
proof -
  obtain t where t: "json_escape (req_op req) = quote # t" using json_escape_Cons by blast
  have m1: "parse_member (quote # ''op'' @ quote # CHR '':'' # json_escape (req_op req) @ r)
      = Some (''op'', json_escape (req_op req) @ r)" for r
    unfolding t using parse_member_key [of "''op''" quote "t @ r"] by simp
  have m2: "parse_member (quote # ''args'' @ quote # CHR '':'' # CHR ''['' # r) = Some (''args'', CHR ''['' # r)" for r
    by (rule parse_member_key) simp_all
  show ?thesis
    using m1 m2
    by (subst request_loop.simps, simp add: request_value_def codec_simps after_member_def,
        subst request_loop.simps, simp add: request_value_def codec_simps after_member_def request_done_def)
qed


lemma decode_response_ok_body:
  "response_loop (\<lparr>resp_ok = False, resp_lines = [], resp_error = []\<rparr>, False)
     ([quote] @ ''ok'' @ [quote] @ '':true,'' @ [quote] @ ''lines'' @ [quote] @ '':['' @ json_join True ls @ '']}'')
   = Some \<lparr>resp_ok = True, resp_lines = ls, resp_error = []\<rparr>"
proof -
  have m1: "parse_member (quote # ''ok'' @ quote # CHR '':'' # CHR ''t'' # r) = Some (''ok'', CHR ''t'' # r)" for r
    by (rule parse_member_key) simp_all
  have m2: "parse_member (quote # ''lines'' @ quote # CHR '':'' # CHR ''['' # r) = Some (''lines'', CHR ''['' # r)" for r
    by (rule parse_member_key) simp_all
  show ?thesis
    using m1 m2
    by (subst response_loop.simps, simp add: response_value_def eat_def codec_simps after_member_def,
        subst response_loop.simps, simp add: response_value_def codec_simps after_member_def response_done_def)
qed

lemma decode_response_error_body:
  "response_loop (\<lparr>resp_ok = False, resp_lines = [], resp_error = []\<rparr>, False)
     ([quote] @ ''ok'' @ [quote] @ '':false,'' @ [quote] @ ''error'' @ [quote] @ '':'' @ json_escape e @ ''}'')
   = Some \<lparr>resp_ok = False, resp_lines = [], resp_error = e\<rparr>"
proof -
  obtain t where t: "json_escape e = quote # t" using json_escape_Cons by blast
  have m1: "parse_member (quote # ''ok'' @ quote # CHR '':'' # CHR ''f'' # r) = Some (''ok'', CHR ''f'' # r)" for r
    by (rule parse_member_key) simp_all
  have m2: "parse_member (quote # ''error'' @ quote # CHR '':'' # json_escape e @ r)
      = Some (''error'', json_escape e @ r)" for r
    unfolding t using parse_member_key [of "''error''" quote "t @ r"] by simp
  show ?thesis
    using m1 m2
    by (subst response_loop.simps, simp add: response_value_def eat_def codec_simps after_member_def,
        subst response_loop.simps, simp add: response_value_def codec_simps after_member_def response_done_def)
qed

text \<open>An encoded message is one line: its only newline is the last byte.\<close>

lemma json_escape_char_no_newline: "newline \<notin> set (json_escape_char c)"
proof -
  have "newline \<notin> set (zero_pad 4 (hex_str n))" for n
  proof -
    have "newline \<noteq> digit_char d" if "d < 16" for d
    proof
      assume a: "newline = digit_char d"
      have "of_char (digit_char d) = (10::nat)" unfolding a [symmetric] by simp
      with digit_char_printable [OF that] show False by simp
    qed
    then show ?thesis using digits_bound [of 16 _ n] by (auto simp: zero_pad_def hex_str_def)
  qed
  then show ?thesis by (simp add: json_escape_char_def)
qed

lemma json_escape_no_newline: "newline \<notin> set (json_escape s)"
  by (simp add: json_escape_def json_escape_char_no_newline)

lemma json_join_no_newline: "newline \<notin> set (json_join first as)"
  by (induction as arbitrary: first) (simp_all add: json_escape_no_newline)

lemma encode_request_line:
  "\<exists>line. encode_request req = line @ [newline] \<and> newline \<notin> set line \<and> decode_request line = Some req
     \<and> decode_request (line @ [newline]) = Some req"
proof -
  define line where "line = lbrace @ [quote] @ ''op'' @ [quote] @ '':'' @ json_escape (req_op req)
     @ '','' @ [quote] @ ''args'' @ [quote] @ '':['' @ json_join True (req_args req) @ '']}''"
  have e: "encode_request req = line @ [newline]" by (simp add: encode_request_def line_def)
  have n: "newline \<notin> set line"
    by (simp add: line_def lbrace_def json_escape_no_newline json_join_no_newline)
  have l: "line \<noteq> []" "last line = CHR ''}''" by (simp_all add: line_def lbrace_def)
  have d: "decode_request s = Some req" if "strip_eol s = line" for s
    using that decode_request_body [of req] by (simp add: decode_request_def line_def lbrace_def)
  show ?thesis
    using e n d [of line] d [of "line @ [newline]"] l by (simp add: strip_eol_bare strip_eol_line)
qed

definition resp_norm :: "CtlResponse \<Rightarrow> CtlResponse" where
  "resp_norm r = (if resp_ok r then r\<lparr>resp_error := []\<rparr> else r\<lparr>resp_lines := []\<rparr>)"

lemma encode_response_line:
  "\<exists>line. encode_response r = line @ [newline] \<and> newline \<notin> set line
     \<and> decode_response line = Some (resp_norm r) \<and> decode_response (line @ [newline]) = Some (resp_norm r)"
proof -
  define body where "body = (if resp_ok r
    then [quote] @ ''ok'' @ [quote] @ '':true,'' @ [quote] @ ''lines'' @ [quote] @ '':['' @ json_join True (resp_lines r) @ '']}''
    else [quote] @ ''ok'' @ [quote] @ '':false,'' @ [quote] @ ''error'' @ [quote] @ '':'' @ json_escape (resp_error r) @ ''}'')"
  have e: "encode_response r = lbrace @ body @ [newline]" by (simp add: encode_response_def body_def)
  have n: "newline \<notin> set (lbrace @ body)"
    by (simp add: body_def lbrace_def json_escape_no_newline json_join_no_newline)
  have l: "lbrace @ body \<noteq> []" "last (lbrace @ body) = CHR ''}''" by (simp_all add: body_def lbrace_def)
  have b: "response_loop (\<lparr>resp_ok = False, resp_lines = [], resp_error = []\<rparr>, False) body = Some (resp_norm r)"
  proof (cases "resp_ok r")
    case True
    then show ?thesis
      unfolding body_def if_P [OF True] decode_response_ok_body by (cases r) (simp add: resp_norm_def)
  next
    case False
    then show ?thesis
      unfolding body_def if_not_P [OF False] decode_response_error_body by (cases r) (simp add: resp_norm_def)
  qed
  have d: "decode_response s = Some (resp_norm r)" if "strip_eol s = lbrace @ body" for s
    unfolding decode_response_def that using b by (simp add: lbrace_def)
  show ?thesis
    using e n d [of "lbrace @ body"] d [of "(lbrace @ body) @ [newline]"] strip_eol_bare [of "lbrace @ body"]
      strip_eol_line [OF _ l(1)] l(2)
    by (intro exI [of _ "lbrace @ body"]) simp
qed


section \<open>Line and socket helpers\<close>

datatype read_result = Byte char | Read_eof | Read_err errno

datatype write_result = Wrote nat | Write_err errno

text \<open>
  \<^verbatim>\<open>read_line\<close> on the results of its one-byte reads: the line, the end-of-file flag and the results
  not consumed. \<open>None\<close> is a read that blocks for ever.
\<close>

fun read_line :: "read_result list \<Rightarrow> string \<Rightarrow> ((string \<times> bool) \<times> read_result list) option" where
  "read_line [] out = None"
| "read_line (Byte c # rs) out =
     (if c = newline then Some ((out, False), rs)
      else if length (out @ [c]) > 2 ^ 20 then Some ((out @ [c], False), rs)
      else read_line rs (out @ [c]))"
| "read_line (Read_eof # rs) out = Some ((out, True), rs)"
| "read_line (Read_err e # rs) out = (if e = EINTR then read_line rs out else Some ((out, True), rs))"

text \<open>
  \<^verbatim>\<open>write_all\<close> on the results of its writes: its result and the bytes accepted. A write that
  reports more than it was given is outside the contract of \<^verbatim>\<open>write\<close> and is \<open>None\<close>.
\<close>

fun write_all :: "write_result list \<Rightarrow> string \<Rightarrow> string \<Rightarrow> ((bool \<times> string) \<times> write_result list) option" where
  "write_all rs s sent =
     (if s = [] then Some ((True, sent), rs)
      else (case rs of [] \<Rightarrow> None
        | Write_err e # rs' \<Rightarrow> if e = EINTR then write_all rs' s sent else Some ((False, sent), rs')
        | Wrote n # rs' \<Rightarrow> if n \<le> length s then write_all rs' (drop n s) (sent @ take n s) else None))"

declare write_all.simps [simp del]

datatype sock_event = Close_fd int | Unlink_path string | Bind_path string | Connect_path string

definition sun_path_size :: nat where
  "sun_path_size = 108"

definition connect_unix :: "errno + int \<Rightarrow> errno option \<Rightarrow> string \<Rightarrow> (errno + int) \<times> sock_event list" where
  "connect_unix socket_res connect_err path =
     (case socket_res of Inl e \<Rightarrow> (Inl e, [])
      | Inr fd \<Rightarrow>
          if length path + 1 > sun_path_size then (Inl ENAMETOOLONG, [Close_fd fd])
          else (case connect_err of
              Some e \<Rightarrow> (Inl e, [Connect_path path, Close_fd fd])
            | None \<Rightarrow> (Inr fd, [Connect_path path])))"

definition listen_unix :: "errno + int \<Rightarrow> errno option \<Rightarrow> errno option \<Rightarrow> string
    \<Rightarrow> (errno + int) \<times> sock_event list" where
  "listen_unix socket_res bind_err listen_err path =
     (case socket_res of Inl e \<Rightarrow> (Inl e, [])
      | Inr fd \<Rightarrow>
          if length path + 1 > sun_path_size then (Inl ENAMETOOLONG, [Close_fd fd])
          else (case bind_err of
              Some e \<Rightarrow> (Inl e, [Unlink_path path, Bind_path path, Close_fd fd])
            | None \<Rightarrow> (case listen_err of
                Some e \<Rightarrow> (Inl e, [Unlink_path path, Bind_path path, Close_fd fd, Unlink_path path])
              | None \<Rightarrow> (Inr fd, [Unlink_path path, Bind_path path]))))"

lemma write_all_eqs:
  "write_all rs [] sent = Some ((True, sent), rs)"
  "s \<noteq> [] \<Longrightarrow> write_all [] s sent = None"
  "s \<noteq> [] \<Longrightarrow> write_all (Wrote n # rs) s sent
     = (if n \<le> length s then write_all rs (drop n s) (sent @ take n s) else None)"
  "s \<noteq> [] \<Longrightarrow> write_all (Write_err e # rs) s sent
     = (if e = EINTR then write_all rs s sent else Some ((False, sent), rs))"
  by (subst write_all.simps, simp)+

lemma write_all_sent:
  "write_all rs s sent = Some ((b, sent'), rs') \<Longrightarrow>
     \<exists>t. sent' = sent @ t \<and> prefix t s \<and> (b \<longleftrightarrow> t = s)"
proof (induction rs s sent rule: write_all.induct)
  case (1 rs s sent)
  show ?case
  proof (cases "s = []")
    case True
    with 1(3) show ?thesis by (auto simp: write_all_eqs)
  next
    case False
    then obtain r rs1 where rs: "rs = r # rs1" using 1(3) by (cases rs) (auto simp: write_all_eqs)
    show ?thesis
    proof (cases r)
      case (Wrote n)
      with 1(3) rs False have n: "n \<le> length s"
        "write_all rs1 (drop n s) (sent @ take n s) = Some ((b, sent'), rs')"
        by (auto simp: write_all_eqs split: if_splits)
      from 1(1) [OF False rs Wrote n] obtain t where
        t: "sent' = (sent @ take n s) @ t" "prefix t (drop n s)" "b \<longleftrightarrow> t = drop n s" by blast
      then have "prefix (take n s @ t) s"
        by (metis append_take_drop_id same_prefix_prefix)
      moreover have "take n s @ t = s \<longleftrightarrow> t = drop n s"
        by (metis append_same_eq append_take_drop_id same_append_eq)
      ultimately show ?thesis using t by (intro exI [of _ "take n s @ t"]) auto
    next
      case (Write_err e)
      then show ?thesis
        using 1 rs False by (auto simp: write_all_eqs split: if_splits)
    qed
  qed
qed

lemma read_line_bytes:
  assumes "filter (\<lambda>r. r \<noteq> Read_err EINTR) rs = map Byte (line @ [newline])" "newline \<notin> set line"
    "length out + length line \<le> 2 ^ 20"
  shows "\<exists>later'. read_line (rs @ later) out = Some ((out @ line, False), later')
    \<and> filter (\<lambda>r. r \<noteq> Read_err EINTR) later' = filter (\<lambda>r. r \<noteq> Read_err EINTR) later"
  using assms
proof (induction rs arbitrary: line out)
  case (Cons r rs)
  show ?case
  proof (cases "r = Read_err EINTR")
    case True
    with Cons show ?thesis by simp
  next
    case False
    show ?thesis
    proof (cases line)
      case Nil
      with Cons False show ?thesis by (auto simp: filter_empty_conv)
    next
      case (Cons c line')
      with Cons.prems False have r: "r = Byte c" "c \<noteq> newline" "newline \<notin> set line'"
        "filter (\<lambda>r. r \<noteq> Read_err EINTR) rs = map Byte (line' @ [newline])"
        "length (out @ [c]) + length line' \<le> 2 ^ 20" by auto
      from Cons.IH [OF r(4,3,5)] r Cons show ?thesis by simp
    qed
  qed
qed simp


section \<open>Properties\<close>

text \<open>
  C29. A control request survives the wire. Whatever bytes its operation name and arguments hold and
  however the kernel splits or interrupts the transfer, if \<^verbatim>\<open>write_all\<close> of the encoded request
  reports success and the reader gets the bytes that were accepted, then \<^verbatim>\<open>read_line\<close> returns one
  line, \<^verbatim>\<open>decode_request\<close> of it is the request, and what follows on the stream is left unread. The
  encoded line must fit the reader's cap of 2^20 bytes.
\<close>

theorem request_round_trip:
  assumes "write_all ws (encode_request req) [] = Some ((True, sent), ws')"
    "filter (\<lambda>r. r \<noteq> Read_err EINTR) rs = map Byte sent"
    "length (encode_request req) \<le> 2 ^ 20"
  shows "\<exists>line rest. read_line (rs @ later) [] = Some ((line, False), rest)
    \<and> filter (\<lambda>r. r \<noteq> Read_err EINTR) rest = filter (\<lambda>r. r \<noteq> Read_err EINTR) later
    \<and> decode_request line = Some req"
proof -
  have sent: "sent = encode_request req" using write_all_sent [OF assms(1)] by simp
  obtain line where l: "encode_request req = line @ [newline]" "newline \<notin> set line"
    "decode_request line = Some req"
    using encode_request_line [of req] by blast
  have "length ([] :: string) + length line \<le> 2 ^ 20" using assms(3) l(1) by simp
  with read_line_bytes [of rs line "[]" later] assms(2) l sent show ?thesis by auto
qed

theorem request_round_trip_witness:
  "\<exists>line rest. read_line ((Read_err EINTR # map Byte (encode_request \<lparr>req_op = ''status'', req_args = [[quote]]\<rparr>)) @ [Read_eof]) []
      = Some ((line, False), rest)
    \<and> filter (\<lambda>r. r \<noteq> Read_err EINTR) rest = filter (\<lambda>r. r \<noteq> Read_err EINTR) [Read_eof]
    \<and> decode_request line = Some \<lparr>req_op = ''status'', req_args = [[quote]]\<rparr>"
  by (rule request_round_trip
      [where ws = "[Wrote 3, Write_err EINTR, Wrote 27]"
         and sent = "encode_request \<lparr>req_op = ''status'', req_args = [[quote]]\<rparr>" and ws' = "[]"])
    (code_simp, simp, simp add: encode_request_def json_escape_def json_escape_char_def lbrace_def)

text \<open>
  A response survives the wire as well, with or without its newline: decoding an encoded response
  gives the response back, with the lines of a failure and the error text of a success, which the
  schema does not carry, dropped.
\<close>

theorem response_round_trip:
  "decode_response (encode_response r)
     = Some (if resp_ok r then r\<lparr>resp_error := []\<rparr> else r\<lparr>resp_lines := []\<rparr>)
   \<and> decode_response (butlast (encode_response r)) = decode_response (encode_response r)
   \<and> newline \<notin> set (butlast (encode_response r)) \<and> last (encode_response r) = newline"
proof -
  obtain line where "encode_response r = line @ [newline]" "newline \<notin> set line"
    "decode_response line = Some (resp_norm r)" "decode_response (line @ [newline]) = Some (resp_norm r)"
    using encode_response_line by blast
  then show ?thesis by (simp add: resp_norm_def)
qed

text \<open>
  The socket helpers leak no descriptor and never truncate a path: on every error path of
  \<^verbatim>\<open>connect_unix\<close> and \<^verbatim>\<open>listen_unix\<close> the socket that was opened is closed exactly once, on success it
  is not closed, and a path that does not fit \<^verbatim>\<open>sun_path\<close> with its terminator is refused before
  anything is unlinked, bound or connected.
\<close>

theorem unix_helpers_no_leak:
  "(case connect_unix (Inr fd) ce path of
     (Inl _, ev) \<Rightarrow> count_list ev (Close_fd fd) = 1 \<and> (108 \<le> length path \<longrightarrow> ev = [Close_fd fd])
   | (Inr r, ev) \<Rightarrow> r = fd \<and> Close_fd fd \<notin> set ev \<and> length path < 108)
   \<and> (case listen_unix (Inr fd) be le path of
     (Inl _, ev) \<Rightarrow> count_list ev (Close_fd fd) = 1 \<and> (108 \<le> length path \<longrightarrow> ev = [Close_fd fd])
   | (Inr r, ev) \<Rightarrow> r = fd \<and> Close_fd fd \<notin> set ev \<and> length path < 108)"
  by (auto simp: connect_unix_def listen_unix_def sun_path_size_def split: option.splits)

theorem unix_helpers_no_leak_witness:
  "snd (connect_unix (Inr 3) None (replicate 108 CHR ''a'')) = [Close_fd 3]
   \<and> snd (listen_unix (Inr 3) None None (replicate 108 CHR ''a'')) = [Close_fd 3]"
  using unix_helpers_no_leak [where fd = 3 and ce = None and be = None and le = None and path = "replicate 108 CHR ''a''"]
  by (auto split: prod.splits sum.splits)

text \<open>
  The decoders accept more than the schema: an object whose last member is followed by a comma
  and the end of the text, and anything after the closing brace.
\<close>

theorem decode_request_accepts_malformed:
  "decode_request (lbrace @ json_escape ''op'' @ '':'' @ json_escape ''x'' @ '','' @ json_escape ''args'' @ '':[],'')
     = Some \<lparr>req_op = ''x'', req_args = []\<rparr>
   \<and> decode_request (butlast (encode_request \<lparr>req_op = ''x'', req_args = []\<rparr>) @ ''garbage'')
     = Some \<lparr>req_op = ''x'', req_args = []\<rparr>"
  by code_simp

end
