(* ===== verification/Std_Map.thy ===== *)
theory Std_Map
  imports SD_Prelude "HOL-Library.Char_ord" "HOL-Library.List_Lexorder"
begin

text \<open>
  \<^verbatim>\<open>std::map\<close> as an association list in key order, which is the order its iterators visit. Keys
  are compared as the sources compare them: strings bytewise as unsigned characters, in
  lexicographic order. The laws its users rely on are the locale \<open>ordered_map\<close>, interpreted on the
  functions below.
\<close>

type_synonym ('k, 'v) std_map = "('k \<times> 'v) list"

fun map_find :: "('k::linorder, 'v) std_map \<Rightarrow> 'k \<Rightarrow> 'v option" where
  "map_find [] k = None"
| "map_find ((k', v) # m) k = (if k = k' then Some v else map_find m k)"

text \<open>\<^verbatim>\<open>m[k] = v\<close>, and \<^verbatim>\<open>emplace\<close> of a key that is not there.\<close>

fun map_put :: "('k::linorder) \<Rightarrow> 'v \<Rightarrow> ('k, 'v) std_map \<Rightarrow> ('k, 'v) std_map" where
  "map_put k v [] = [(k, v)]"
| "map_put k v ((k', v') # m) =
     (if k < k' then (k, v) # (k', v') # m
      else if k = k' then (k, v) # m else (k', v') # map_put k v m)"

definition map_erase :: "('k::linorder) \<Rightarrow> ('k, 'v) std_map \<Rightarrow> ('k, 'v) std_map" where
  "map_erase k m = filter (\<lambda>(k', _). k' \<noteq> k) m"

definition map_ok :: "('k::linorder, 'v) std_map \<Rightarrow> bool" where
  "map_ok m \<longleftrightarrow> sorted_wrt (<) (map fst m)"


lemma map_ok_Nil [simp, intro]: "map_ok []"
  by (simp add: map_ok_def)

lemma map_ok_Cons: "map_ok ((k, v) # m) \<longleftrightarrow> map_ok m \<and> (\<forall>k' \<in> fst ` set m. k < k')"
  by (auto simp: map_ok_def)

lemma map_find_None: "map_find m k = None \<longleftrightarrow> k \<notin> fst ` set m"
  by (induction m k rule: map_find.induct) auto

lemma map_find_Some: "map_ok m \<Longrightarrow> map_find m k = Some v \<longleftrightarrow> (k, v) \<in> set m"
  by (induction m k rule: map_find.induct) (auto simp: map_ok_Cons image_iff)

lemma map_find_put: "map_find (map_put k v m) k' = (if k' = k then Some v else map_find m k')"
  by (induction k v m rule: map_put.induct) auto

lemma map_put_keys: "fst ` set (map_put k v m) = insert k (fst ` set m)"
  by (induction k v m rule: map_put.induct) auto

lemma map_put_ok: "map_ok m \<Longrightarrow> map_ok (map_put k v m)"
proof (induction k v m rule: map_put.induct)
  case (2 k v k' v' m)
  then show ?case
    by (auto simp: map_ok_Cons map_put_keys dest: order.strict_trans)
qed (simp add: map_ok_Cons)

lemma map_find_erase: "map_find (map_erase k m) k' = (if k' = k then None else map_find m k')"
  by (induction m) (auto simp: map_erase_def)

lemma map_erase_ok: "map_ok m \<Longrightarrow> map_ok (map_erase k m)"
  by (induction m) (auto simp: map_erase_def map_ok_Cons)

lemma map_filter_ok: "map_ok m \<Longrightarrow> map_ok (filter P m)"
proof (induction m)
  case (Cons a m)
  then show ?case by (cases a) (auto simp: map_ok_Cons)
qed simp

lemma map_ok_distinct: "map_ok m \<Longrightarrow> distinct (map fst m)"
  by (simp add: map_ok_def strict_sorted_iff)

lemma map_size: "map_ok m \<Longrightarrow> length m = card {k. map_find m k \<noteq> None}"
proof -
  assume "map_ok m"
  then have "distinct (map fst m)" by (rule map_ok_distinct)
  then have "length m = card (fst ` set m)" by (metis distinct_card length_map set_map)
  moreover have "{k. map_find m k \<noteq> None} = fst ` set m" by (simp add: map_find_None del: not_None_eq)
  ultimately show ?thesis by simp
qed

text \<open>Two maps with the same contents are the same list: iteration order is canonical.\<close>

lemma map_ext:
  assumes "map_ok m" "map_ok m'" "\<And>k. map_find m k = map_find m' k"
  shows "m = m'"
proof -
  have s: "set m = set m'"
  proof (intro set_eqI)
    fix x :: "'a \<times> 'b"
    obtain k v where x: "x = (k, v)" by (cases x)
    show "x \<in> set m \<longleftrightarrow> x \<in> set m'"
      unfolding x using map_find_Some [OF assms(1), of k v] map_find_Some [OF assms(2), of k v] assms(3) by simp
  qed
  have "sorted (map fst m)" "sorted (map fst m')"
    using assms(1,2) unfolding map_ok_def by (auto simp: strict_sorted_iff)
  moreover have "distinct (map fst m)" "distinct (map fst m')"
    using assms(1,2) by (simp_all add: map_ok_distinct)
  ultimately show ?thesis
    using s by (intro map_sorted_distinct_set_unique [of fst]) (auto simp: distinct_map)
qed

locale ordered_map =
  fixes find :: "'m \<Rightarrow> 'k \<Rightarrow> 'v option"
    and put :: "'k \<Rightarrow> 'v \<Rightarrow> 'm \<Rightarrow> 'm"
    and erase :: "'k \<Rightarrow> 'm \<Rightarrow> 'm"
    and inv :: "'m \<Rightarrow> bool"
    and size_of :: "'m \<Rightarrow> nat"
  assumes find_put: "find (put k v m) k' = (if k' = k then Some v else find m k')"
    and find_erase: "find (erase k m) k' = (if k' = k then None else find m k')"
    and inv_put: "inv m \<Longrightarrow> inv (put k v m)"
    and inv_erase: "inv m \<Longrightarrow> inv (erase k m)"
    and size_law: "inv m \<Longrightarrow> size_of m = card {k. find m k \<noteq> None}"
    and finite_law: "finite {k. find m k \<noteq> None}"
begin

lemma size_put_fresh: "inv m \<Longrightarrow> find m k = None \<Longrightarrow> size_of (put k v m) = size_of m + 1"
proof -
  assume a: "inv m" "find m k = None"
  then have "{k'. find (put k v m) k' \<noteq> None} = insert k {k'. find m k' \<noteq> None}"
    by (auto simp: find_put)
  with a finite_law [of m] show ?thesis by (simp add: size_law inv_put)
qed

lemma size_erase: "inv m \<Longrightarrow> size_of (erase k m) = size_of m - (if find m k = None then 0 else 1)"
proof -
  assume a: "inv m"
  have "{k'. find (erase k m) k' \<noteq> None} = {k'. find m k' \<noteq> None} - {k}"
    by (auto simp: find_erase)
  with a finite_law [of m] show ?thesis
    by (cases "find m k") (simp_all add: size_law inv_erase)
qed

lemma put_overwrites: "find (put k v (put k w m)) = find (put k v m)"
  by (rule ext) (simp add: find_put)

end

interpretation std_map: ordered_map map_find map_put map_erase map_ok length
proof unfold_locales
  show "finite {k. map_find m k \<noteq> None}" for m :: "('a \<times> 'b) list"
    by (simp add: map_find_None del: not_None_eq)
qed (simp_all add: map_find_put map_find_erase map_put_ok map_erase_ok map_size)

lemmas map_simps = map_find_put map_find_erase

end
