(* ===== verification/Shm_Handshake.thy ===== *)
theory Shm_Handshake
  imports Std_Map
begin

text \<open>
  The key broker of \<^verbatim>\<open>include/socksdirect/shm_handshake.hpp\<close>: the registry that gives both ends of a
  connection the same shared-memory key and tells one of them to create the segment. The random
  generator is the sequence of its future outputs. All operations run under the registry's mutex.
\<close>

datatype ConnId = ConnId (ep_a: string) (ep_b: string)

definition ConnId_less :: "ConnId \<Rightarrow> ConnId \<Rightarrow> bool" where
  "ConnId_less x y \<longleftrightarrow> (if ep_a x \<noteq> ep_a y then ep_a x < ep_a y else ep_b x < ep_b y)"

instantiation ConnId :: linorder
begin

definition less_ConnId :: "ConnId \<Rightarrow> ConnId \<Rightarrow> bool" where
  "x < y \<longleftrightarrow> ConnId_less x y"

definition less_eq_ConnId :: "ConnId \<Rightarrow> ConnId \<Rightarrow> bool" where
  "x \<le> y \<longleftrightarrow> x < y \<or> x = (y :: ConnId)"

instance
proof
  fix x y z :: ConnId
  show "x < y \<longleftrightarrow> x \<le> y \<and> \<not> y \<le> x"
    by (cases x; cases y) (auto simp: less_ConnId_def ConnId_less_def less_eq_ConnId_def)
  show "x \<le> x" by (simp add: less_eq_ConnId_def)
  show "x \<le> y \<Longrightarrow> y \<le> z \<Longrightarrow> x \<le> z"
    by (cases x; cases y; cases z) (auto simp: less_ConnId_def ConnId_less_def less_eq_ConnId_def split: if_splits)
  show "x \<le> y \<Longrightarrow> y \<le> x \<Longrightarrow> x = y"
    by (cases x; cases y) (auto simp: less_ConnId_def ConnId_less_def less_eq_ConnId_def split: if_splits)
  show "x \<le> y \<or> y \<le> x"
    by (cases x; cases y) (auto simp: less_ConnId_def ConnId_less_def less_eq_ConnId_def)
qed

end

definition make_ConnId :: "string \<Rightarrow> string \<Rightarrow> ConnId" where
  "make_ConnId side1 side2 = (if side1 < side2 then ConnId side1 side2 else ConnId side2 side1)"

datatype Role = kCreator | kJoiner

record Entry =
  e_key :: u64
  e_creator_pid :: int
  e_joiner_pid :: int

record Result =
  res_key :: u64
  res_role :: Role
  res_pid_a :: int
  res_pid_b :: int

record ShmHandshakeRegistry =
  active :: "(ConnId, Entry) std_map"
  rng :: "u64 list"

text \<open>The loop of \<^verbatim>\<open>next_key\<close>: the first non-zero output. \<open>None\<close> if the outputs run out.\<close>

fun next_key :: "u64 list \<Rightarrow> (u64 \<times> u64 list) option" where
  "next_key [] = None"
| "next_key (k # ks) = (if k = 0 then next_key ks else Some (k, ks))"

definition register_endpoint :: "ShmHandshakeRegistry \<Rightarrow> ConnId \<Rightarrow> int
    \<Rightarrow> (Result \<times> ShmHandshakeRegistry) option" where
  "register_endpoint R cid caller_pid =
     (case map_find (active R) cid of
        None \<Rightarrow> do {
          (k, ks) \<leftarrow> next_key (rng R);
          let e = \<lparr>e_key = k, e_creator_pid = caller_pid, e_joiner_pid = 0\<rparr>;
          Some (\<lparr>res_key = k, res_role = kCreator, res_pid_a = caller_pid, res_pid_b = 0\<rparr>,
                R\<lparr>active := map_put cid e (active R), rng := ks\<rparr>)
        }
      | Some e \<Rightarrow>
          (let e' = (if e_joiner_pid e = 0 then e\<lparr>e_joiner_pid := caller_pid\<rparr> else e)
           in Some (\<lparr>res_key = e_key e', res_role = kJoiner,
                     res_pid_a = e_creator_pid e', res_pid_b = e_joiner_pid e'\<rparr>,
                    R\<lparr>active := map_put cid e' (active R)\<rparr>)))"

definition unregister_endpoint :: "ShmHandshakeRegistry \<Rightarrow> ConnId \<Rightarrow> bool \<times> ShmHandshakeRegistry" where
  "unregister_endpoint R cid =
     (map_find (active R) cid \<noteq> None, R\<lparr>active := map_erase cid (active R)\<rparr>)"

fun reap_loop :: "int \<Rightarrow> (ConnId, Entry) std_map \<Rightarrow> (ConnId, Entry) std_map \<times> nat" where
  "reap_loop pid [] = ([], 0)"
| "reap_loop pid ((cid, e) # m) =
     (let (m', removed) = reap_loop pid m
      in if e_creator_pid e = pid \<or> e_joiner_pid e = pid then (m', removed + 1)
         else ((cid, e) # m', removed))"

definition reap_pid :: "ShmHandshakeRegistry \<Rightarrow> int \<Rightarrow> nat \<times> ShmHandshakeRegistry" where
  "reap_pid R pid = (let (m, removed) = reap_loop pid (active R) in (removed, R\<lparr>active := m\<rparr>))"

definition live_pairs :: "ShmHandshakeRegistry \<Rightarrow> nat" where
  "live_pairs R = length (active R)"


section \<open>Both ends agree\<close>

lemma make_ConnId_sym: "make_ConnId x y = make_ConnId y x"
  by (auto simp: make_ConnId_def)

lemma make_ConnId_eq_iff:
  "make_ConnId x y = make_ConnId x' y' \<longleftrightarrow> (x = x' \<and> y = y') \<or> (x = y' \<and> y = x')"
  by (auto simp: make_ConnId_def split: if_splits)

lemma next_key_nonzero: "next_key ks = Some (k, ks') \<Longrightarrow> k \<noteq> 0"
  by (induction ks) (auto split: if_splits)

lemma next_key_defined: "\<exists>k \<in> set ks. k \<noteq> 0 \<Longrightarrow> next_key ks \<noteq> None"
  by (induction ks) auto

lemma reap_loop_filter:
  "reap_loop pid m = (filter (\<lambda>(_, e). e_creator_pid e \<noteq> pid \<and> e_joiner_pid e \<noteq> pid) m,
     length m - length (filter (\<lambda>(_, e). e_creator_pid e \<noteq> pid \<and> e_joiner_pid e \<noteq> pid) m))"
  by (induction m) (auto simp: Suc_diff_le)

text \<open>The operations the daemon performs on the registry, in any order.\<close>

datatype reg_op = Reg ConnId int | Unreg ConnId | Reap int

fun reg_apply :: "ShmHandshakeRegistry \<Rightarrow> reg_op \<Rightarrow> ShmHandshakeRegistry option" where
  "reg_apply R (Reg cid pid) = map_option snd (register_endpoint R cid pid)"
| "reg_apply R (Unreg cid) = Some (snd (unregister_endpoint R cid))"
| "reg_apply R (Reap pid) = Some (snd (reap_pid R pid))"

fun reg_run :: "ShmHandshakeRegistry \<Rightarrow> reg_op list \<Rightarrow> ShmHandshakeRegistry option" where
  "reg_run R [] = Some R"
| "reg_run R (x # xs) = reg_apply R x \<bind> (\<lambda>R'. reg_run R' xs)"

definition reg_inv :: "ShmHandshakeRegistry \<Rightarrow> bool" where
  "reg_inv R \<longleftrightarrow> map_ok (active R) \<and> (\<forall>(cid, e) \<in> set (active R). e_key e \<noteq> 0)"

lemma set_map_put: "map_ok m \<Longrightarrow> set (map_put k v m) \<subseteq> insert (k, v) (set m)"
  by (induction k v m rule: map_put.induct) (auto simp: map_ok_Cons)

lemma register_inv:
  assumes "reg_inv R" "register_endpoint R cid pid = Some (res, R')"
  shows "reg_inv R'" "res_key res \<noteq> 0"
proof -
  have ok: "map_ok (active R)" and nz: "\<And>cid e. (cid, e) \<in> set (active R) \<Longrightarrow> e_key e \<noteq> 0"
    using assms(1) by (auto simp: reg_inv_def)
  have *: "reg_inv (R\<lparr>active := map_put cid e (active R), rng := ks\<rparr>)" if "e_key e \<noteq> 0" for e ks
    using ok nz that set_map_put [OF ok, of cid e] by (fastforce simp: reg_inv_def map_put_ok)
  have **: "reg_inv (R\<lparr>active := map_put cid e (active R)\<rparr>)" if "e_key e \<noteq> 0" for e
    using * [OF that, of "rng R"] by simp
  have "e_key (if e_joiner_pid e = 0 then e\<lparr>e_joiner_pid := pid\<rparr> else e) = e_key e" for e :: Entry by simp
  then show "reg_inv R'" "res_key res \<noteq> 0"
    using assms(2) * ** nz map_find_Some [OF ok]
    by (auto simp: register_endpoint_def Let_def split: option.splits Option.bind_splits prod.splits dest!: next_key_nonzero)
qed

lemma reg_apply_inv: "reg_inv R \<Longrightarrow> reg_apply R x = Some R' \<Longrightarrow> reg_inv R'"
proof (cases x)
  case (Reg cid pid)
  then show "reg_inv R \<Longrightarrow> reg_apply R x = Some R' \<Longrightarrow> reg_inv R'"
    using register_inv(1) [of R cid pid _ R'] by auto
qed (auto simp: reg_inv_def unregister_endpoint_def reap_pid_def reap_loop_filter map_erase_ok
      map_filter_ok map_erase_def split: prod.splits)

text \<open>An operation that does not remove \<open>cid\<close> keeps its key and its creator.\<close>

definition keeps :: "ConnId \<Rightarrow> int set \<Rightarrow> reg_op \<Rightarrow> bool" where
  "keeps cid pids x = (case x of Reg _ _ \<Rightarrow> True | Unreg i \<Rightarrow> i \<noteq> cid | Reap p \<Rightarrow> p \<notin> pids)"

lemma reg_apply_keeps:
  assumes "reg_inv R" "map_find (active R) cid = Some e" "e_joiner_pid e \<in> pids" "e_creator_pid e \<in> pids"
    "keeps cid pids x" "\<And>p. x = Reg cid p \<Longrightarrow> p \<in> pids" "reg_apply R x = Some R'"
  shows "\<exists>e'. map_find (active R') cid = Some e' \<and> e_key e' = e_key e
    \<and> e_joiner_pid e' \<in> pids \<and> e_creator_pid e' \<in> pids"
proof (cases x)
  case (Reg i p)
  then show ?thesis
    using assms by (auto simp: register_endpoint_def Let_def map_find_put split: option.splits Option.bind_splits prod.splits)
next
  case (Unreg i)
  then show ?thesis
    using assms by (auto simp: unregister_endpoint_def map_find_erase keeps_def)
next
  case (Reap p)
  have ok: "map_ok (active R)" using assms(1) by (simp add: reg_inv_def)
  have "p \<notin> pids" using assms(5) Reap by (simp add: keeps_def)
  then have "e_creator_pid e \<noteq> p" "e_joiner_pid e \<noteq> p" using assms(3,4) by auto
  moreover have "(cid, e) \<in> set (active R)" using assms(2) by (simp add: map_find_Some [OF ok])
  ultimately have "map_find (active R') cid = Some e"
    using assms(7) Reap ok by (auto simp: reap_pid_def reap_loop_filter map_find_Some map_filter_ok)
  with assms(3,4) show ?thesis by blast
qed

lemma reg_run_keeps:
  assumes "reg_inv R" "map_find (active R) cid = Some e" "e_joiner_pid e \<in> pids" "e_creator_pid e \<in> pids"
    "list_all (keeps cid pids) xs" "\<And>p. Reg cid p \<in> set xs \<Longrightarrow> p \<in> pids" "reg_run R xs = Some R'"
  shows "reg_inv R' \<and> (\<exists>e'. map_find (active R') cid = Some e' \<and> e_key e' = e_key e)"
  using assms
proof (induction xs arbitrary: R e)
  case (Cons x xs)
  from Cons.prems(7) obtain R1 where R1: "reg_apply R x = Some R1" "reg_run R1 xs = Some R'"
    by (auto split: Option.bind_splits)
  obtain e1 where e1: "map_find (active R1) cid = Some e1" "e_key e1 = e_key e"
    "e_joiner_pid e1 \<in> pids" "e_creator_pid e1 \<in> pids"
    using reg_apply_keeps [OF Cons.prems(1-4) _ _ R1(1)] Cons.prems(5,6) by auto
  have "reg_inv R1" by (rule reg_apply_inv [OF Cons.prems(1) R1(1)])
  from Cons.IH [OF this e1(1,3,4) _ _ R1(2)] Cons.prems(5,6) e1(2) show ?case by auto
qed simp

definition new_registry :: "u64 list \<Rightarrow> ShmHandshakeRegistry" where
  "new_registry ks = \<lparr>active = [], rng = ks\<rparr>"

lemma new_registry_inv: "reg_inv (new_registry ks)"
  by (simp add: reg_inv_def new_registry_def)


section \<open>Properties\<close>

text \<open>
  C11. Two processes that register the same connection, each naming the endpoints in its own order,
  get the same non-zero key, and exactly the first is told to create the segment. Between the two
  registrations any registrations, removals of other pairs and reaping of unrelated processes may
  happen.
\<close>

theorem handshake_agrees:
  assumes "reg_inv R" "map_find (active R) (make_ConnId x y) = None"
    "register_endpoint R (make_ConnId x y) p = Some (ra, Ra)"
    "reg_run Ra xs = Some Rb"
    "list_all (keeps (make_ConnId x y) pids) xs"
    "{0, p} \<union> {i. Reg (make_ConnId x y) i \<in> set xs} \<subseteq> pids"
  shows "\<exists>rb Rc. register_endpoint Rb (make_ConnId y x) q = Some (rb, Rc)
    \<and> res_key rb = res_key ra \<and> res_key ra \<noteq> 0 \<and> res_role ra = kCreator \<and> res_role rb = kJoiner"
proof -
  let ?c = "make_ConnId x y"
  obtain k ks where k: "next_key (rng R) = Some (k, ks)"
    "ra = \<lparr>res_key = k, res_role = kCreator, res_pid_a = p, res_pid_b = 0\<rparr>"
    "Ra = R\<lparr>active := map_put ?c \<lparr>e_key = k, e_creator_pid = p, e_joiner_pid = 0\<rparr> (active R), rng := ks\<rparr>"
    using assms(2,3) by (auto simp: register_endpoint_def split: Option.bind_splits)
  have "reg_inv Ra" by (rule register_inv(1) [OF assms(1,3)])
  moreover have "map_find (active Ra) ?c = Some \<lparr>e_key = k, e_creator_pid = p, e_joiner_pid = 0\<rparr>"
    by (simp add: k(3) map_find_put)
  ultimately obtain e where "map_find (active Rb) ?c = Some e" "e_key e = k"
    using reg_run_keeps [OF _ _ _ _ assms(5) _ assms(4)] assms(6) by fastforce
  then show ?thesis
    using next_key_nonzero [OF k(1)] k(2)
    by (simp add: register_endpoint_def make_ConnId_sym [of y x] Let_def)
qed

definition two_ends :: ShmHandshakeRegistry where
  "two_ends = new_registry [0, 77, 78]"

theorem handshake_agrees_witness:
  "\<exists>rb Rc. register_endpoint (the (reg_run two_ends [Reg (make_ConnId ''a:1'' ''b:2'') 10, Reg (make_ConnId ''c:1'' ''b:2'') 30]))
      (make_ConnId ''b:2'' ''a:1'') 20 = Some (rb, Rc)
    \<and> res_key rb = res_key (fst (the (register_endpoint two_ends (make_ConnId ''a:1'' ''b:2'') 10)))
    \<and> res_key (fst (the (register_endpoint two_ends (make_ConnId ''a:1'' ''b:2'') 10))) \<noteq> 0
    \<and> res_role (fst (the (register_endpoint two_ends (make_ConnId ''a:1'' ''b:2'') 10))) = kCreator
    \<and> res_role rb = kJoiner"
proof (rule handshake_agrees [where R = two_ends and p = 10 and pids = "{0, 10}"
    and xs = "[Reg (make_ConnId ''c:1'' ''b:2'') 30]"
    and Ra = "snd (the (register_endpoint two_ends (make_ConnId ''a:1'' ''b:2'') 10))"])
  show "reg_inv two_ends" by (simp add: two_ends_def new_registry_inv)
  show "map_find (active two_ends) (make_ConnId ''a:1'' ''b:2'') = None" by code_simp
  show "register_endpoint two_ends (make_ConnId ''a:1'' ''b:2'') 10
    = Some (fst (the (register_endpoint two_ends (make_ConnId ''a:1'' ''b:2'') 10)),
            snd (the (register_endpoint two_ends (make_ConnId ''a:1'' ''b:2'') 10)))" by code_simp
  show "reg_run (snd (the (register_endpoint two_ends (make_ConnId ''a:1'' ''b:2'') 10)))
      [Reg (make_ConnId ''c:1'' ''b:2'') 30]
    = Some (the (reg_run two_ends [Reg (make_ConnId ''a:1'' ''b:2'') 10, Reg (make_ConnId ''c:1'' ''b:2'') 30]))"
    by code_simp
qed (auto simp: keeps_def make_ConnId_eq_iff)

text \<open>
  Reaping a process removes exactly the pairs it takes part in, reports how many there were, and
  leaves every other pair as it was.
\<close>

theorem reap_pid_exact:
  assumes "reg_inv R"
  shows "let (removed, R') = reap_pid R pid;
             mine = {i. \<exists>e. map_find (active R) i = Some e \<and> (e_creator_pid e = pid \<or> e_joiner_pid e = pid)}
         in removed = card mine \<and> live_pairs R' = live_pairs R - removed
            \<and> (\<forall>i. map_find (active R') i = (if i \<in> mine then None else map_find (active R) i))"
proof -
  define P where "P = (\<lambda>(_ :: ConnId, e :: Entry). e_creator_pid e \<noteq> pid \<and> e_joiner_pid e \<noteq> pid)"
  define m where "m = active R"
  define mine where "mine = {i. \<exists>e. map_find m i = Some e \<and> (e_creator_pid e = pid \<or> e_joiner_pid e = pid)}"
  have ok: "map_ok m" using assms by (simp add: reg_inv_def m_def)
  have r: "reap_pid R pid = (length m - length (filter P m), R\<lparr>active := filter P m\<rparr>)"
    by (simp add: reap_pid_def reap_loop_filter P_def m_def Let_def)
  have f: "map_find (filter P m) i = (if i \<in> mine then None else map_find m i)" for i
  proof (cases "map_find m i")
    case None
    then have "map_find (filter P m) i = None" by (auto simp: map_find_None)
    with None show ?thesis by (simp add: mine_def)
  next
    case (Some e)
    have "map_find (filter P m) i = Some e' \<longleftrightarrow> e' = e \<and> P (i, e)" for e'
      using Some by (auto simp: map_find_Some [OF map_filter_ok [OF ok]] map_find_Some [OF ok, symmetric])
    then have "map_find (filter P m) i = (if P (i, e) then Some e else None)"
      by (cases "map_find (filter P m) i") auto
    moreover have "i \<in> mine \<longleftrightarrow> \<not> P (i, e)" using Some by (auto simp: mine_def P_def)
    ultimately show ?thesis using Some by simp
  qed
  have "mine = fst ` set (filter (\<lambda>x. \<not> P x) m)"
    by (force simp: mine_def P_def map_find_Some [OF ok])
  moreover have "distinct (map fst (filter (\<lambda>x. \<not> P x) m))"
    by (rule map_ok_distinct [OF map_filter_ok [OF ok]])
  ultimately have "card mine = length (filter (\<lambda>x. \<not> P x) m)"
    by (metis distinct_card length_map set_map)
  moreover have "length m = length (filter P m) + length (filter (\<lambda>x. \<not> P x) m)"
    by (simp add: sum_length_filter_compl)
  ultimately show ?thesis
    using f r by (simp add: mine_def [symmetric] m_def [symmetric] live_pairs_def)
qed

theorem reap_pid_exact_witness:
  "let (removed, R') = reap_pid (the (reg_run two_ends [Reg (ConnId ''a'' ''b'') 10])) 10;
       mine = {i. \<exists>e. map_find (active (the (reg_run two_ends [Reg (ConnId ''a'' ''b'') 10]))) i = Some e
                 \<and> (e_creator_pid e = 10 \<or> e_joiner_pid e = 10)}
   in removed = card mine
      \<and> live_pairs R' = live_pairs (the (reg_run two_ends [Reg (ConnId ''a'' ''b'') 10])) - removed
      \<and> (\<forall>i. map_find (active R') i = (if i \<in> mine then None
              else map_find (active (the (reg_run two_ends [Reg (ConnId ''a'' ''b'') 10]))) i))"
  by (rule reap_pid_exact) (simp add: two_ends_def new_registry_def register_endpoint_def reg_inv_def map_ok_Cons)

text \<open>
  Nothing but an explicit removal ends a pair. When both ends are done and two processes later use
  the same endpoints again, both are told to join, and nobody creates the segment.
\<close>

theorem reused_pair_has_no_creator:
  "map_option (\<lambda>R. map (\<lambda>p. map_option (res_role \<circ> fst) (register_endpoint R (make_ConnId ''a'' ''b'') p)) [30, 40])
     (reg_run two_ends [Reg (make_ConnId ''a'' ''b'') 10, Reg (make_ConnId ''b'' ''a'') 20])
   = Some [Some kJoiner, Some kJoiner]"
  by code_simp

end
