(* ===== verification/Config_File.thy ===== *)
theory Config_File
  imports C_Strings Std_Map
begin

text \<open>
  The configuration loader of \<^verbatim>\<open>include/socksdirect/config.hpp\<close>: an INI file read line by line into a
  map from \<^verbatim>\<open>section.key\<close> to values, environment variables that override it, and typed getters.
  The file's contents and the environment are arguments; \<open>None\<close> is an unreadable file or an unset
  variable. Diagnostics on \<^verbatim>\<open>stderr\<close> are not modelled.
\<close>

type_synonym environment = "string \<Rightarrow> string option"

type_synonym Config = "(string, string) std_map"

definition conf_ws :: "char \<Rightarrow> bool" where
  "conf_ws c \<longleftrightarrow> c = CHR '' '' \<or> c = CHR 0x09 \<or> c = CHR 0x0D \<or> c = CHR 0x0A"

definition strip :: "string \<Rightarrow> string" where
  "strip s = rev (dropWhile conf_ws (rev (dropWhile conf_ws s)))"

text \<open>\<^verbatim>\<open>std::getline\<close> until end of file; a newline at the very end starts no further line.\<close>

function getlines :: "string \<Rightarrow> string list" where
  "getlines s =
     (if s = [] then []
      else takeWhile (\<lambda>c. c \<noteq> CHR 0x0A) s # getlines (drop 1 (dropWhile (\<lambda>c. c \<noteq> CHR 0x0A) s)))"
  by pat_completeness auto
termination
proof (relation "measure length", goal_cases)
  case (2 s)
  then have "length (dropWhile (\<lambda>c. c \<noteq> CHR 0x0A) s) \<le> length s" "0 < length s"
    by (simp_all add: length_dropWhile_le)
  then have "length (dropWhile (\<lambda>c. c \<noteq> CHR 0x0A) s) - 1 < length s" by linarith
  then show ?case by simp
qed simp

declare getlines.simps [simp del]

definition find_char :: "char \<Rightarrow> string \<Rightarrow> nat option" where
  "find_char c s = (if c \<in> set s then Some (length (takeWhile (\<lambda>x. x \<noteq> c) s)) else None)"

text \<open>One round of the loop of \<^verbatim>\<open>load\<close>, on the current section and the values read so far.\<close>

definition load_line :: "string \<times> Config \<Rightarrow> string \<Rightarrow> string \<times> Config" where
  "load_line st line =
     (case st of (sect, vals) \<Rightarrow>
        let s = strip line
        in if s = [] \<or> hd s = CHR ''#'' \<or> hd s = CHR '';'' then (sect, vals)
           else if hd s = CHR ''['' \<and> last s = CHR '']''
           then (strip (take (length s - 2) (drop 1 s)), vals)
           else (case find_char (CHR ''='') s of
               None \<Rightarrow> (sect, vals)
             | Some eq \<Rightarrow>
                 (let k = strip (take eq s); v = strip (drop (eq + 1) s)
                  in (sect, map_put (sect @ ''.'' @ k) v vals))))"

definition load_config :: "string option \<Rightarrow> Config" where
  "load_config file =
     (case file of None \<Rightarrow> [] | Some text \<Rightarrow> snd (foldl load_line ([], []) (getlines text)))"

definition kDefaultPath :: string where
  "kDefaultPath = ''/etc/socksdirect/socksdirect.conf''"

definition load_default :: "environment \<Rightarrow> (string \<Rightarrow> string option) \<Rightarrow> Config" where
  "load_default env files =
     load_config (files (case env ''SOCKSDIRECT_CONFIG'' of
        Some p \<Rightarrow> if p \<noteq> [] then p else kDefaultPath | None \<Rightarrow> kDefaultPath))"

text \<open>\<^verbatim>\<open>toupper\<close> and \<^verbatim>\<open>tolower\<close> in the C locale.\<close>

definition to_upper :: "char \<Rightarrow> char" where
  "to_upper c = (let n = of_char c :: nat in if 97 \<le> n \<and> n \<le> 122 then char_of (n - 32) else c)"

definition to_lower :: "char \<Rightarrow> char" where
  "to_lower c = (let n = of_char c :: nat in if 65 \<le> n \<and> n \<le> 90 then char_of (n + 32) else c)"

definition env_var_name :: "string \<Rightarrow> string \<Rightarrow> string" where
  "env_var_name sect key =
     map (\<lambda>c. if c = CHR ''-'' \<or> c = CHR ''.'' then CHR ''_'' else c)
       (''SOCKSDIRECT_'' @ map to_upper sect @ ''_'' @ map to_upper key)"

definition env_lookup :: "environment \<Rightarrow> string \<Rightarrow> string \<Rightarrow> string option" where
  "env_lookup env sect key = env (c_str (env_var_name sect key))"

definition get_string :: "environment \<Rightarrow> Config \<Rightarrow> string \<Rightarrow> string \<Rightarrow> string \<Rightarrow> string" where
  "get_string env c sect key fallback =
     (case env_lookup env sect key of Some v \<Rightarrow> v
      | None \<Rightarrow> (case map_find c (sect @ ''.'' @ key) of Some v \<Rightarrow> v | None \<Rightarrow> fallback))"

text \<open>\<^verbatim>\<open>std::stoi\<close>; \<open>None\<close> is one of its exceptions.\<close>

definition stoi :: "string \<Rightarrow> int option" where
  "stoi s = (let (v, rest) = strtol s
             in if rest = c_str s then None
                else if v < - (2 ^ 31) \<or> v > 2 ^ 31 - 1 then None else Some v)"

definition get_int :: "environment \<Rightarrow> Config \<Rightarrow> string \<Rightarrow> string \<Rightarrow> int \<Rightarrow> int" where
  "get_int env c sect key fallback =
     (let s = get_string env c sect key []
      in if s = [] then fallback else (case stoi s of Some v \<Rightarrow> v | None \<Rightarrow> fallback))"

definition get_bool :: "environment \<Rightarrow> Config \<Rightarrow> string \<Rightarrow> string \<Rightarrow> bool \<Rightarrow> bool" where
  "get_bool env c sect key fallback =
     (let s = map to_lower (get_string env c sect key [])
      in if s = [] then fallback
         else if s = ''1'' \<or> s = ''true'' \<or> s = ''yes'' \<or> s = ''on'' then True
         else if s = ''0'' \<or> s = ''false'' \<or> s = ''no'' \<or> s = ''off'' then False
         else fallback)"

text \<open>\<^verbatim>\<open>require\<close>: \<open>Some\<close> is the key the exception names.\<close>

fun require_keys :: "environment \<Rightarrow> Config \<Rightarrow> (string \<times> string) list \<Rightarrow> string option" where
  "require_keys env c [] = None"
| "require_keys env c ((sect, key) # kvs) =
     (if env_lookup env sect key \<noteq> None then require_keys env c kvs
      else if map_find c (sect @ ''.'' @ key) \<noteq> None then require_keys env c kvs
      else Some (sect @ ''.'' @ key))"


section \<open>Loading what was written\<close>

lemma getlines_Nil [simp]: "getlines [] = []"
  by (simp add: getlines.simps)

lemma getlines_line:
  "CHR 0x0A \<notin> set l \<Longrightarrow> getlines (l @ CHR 0x0A # rest) = l # getlines rest"
proof -
  assume "CHR 0x0A \<notin> set l"
  then have l: "\<And>c. c \<in> set l \<Longrightarrow> c \<noteq> CHR 0x0A" by metis
  then have "takeWhile (\<lambda>c. c \<noteq> CHR 0x0A) (l @ CHR 0x0A # rest) = l"
    "dropWhile (\<lambda>c. c \<noteq> CHR 0x0A) (l @ CHR 0x0A # rest) = CHR 0x0A # rest"
    by (simp_all add: takeWhile_append2 dropWhile_append2)
  then show ?thesis by (subst getlines.simps) simp
qed

text \<open>A clean text is not empty and neither begins nor ends with white space.\<close>

definition trimmed :: "string \<Rightarrow> bool" where
  "trimmed s \<longleftrightarrow> s = [] \<or> \<not> conf_ws (hd s) \<and> \<not> conf_ws (last s)"

lemma strip_trimmed:
  assumes "trimmed s" "list_all conf_ws a" "list_all conf_ws b"
  shows "strip (a @ s @ b) = s"
proof (cases "s = []")
  case True
  then have "\<forall>c \<in> set (a @ s @ b). conf_ws c" using assms(2,3) by (auto simp: list_all_iff)
  then have d: "dropWhile conf_ws (a @ s @ b) = []" by (simp only: dropWhile_eq_Nil_conv)
  show ?thesis unfolding strip_def d using True by simp
next
  case False
  have "dropWhile conf_ws (a @ s @ b) = s @ b"
    using assms(1,2) False by (cases s) (simp_all add: trimmed_def dropWhile_append2 list_all_iff)
  moreover have "dropWhile conf_ws (rev b @ rev s) = rev s"
  proof -
    have "dropWhile conf_ws (rev b @ rev s) = dropWhile conf_ws (rev s)"
      using assms(3) by (intro dropWhile_append2) (simp add: list_all_iff)
    also have "\<dots> = rev s"
      using assms(1) False by (cases s rule: rev_cases) (auto simp: trimmed_def)
    finally show ?thesis .
  qed
  ultimately show ?thesis by (simp add: strip_def)
qed

lemma strip_is_trimmed: "trimmed (strip s)"
proof (cases "strip s = []")
  case False
  define u where "u = dropWhile conf_ws s"
  have u: "u \<noteq> []" using False by (auto simp: strip_def simp flip: u_def)
  then have hd: "\<not> conf_ws (hd u)" using hd_dropWhile [of conf_ws s] by (simp add: u_def)
  have "dropWhile conf_ws (rev u) \<noteq> []" using False by (simp add: strip_def u_def)
  then have "\<not> conf_ws (hd (dropWhile conf_ws (rev u)))" by (rule hd_dropWhile)
  then have last: "\<not> conf_ws (last (strip s))" by (simp add: strip_def u_def last_rev)
  obtain t where "rev u = t @ dropWhile conf_ws (rev u)" by (metis takeWhile_dropWhile_id)
  then have "u = strip s @ rev t" by (metis rev_append rev_rev_ident strip_def u_def)
  then have "hd (strip s) = hd u" using False by simp
  with hd last show ?thesis by (simp add: trimmed_def)
qed (simp add: trimmed_def)

lemma strip_plain: "trimmed s \<Longrightarrow> strip s = s"
  using strip_trimmed [of s "[]" "[]"] by simp

text \<open>
  A configuration as one would write it: a section header per entry and \<^verbatim>\<open>key = value\<close>. An entry is
  well-formed when its parts are trimmed and hold no newline, the key is not empty, does not
  start like a comment or a header and has no equals sign.
\<close>

definition conf_entry_ok :: "string \<times> string \<times> string \<Rightarrow> bool" where
  "conf_entry_ok e = (case e of (sect, k, v) \<Rightarrow>
     trimmed sect \<and> trimmed k \<and> trimmed v \<and> k \<noteq> [] \<and> CHR 0x0A \<notin> set (sect @ k @ v)
     \<and> CHR ''='' \<notin> set k \<and> hd k \<notin> {CHR ''#'', CHR '';'', CHR ''[''})"

definition conf_print :: "(string \<times> string \<times> string) list \<Rightarrow> string" where
  "conf_print es = concat (map (\<lambda>(sect, k, v).
     ''['' @ sect @ '']'' @ [CHR 0x0A] @ k @ '' = '' @ v @ [CHR 0x0A]) es)"

lemma load_line_header:
  assumes "trimmed sect"
  shows "load_line (s0, vals) (''['' @ sect @ '']'') = (sect, vals)"
proof -
  have "strip (''['' @ sect @ '']'') = ''['' @ sect @ '']''"
    by (rule strip_plain) (simp add: trimmed_def conf_ws_def)
  then show ?thesis using strip_plain [OF assms] by (simp add: load_line_def)
qed

lemma load_line_entry:
  assumes "conf_entry_ok (sect, k, v)"
  shows "load_line (s0, vals) (k @ '' = '' @ v) = (s0, map_put (s0 @ ''.'' @ k) v vals)"
proof -
  have k: "trimmed k" "trimmed v" "k \<noteq> []" "CHR ''='' \<notin> set k" "hd k \<notin> {CHR ''#'', CHR '';'', CHR ''[''}"
    using assms by (auto simp: conf_entry_ok_def)
  define s where "s = strip (k @ '' = '' @ v)"
  have s: "s = (if v = [] then k @ '' ='' else k @ '' = '' @ v)"
  proof (cases "v = []")
    case True
    have "trimmed (k @ '' ='')" using k(1,3) by (simp add: trimmed_def conf_ws_def)
    then show ?thesis using strip_trimmed [of "k @ '' =''" "[]" "'' ''"] True by (simp add: s_def conf_ws_def)
  next
    case False
    have "trimmed (k @ '' = '' @ v)" using k False by (simp add: trimmed_def)
    then show ?thesis using False by (simp add: s_def strip_plain)
  qed
  have eq: "find_char (CHR ''='') s = Some (length k + 1)"
  proof -
    have "takeWhile (\<lambda>x. x \<noteq> CHR ''='') (k @ CHR '' '' # CHR ''='' # r) = k @ '' ''" for r
      using k(4) by (subst takeWhile_append2) auto
    then show ?thesis using s by (simp add: find_char_def)
  qed
  have "strip (take (length k + 1) s) = k" "strip (drop (length k + 1 + 1) s) = v"
    using strip_trimmed [OF k(1), of "[]" "'' ''"] strip_trimmed [OF k(2), of "'' ''" "[]"] s strip_plain [of v] k(2)
    by (auto simp: conf_ws_def)
  moreover have "s \<noteq> []" "hd s = hd k" using s k(3) by auto
  ultimately show ?thesis
    using eq k(5) unfolding load_line_def s_def [symmetric] by simp
qed

lemma load_print:
  assumes "list_all conf_entry_ok es"
  shows "snd (foldl load_line (s0, vals) (getlines (conf_print es)))
    = foldl (\<lambda>m (sect, k, v). map_put (sect @ ''.'' @ k) v m) vals es"
  using assms
proof (induction es arbitrary: s0 vals)
  case Nil
  show ?case by (simp add: conf_print_def)
next
  case (Cons e es)
  obtain sect k v where e: "e = (sect, k, v)" by (cases e)
  with Cons.prems have ok: "conf_entry_ok (sect, k, v)" by simp
  then have n: "CHR 0x0A \<notin> set (''['' @ sect @ '']'')" "CHR 0x0A \<notin> set (k @ '' = '' @ v)" "trimmed sect"
    by (simp_all add: conf_entry_ok_def)
  have "conf_print (e # es) = (''['' @ sect @ '']'') @ CHR 0x0A # (k @ '' = '' @ v) @ CHR 0x0A # conf_print es"
    by (simp add: conf_print_def e)
  then have "getlines (conf_print (e # es)) = (''['' @ sect @ '']'') # (k @ '' = '' @ v) # getlines (conf_print es)"
    by (simp only: getlines_line [OF n(1)] getlines_line [OF n(2)])
  then show ?case
    using Cons load_line_header [OF n(3)] load_line_entry [OF ok] by (simp only: foldl.simps e) simp
qed

lemma foldl_put_ok: "map_ok m \<Longrightarrow> map_ok (foldl (\<lambda>m (sect, k, v). map_put (sect @ ''.'' @ k) v m) m es)"
  by (induction es arbitrary: m) (auto simp: map_put_ok)


lemma find_snoc:
  "find P (xs @ [x]) = (case find P xs of Some y \<Rightarrow> Some y | None \<Rightarrow> if P x then Some x else None)"
  by (induction xs) auto

lemma foldl_put_find:
  "map_find (foldl (\<lambda>m (sect, k, v). map_put (sect @ ''.'' @ k) v m) m es) key
     = (case find (\<lambda>(sect, k, v). sect @ ''.'' @ k = key) (rev es) of
          Some (_, _, v) \<Rightarrow> Some v | None \<Rightarrow> map_find m key)"
proof (induction es arbitrary: m)
  case (Cons e es)
  obtain sect k v where e: "e = (sect, k, v)" by (cases e)
  show ?case unfolding e foldl.simps prod.case Cons rev.simps find_snoc
    by (auto simp: map_find_put split: option.splits)
qed simp



section \<open>Properties\<close>

text \<open>
  Loading a written configuration gives back what was written: the map is in key order without
  duplicates, and looking up a key gives the value of the last entry written for it, or nothing if
  there is none. Values may contain equals signs, comment characters and brackets.
\<close>

theorem config_round_trip:
  assumes "list_all conf_entry_ok es"
  shows "map_ok (load_config (Some (conf_print es)))
    \<and> map_find (load_config (Some (conf_print es))) (sect @ ''.'' @ key)
      = map_option (\<lambda>(_, _, v). v) (find (\<lambda>(s, k, _). s @ ''.'' @ k = sect @ ''.'' @ key) (rev es))"
proof -
  have l: "load_config (Some (conf_print es)) = foldl (\<lambda>m (sect, k, v). map_put (sect @ ''.'' @ k) v m) [] es"
    using load_print [OF assms, of "[]" "[]"] by (simp add: load_config_def)
  show ?thesis
    unfolding l foldl_put_find using foldl_put_ok [of "[]" es] by (auto split: option.splits)
qed

theorem config_round_trip_witness:
  "map_ok (load_config (Some (conf_print [(''monitor'', ''log_level'', ''info''), (''monitor'', ''log_level'', ''a = b'')])))
    \<and> map_find (load_config (Some (conf_print [(''monitor'', ''log_level'', ''info''), (''monitor'', ''log_level'', ''a = b'')])))
        (''monitor'' @ ''.'' @ ''log_level'')
      = map_option (\<lambda>(_, _, v). v) (find (\<lambda>(s, k, _). s @ ''.'' @ k = ''monitor'' @ ''.'' @ ''log_level'')
          (rev [(''monitor'', ''log_level'', ''info''), (''monitor'', ''log_level'', ''a = b'')]))"
  by (rule config_round_trip) (simp add: conf_entry_ok_def trimmed_def conf_ws_def)

text \<open>
  The getters resolve in the documented order and never fail: an environment variable wins over
  the file, the file over the fallback; an integer getter returns the fallback on a value that is not
  a number or does not fit 32 bits and otherwise a value of that range; a Boolean getter reads the
  eight documented spellings in any letter case and the fallback for everything else; and
  \<^verbatim>\<open>require\<close> names the first key that is neither in the environment nor in the file.
\<close>

theorem config_getters:
  "get_string env c s k fb
     = (if env_lookup env s k \<noteq> None then the (env_lookup env s k)
        else if map_find c (s @ ''.'' @ k) \<noteq> None then the (map_find c (s @ ''.'' @ k)) else fb)
   \<and> (get_int env c s k n = n \<or> get_int env c s k n \<in> {- (2 ^ 31) .. 2 ^ 31 - 1})
   \<and> get_bool env c s k b
     = (case map_option (map to_lower) (if env_lookup env s k \<noteq> None then env_lookup env s k else map_find c (s @ ''.'' @ k)) of
          None \<Rightarrow> b | Some v \<Rightarrow> if v \<in> {''1'', ''true'', ''yes'', ''on''} then True
                         else if v \<in> {''0'', ''false'', ''no'', ''off''} then False else b)
   \<and> require_keys env c kvs
     = map_option (\<lambda>(s, k). s @ ''.'' @ k)
         (find (\<lambda>(s, k). env_lookup env s k = None \<and> map_find c (s @ ''.'' @ k) = None) kvs)"
proof (intro conjI)
  show "get_int env c s k n = n \<or> get_int env c s k n \<in> {- (2 ^ 31) .. 2 ^ 31 - 1}"
    by (auto simp: get_int_def Let_def stoi_def split: option.splits prod.splits if_splits)
  show "require_keys env c kvs = map_option (\<lambda>(s, k). s @ ''.'' @ k)
      (find (\<lambda>(s, k). env_lookup env s k = None \<and> map_find c (s @ ''.'' @ k) = None) kvs)"
    by (induction env c kvs rule: require_keys.induct) auto
  show "get_string env c s k fb
     = (if env_lookup env s k \<noteq> None then the (env_lookup env s k)
        else if map_find c (s @ ''.'' @ k) \<noteq> None then the (map_find c (s @ ''.'' @ k)) else fb)"
    by (simp add: get_string_def split: option.split)
  have b: "get_bool env c s k b = (if w = [] then b else if w \<in> {''1'', ''true'', ''yes'', ''on''} then True
      else if w \<in> {''0'', ''false'', ''no'', ''off''} then False else b)"
    if "w = map to_lower (get_string env c s k [])" for w
    unfolding get_bool_def Let_def that by simp
  show "get_bool env c s k b
     = (case map_option (map to_lower) (if env_lookup env s k \<noteq> None then env_lookup env s k else map_find c (s @ ''.'' @ k)) of
          None \<Rightarrow> b | Some v \<Rightarrow> if v \<in> {''1'', ''true'', ''yes'', ''on''} then True
                         else if v \<in> {''0'', ''false'', ''no'', ''off''} then False else b)"
    unfolding b [OF refl] get_string_def
    by (cases "env_lookup env s k"; cases "map_find c (s @ ''.'' @ k)") simp_all
qed

end
