(* ===== verification/Log_Sink.thy ===== *)
theory Log_Sink
  imports Config_File
begin

text \<open>
  The logger of \<^verbatim>\<open>include/socksdirect/log.hpp\<close>: level names and their parser, the sink and who owns
  it, and the text of a log line. A \<^verbatim>\<open>FILE*\<close> is \<open>Std_err\<close>, a file the logger opened, or one it was
  lent; the result of \<^verbatim>\<open>fopen\<close>, the clock, the process and thread ids are arguments.
\<close>

datatype LogLevel = kLogTrace | kLogDebug | kLogInfo | kLogWarn | kLogError | kLogOff

definition level_num :: "LogLevel \<Rightarrow> nat" where
  "level_num l = (case l of kLogTrace \<Rightarrow> 0 | kLogDebug \<Rightarrow> 1 | kLogInfo \<Rightarrow> 2
     | kLogWarn \<Rightarrow> 3 | kLogError \<Rightarrow> 4 | kLogOff \<Rightarrow> 5)"

definition level_name :: "LogLevel \<Rightarrow> string" where
  "level_name l = (case l of kLogTrace \<Rightarrow> ''trace'' | kLogDebug \<Rightarrow> ''debug'' | kLogInfo \<Rightarrow> ''info''
     | kLogWarn \<Rightarrow> ''warn'' | kLogError \<Rightarrow> ''error'' | kLogOff \<Rightarrow> ''off'')"

text \<open>\<^verbatim>\<open>strcasecmp\<close> is equality after lowering; the head of an empty C string is its NUL.\<close>

definition parse_level :: "string option \<Rightarrow> LogLevel \<Rightarrow> LogLevel" where
  "parse_level s fallback =
     (case s of None \<Rightarrow> fallback
      | Some t \<Rightarrow>
          let w = map to_lower (c_str t);
              head = (if w = [] then CHR 0x00 else hd w)
          in if w = ''trace'' \<or> head = CHR ''t'' then kLogTrace
             else if w = ''debug'' \<or> head = CHR ''d'' then kLogDebug
             else if w = ''info'' \<or> head = CHR ''i'' then kLogInfo
             else if w = ''warn'' \<or> w = ''warning'' \<or> head = CHR ''w'' then kLogWarn
             else if w = ''error'' \<or> head = CHR ''e'' then kLogError
             else if w = ''off'' \<or> head = CHR ''o'' then kLogOff
             else fallback)"

datatype FILEp = Std_err | Opened nat | Lent nat

record Logger =
  l_level :: LogLevel
  l_sink :: "FILEp option"
  l_owned :: bool
  l_path :: string
  l_closed :: "FILEp list"  \<comment> \<open>every \<^verbatim>\<open>fclose\<close> so far\<close>

definition new_logger :: Logger where
  "new_logger = \<lparr>l_level = kLogInfo, l_sink = None, l_owned = False, l_path = [], l_closed = []\<rparr>"

definition set_level :: "Logger \<Rightarrow> LogLevel \<Rightarrow> Logger" where
  "set_level L l = L\<lparr>l_level := l\<rparr>"

definition enabled :: "Logger \<Rightarrow> LogLevel \<Rightarrow> bool" where
  "enabled L l \<longleftrightarrow> level_num l \<ge> level_num (l_level L)"

definition close_owned_sink_locked :: "Logger \<Rightarrow> Logger" where
  "close_owned_sink_locked L =
     (let L1 = (case l_sink L of
                  Some f \<Rightarrow> if l_owned L \<and> f \<noteq> Std_err then L\<lparr>l_closed := l_closed L @ [f]\<rparr> else L
                | None \<Rightarrow> L)
      in L1\<lparr>l_sink := None, l_owned := False\<rparr>)"

definition set_sink_file :: "Logger \<Rightarrow> (string \<Rightarrow> FILEp option) \<Rightarrow> string \<Rightarrow> bool \<times> Logger" where
  "set_sink_file L fopen path =
     (let L1 = close_owned_sink_locked L
      in if path = [] \<or> path = ''stderr'' then (True, L1\<lparr>l_sink := Some Std_err, l_path := []\<rparr>)
         else (case fopen path of
             None \<Rightarrow> (False, L1\<lparr>l_sink := Some Std_err, l_path := []\<rparr>)
           | Some f \<Rightarrow> (True, L1\<lparr>l_sink := Some f, l_owned := True, l_path := path\<rparr>)))"

definition set_sink_FILE :: "Logger \<Rightarrow> FILEp option \<Rightarrow> Logger" where
  "set_sink_FILE L f =
     (let L1 = close_owned_sink_locked L
      in L1\<lparr>l_sink := Some (case f of Some x \<Rightarrow> x | None \<Rightarrow> Std_err), l_owned := False, l_path := []\<rparr>)"

definition configure_from_env :: "Logger \<Rightarrow> environment \<Rightarrow> (string \<Rightarrow> FILEp option) \<Rightarrow> Logger" where
  "configure_from_env L env fopen =
     (let L1 = set_level L (parse_level (env ''SOCKSDIRECT_LOG'') kLogInfo)
      in case env ''SOCKSDIRECT_LOG_FILE'' of
           Some p \<Rightarrow> if p \<noteq> [] then snd (set_sink_file L1 fopen p) else set_sink_FILE L1 (Some Std_err)
         | None \<Rightarrow> set_sink_FILE L1 (Some Std_err))"

text \<open>
  A line: the formatted text, cut to the 1024-byte buffer with its last bytes overwritten by
  \<^verbatim>\<open>"..."\<close>; the time stamp; the base name of the source file; then the fields in order.
\<close>

definition log_body :: "string \<Rightarrow> string" where
  "log_body msg = (if length msg \<ge> 1024 then take 1019 msg @ ''...'' else msg)"

record log_time =
  t_year :: nat
  t_mon :: nat
  t_mday :: nat
  t_hour :: nat
  t_min :: nat
  t_sec :: nat
  t_nsec :: nat

definition log_stamp :: "log_time \<Rightarrow> string" where
  "log_stamp t =
     zero_pad 4 (dec_str (t_year t + 1900)) @ ''-'' @ zero_pad 2 (dec_str (t_mon t + 1)) @ ''-''
     @ zero_pad 2 (dec_str (t_mday t)) @ ''T'' @ zero_pad 2 (dec_str (t_hour t)) @ '':''
     @ zero_pad 2 (dec_str (t_min t)) @ '':'' @ zero_pad 2 (dec_str (t_sec t)) @ ''.''
     @ zero_pad 6 (dec_str (t_nsec t div 1000)) @ ''Z''"

definition base_name :: "string \<Rightarrow> string" where
  "base_name file = rev (takeWhile (\<lambda>c. c \<noteq> CHR ''/'') (rev file))"

definition pad_right :: "nat \<Rightarrow> string \<Rightarrow> string" where
  "pad_right n s = s @ replicate (n - length s) (CHR '' '')"

definition vlog :: "Logger \<Rightarrow> LogLevel \<Rightarrow> string \<Rightarrow> nat \<Rightarrow> string option \<Rightarrow> log_time \<Rightarrow> nat \<Rightarrow> nat
    \<Rightarrow> (FILEp \<times> string) option" where
  "vlog L l file line msg t pid tid =
     (case msg of None \<Rightarrow> None
      | Some m \<Rightarrow>
          Some (case l_sink L of Some f \<Rightarrow> f | None \<Rightarrow> Std_err,
            log_stamp t @ '' '' @ pad_right 5 (level_name l) @ '' pid='' @ dec_str pid @ '' tid='' @ dec_str tid
            @ '' '' @ base_name file @ '':'' @ dec_str line @ ''  '' @ log_body m @ [CHR 0x0A]))"

definition log_call :: "Logger \<Rightarrow> LogLevel \<Rightarrow> string \<Rightarrow> nat \<Rightarrow> string option \<Rightarrow> log_time \<Rightarrow> nat \<Rightarrow> nat
    \<Rightarrow> (FILEp \<times> string) option" where
  "log_call L l file line msg t pid tid = (if \<not> enabled L l then None else vlog L l file line msg t pid tid)"


section \<open>The sink is closed once, and only by its owner\<close>

datatype sink_op = Use_path string "FILEp option" | Use_FILE "FILEp option" | Destroy

fun sink_apply :: "Logger \<Rightarrow> sink_op \<Rightarrow> Logger" where
  "sink_apply L (Use_path p f) = snd (set_sink_file L (\<lambda>_. f) p)"
| "sink_apply L (Use_FILE f) = set_sink_FILE L f"
| "sink_apply L Destroy = close_owned_sink_locked L"

fun opened_by :: "sink_op \<Rightarrow> FILEp list" where
  "opened_by (Use_path p (Some f)) = (if p = [] \<or> p = ''stderr'' then [] else [f])"
| "opened_by _ = []"

definition held :: "Logger \<Rightarrow> FILEp list" where
  "held L = (case l_sink L of Some f \<Rightarrow> if l_owned L \<and> f \<noteq> Std_err then [f] else [] | None \<Rightarrow> [])"

lemma held_close: "l_closed (close_owned_sink_locked L) = l_closed L @ held L"
  "held (close_owned_sink_locked L) = []"
  by (auto simp: close_owned_sink_locked_def held_def Let_def split: option.splits)

lemma sink_step:
  assumes "Std_err \<notin> set (opened_by x)"
  shows "l_closed (sink_apply L x) @ held (sink_apply L x) = l_closed L @ held L @ opened_by x"
proof (cases x)
  case (Use_path p f)
  with assms show ?thesis
    using held_close [of L]
    by (cases f) (auto simp: set_sink_file_def Let_def held_def split: if_splits)
next
  case (Use_FILE f)
  with assms show ?thesis
    using held_close [of L] by (auto simp: set_sink_FILE_def Let_def held_def split: if_splits)
next
  case Destroy
  with assms show ?thesis using held_close [of L] by simp
qed

lemma sink_run:
  assumes "Std_err \<notin> set (concat (map opened_by xs))"
  shows "l_closed (foldl sink_apply L xs) @ held (foldl sink_apply L xs)
    = l_closed L @ held L @ concat (map opened_by xs)"
  using assms
proof (induction xs arbitrary: L)
  case (Cons x xs)
  have "Std_err \<notin> set (opened_by x)" using Cons.prems by simp
  with Cons.IH [of "sink_apply L x"] sink_step [OF this, of L] Cons.prems show ?case by simp
qed simp


section \<open>Properties\<close>

text \<open>
  However its sink is redirected and finally destroyed, the logger closes exactly the files it
  opened itself, each once and in the order they were opened: the closed files followed by the one
  still held are the files opened so far. A lent file and \<^verbatim>\<open>stderr\<close> are never closed. (\<^verbatim>\<open>fopen\<close> never
  returns \<^verbatim>\<open>stderr\<close>.)
\<close>

theorem logger_closes_own_files_once:
  assumes "Std_err \<notin> set (concat (map opened_by xs))"
  shows "l_closed (foldl sink_apply new_logger (xs @ [Destroy])) = concat (map opened_by xs)
    \<and> l_closed (foldl sink_apply new_logger xs) @ held (foldl sink_apply new_logger xs)
      = concat (map opened_by xs)"
proof -
  have "l_closed (foldl sink_apply new_logger xs) @ held (foldl sink_apply new_logger xs)
      = concat (map opened_by xs)"
    using sink_run [OF assms, of new_logger] by (simp add: new_logger_def held_def)
  then show ?thesis by (simp add: held_close)
qed

theorem logger_closes_own_files_once_witness:
  "l_closed (foldl sink_apply new_logger ([Use_path ''x'' (Some (Opened 1)), Use_FILE (Some (Lent 1)), Use_path ''y'' (Some (Opened 2))] @ [Destroy]))
     = concat (map opened_by [Use_path ''x'' (Some (Opened 1)), Use_FILE (Some (Lent 1)), Use_path ''y'' (Some (Opened 2))])
   \<and> l_closed (foldl sink_apply new_logger [Use_path ''x'' (Some (Opened 1)), Use_FILE (Some (Lent 1)), Use_path ''y'' (Some (Opened 2))])
       @ held (foldl sink_apply new_logger [Use_path ''x'' (Some (Opened 1)), Use_FILE (Some (Lent 1)), Use_path ''y'' (Some (Opened 2))])
     = concat (map opened_by [Use_path ''x'' (Some (Opened 1)), Use_FILE (Some (Lent 1)), Use_path ''y'' (Some (Opened 2))])"
  by (rule logger_closes_own_files_once) simp

text \<open>
  The level names are read back by the parser, in either letter case.
\<close>

lemma parse_level_name: "parse_level (Some (level_name l)) fb = l \<and> parse_level (Some (map to_upper (level_name l))) fb = l"
  by (induction l) code_simp+

text \<open>
  A failed \<^verbatim>\<open>set_sink_file\<close> does not preserve the previous sink: it was closed before the open was tried.
\<close>

theorem failed_sink_file_drops_sink:
  "let L = snd (set_sink_file new_logger (\<lambda>_. Some (Opened 1)) ''a'')
   in set_sink_file L (\<lambda>_. None) ''b''
      = (False, L\<lparr>l_sink := Some Std_err, l_owned := False, l_path := [], l_closed := [Opened 1]\<rparr>)"
  by (simp add: set_sink_file_def close_owned_sink_locked_def new_logger_def)

end
