(* ===== verification/Shm_Segment.thy ===== *)
theory Shm_Segment
  imports Shm_Ring C_Strings
begin

text \<open>
  The shared segment of \<^verbatim>\<open>include/socksdirect/shm_segment.hpp\<close>: layout, creation, joining, the wait
  for the peer, reference counting and removal. The shared memory of the host is a world of named
  objects: a name refers to an object, and an object outlives its name while it is mapped, as POSIX
  prescribes. What other processes do while this one sleeps is a schedule, a list of functions on the
  world, of which every \<^verbatim>\<open>usleep\<close> and every futex wait consumes one. \<open>None\<close> is an access beyond the
  end of an object (\<^verbatim>\<open>SIGBUS\<close>).
\<close>

section \<open>Layout\<close>

definition kShmSegmentMagic :: u32 where
  "kShmSegmentMagic = 0x53444D31"

definition ring_bytes :: u64 where
  "ring_bytes = 2 ^ 20"

text \<open>Two cache lines of counters and the data: \<^verbatim>\<open>sizeof(ShmSegmentRing)\<close>.\<close>

definition sizeof_ring :: u64 where
  "sizeof_ring = 64 + 64 + ring_bytes"

definition sizeof_header :: u64 where
  "sizeof_header = 64"

definition layout_bytes :: u64 where
  "layout_bytes =
     (let want = sizeof_header + 2 * sizeof_ring; page = 4096
      in (want + page - 1) AND NOT (page - 1))"

definition off_creator_to_joiner :: u64 where
  "off_creator_to_joiner = sizeof_header"

definition off_joiner_to_creator :: u64 where
  "off_joiner_to_creator = sizeof_header + sizeof_ring"

definition name_for_key :: "u64 \<Rightarrow> string" where
  "name_for_key key = take 31 (''/sd-'' @ zero_pad 16 (hex_str (unat key)))"

record segment =
  seg_size :: u64
  h_magic :: u32
  h_abi_major :: u16
  h_abi_minor :: u16
  h_refcount :: int
  h_creator_pid :: int
  h_joiner_pid :: int
  h_ring_size :: u32
  h_wake_c2j :: u32
  h_wake_j2c :: u32
  ring_c2j :: shm_ring
  ring_j2c :: shm_ring

definition zero_ring :: shm_ring where
  "zero_ring = \<lparr>r_tail = 0, r_closed = 0, r_head = 0, r_data = replicate (2 ^ 20) 0\<rparr>"

definition zero_segment :: segment where
  "zero_segment = \<lparr>seg_size = 0, h_magic = 0, h_abi_major = 0, h_abi_minor = 0, h_refcount = 0,
     h_creator_pid = 0, h_joiner_pid = 0, h_ring_size = 0, h_wake_c2j = 0, h_wake_j2c = 0,
     ring_c2j = zero_ring, ring_j2c = zero_ring\<rparr>"

record shm_world =
  names :: "string \<Rightarrow> nat option"
  objs :: "nat \<Rightarrow> segment"
  next_obj :: nat

type_synonym sched = "(shm_world \<Rightarrow> shm_world) list"

datatype SegRole = kRoleCreator | kRoleJoiner

record ShmSegment =
  base :: "nat option"
  seg_key :: u64
  seg_role :: SegRole
  owned :: bool

definition closed_segment :: ShmSegment where
  "closed_segment = \<lparr>base = None, seg_key = 0, seg_role = kRoleCreator, owned = False\<rparr>"

definition is_open :: "ShmSegment \<Rightarrow> bool" where
  "is_open s \<longleftrightarrow> base s \<noteq> None"

definition upd_obj :: "nat \<Rightarrow> (segment \<Rightarrow> segment) \<Rightarrow> shm_world \<Rightarrow> shm_world" where
  "upd_obj i f W = W\<lparr>objs := (objs W)(i := f (objs W i))\<rparr>"


section \<open>System calls\<close>

fun sleep_tick :: "shm_world \<Rightarrow> sched \<Rightarrow> shm_world \<times> sched" where
  "sleep_tick W [] = (W, [])"
| "sleep_tick W (e # es) = (e W, es)"

text \<open>\<^verbatim>\<open>shm_open\<close> with and without \<^verbatim>\<open>O_CREAT | O_EXCL\<close>: the object a descriptor refers to.\<close>

definition shm_open_create :: "shm_world \<Rightarrow> string \<Rightarrow> (errno + nat) \<times> shm_world" where
  "shm_open_create W name =
     (if names W name \<noteq> None then (Inl EEXIST, W)
      else (Inr (next_obj W), W\<lparr>names := (names W)(name := Some (next_obj W)),
              objs := (objs W)(next_obj W := zero_segment), next_obj := next_obj W + 1\<rparr>))"

definition shm_open_existing :: "shm_world \<Rightarrow> string \<Rightarrow> errno + nat" where
  "shm_open_existing W name = (case names W name of None \<Rightarrow> Inl ENOENT | Some i \<Rightarrow> Inr i)"

definition shm_unlink :: "shm_world \<Rightarrow> string \<Rightarrow> shm_world" where
  "shm_unlink W name = W\<lparr>names := (names W)(name := None)\<rparr>"

definition unlink_by_key :: "shm_world \<Rightarrow> u64 \<Rightarrow> shm_world" where
  "unlink_by_key W key = shm_unlink W (name_for_key key)"

text \<open>A word of the header or a ring may be touched only within the size of the object.\<close>

definition mapped_ok :: "segment \<Rightarrow> bool" where
  "mapped_ok s \<longleftrightarrow> layout_bytes \<le> seg_size s"


section \<open>Opening\<close>

text \<open>
  The creator writes the header and both rings and stores the magic number last. The stores are a
  list, so that what a joiner can observe between them can be stated.
\<close>

definition creator_stores :: "int \<Rightarrow> (segment \<Rightarrow> segment) list" where
  "creator_stores pid =
     [\<lambda>s. s\<lparr>h_magic := 0, h_abi_major := 0, h_abi_minor := 0, h_refcount := 0, h_creator_pid := 0,
            h_joiner_pid := 0, h_ring_size := 0, h_wake_c2j := 0, h_wake_j2c := 0\<rparr>,
      \<lambda>s. s\<lparr>h_abi_major := 1\<rparr>,
      \<lambda>s. s\<lparr>h_abi_minor := 0\<rparr>,
      \<lambda>s. s\<lparr>h_ring_size := of_nat (unat ring_bytes)\<rparr>,
      \<lambda>s. s\<lparr>h_creator_pid := pid\<rparr>,
      \<lambda>s. s\<lparr>h_refcount := 1\<rparr>,
      \<lambda>s. s\<lparr>ring_c2j := ring_init (ring_c2j s)\<rparr>,
      \<lambda>s. s\<lparr>ring_j2c := ring_init (ring_j2c s)\<rparr>,
      \<lambda>s. s\<lparr>h_magic := kShmSegmentMagic\<rparr>]"

definition run_stores :: "(segment \<Rightarrow> segment) list \<Rightarrow> segment \<Rightarrow> segment" where
  "run_stores fs s = foldl (\<lambda>s f. f s) s fs"

text \<open>The joiner's retries: up to 5000 for the name, 100 for the size, 100 for the magic number.\<close>

fun joiner_open_loop :: "nat \<Rightarrow> shm_world \<Rightarrow> sched \<Rightarrow> string \<Rightarrow> (errno + nat) \<times> shm_world \<times> sched" where
  "joiner_open_loop 0 W es name = (Inl ENOENT, W, es)"
| "joiner_open_loop (Suc n) W es name =
     (let (W1, es1) = sleep_tick W es
      in case shm_open_existing W1 name of
           Inr i \<Rightarrow> (Inr i, W1, es1)
         | Inl e \<Rightarrow> if e \<noteq> ENOENT then (Inl e, W1, es1) else joiner_open_loop n W1 es1 name)"

fun wait_until :: "(segment \<Rightarrow> bool) \<Rightarrow> nat \<Rightarrow> nat \<Rightarrow> shm_world \<Rightarrow> sched \<Rightarrow> shm_world \<times> sched" where
  "wait_until P i 0 W es = (W, es)"
| "wait_until P i (Suc n) W es =
     (if P (objs W i) then (W, es) else (let (W1, es1) = sleep_tick W es in wait_until P i n W1 es1))"

definition open_creator :: "shm_world \<Rightarrow> u64 \<Rightarrow> int \<Rightarrow> errno option \<Rightarrow> errno option
    \<Rightarrow> (errno + ShmSegment) \<times> shm_world" where
  "open_creator W key pid truncate_err mmap_err =
     (let name = name_for_key key;
          (r1, W1) = shm_open_create W name;
          (r2, W2) = (case r1 of Inl EEXIST \<Rightarrow> shm_open_create (shm_unlink W1 name) name | _ \<Rightarrow> (r1, W1))
      in case r2 of Inl e \<Rightarrow> (Inl e, W2)
         | Inr i \<Rightarrow>
             (case truncate_err of Some e \<Rightarrow> (Inl e, shm_unlink W2 name)
              | None \<Rightarrow>
                  (let W3 = upd_obj i (\<lambda>s. s\<lparr>seg_size := layout_bytes\<rparr>) W2
                   in case mmap_err of Some e \<Rightarrow> (Inl e, W3)
                      | None \<Rightarrow>
                          (Inr \<lparr>base = Some i, seg_key = key, seg_role = kRoleCreator, owned = True\<rparr>,
                           upd_obj i (run_stores (creator_stores pid)) W3))))"

definition open_joiner :: "shm_world \<Rightarrow> sched \<Rightarrow> u64 \<Rightarrow> int \<Rightarrow> errno option
    \<Rightarrow> ((errno + ShmSegment) \<times> shm_world \<times> sched) option" where
  "open_joiner W es key pid mmap_err =
     (let name = name_for_key key;
          (r, W1, es1) = (case shm_open_existing W name of
              Inr i \<Rightarrow> (Inr i, W, es)
            | Inl e \<Rightarrow> if e = ENOENT then joiner_open_loop 5000 W es name else (Inl e, W, es))
      in case r of Inl e \<Rightarrow> Some (Inl e, W1, es1)
         | Inr i \<Rightarrow>
             (let (W2, es2) = wait_until (\<lambda>s. layout_bytes \<le> seg_size s) i 100 W1 es1
              in case mmap_err of Some e \<Rightarrow> Some (Inl e, W2, es2)
                 | None \<Rightarrow>
                     if \<not> mapped_ok (objs W2 i) then None
                     else
                       let (W3, es3) = wait_until (\<lambda>s. h_magic s = kShmSegmentMagic) i 100 W2 es2
                       in if h_magic (objs W3 i) \<noteq> kShmSegmentMagic then Some (Inl EPROTO, W3, es3)
                          else if h_abi_major (objs W3 i) \<noteq> 1 then Some (Inl EOPNOTSUPP, W3, es3)
                          else Some (Inr \<lparr>base = Some i, seg_key = key, seg_role = kRoleJoiner, owned = True\<rparr>,
                                 upd_obj i (\<lambda>s. s\<lparr>h_joiner_pid := pid, h_refcount := h_refcount s + 1\<rparr>) W3, es3)))"


section \<open>Rings and wake counters of a role\<close>

definition ring_outbound :: "SegRole \<Rightarrow> segment \<Rightarrow> shm_ring" where
  "ring_outbound role s = (if role = kRoleCreator then ring_c2j s else ring_j2c s)"

definition ring_inbound :: "SegRole \<Rightarrow> segment \<Rightarrow> shm_ring" where
  "ring_inbound role s = (if role = kRoleCreator then ring_j2c s else ring_c2j s)"

definition set_ring_outbound :: "SegRole \<Rightarrow> shm_ring \<Rightarrow> segment \<Rightarrow> segment" where
  "set_ring_outbound role r s = (if role = kRoleCreator then s\<lparr>ring_c2j := r\<rparr> else s\<lparr>ring_j2c := r\<rparr>)"

definition set_ring_inbound :: "SegRole \<Rightarrow> shm_ring \<Rightarrow> segment \<Rightarrow> segment" where
  "set_ring_inbound role r s = (if role = kRoleCreator then s\<lparr>ring_j2c := r\<rparr> else s\<lparr>ring_c2j := r\<rparr>)"

definition wake_outbound :: "SegRole \<Rightarrow> segment \<Rightarrow> u32" where
  "wake_outbound role s = (if role = kRoleCreator then h_wake_c2j s else h_wake_j2c s)"

definition wake_inbound :: "SegRole \<Rightarrow> segment \<Rightarrow> u32" where
  "wake_inbound role s = (if role = kRoleCreator then h_wake_j2c s else h_wake_c2j s)"

definition bump_outbound :: "SegRole \<Rightarrow> segment \<Rightarrow> segment" where
  "bump_outbound role s = (if role = kRoleCreator then s\<lparr>h_wake_c2j := h_wake_c2j s + 1\<rparr>
                           else s\<lparr>h_wake_j2c := h_wake_j2c s + 1\<rparr>)"

definition bump_inbound :: "SegRole \<Rightarrow> segment \<Rightarrow> segment" where
  "bump_inbound role s = (if role = kRoleCreator then s\<lparr>h_wake_j2c := h_wake_j2c s + 1\<rparr>
                          else s\<lparr>h_wake_c2j := h_wake_c2j s + 1\<rparr>)"

definition peer_pid :: "ShmSegment \<Rightarrow> shm_world \<Rightarrow> int" where
  "peer_pid seg W = (case base seg of None \<Rightarrow> 0
     | Some i \<Rightarrow> if seg_role seg = kRoleCreator then h_joiner_pid (objs W i) else h_creator_pid (objs W i))"


section \<open>Waiting for the peer and closing\<close>

function wait_peer_loop :: "int \<Rightarrow> ShmSegment \<Rightarrow> shm_world \<Rightarrow> sched \<Rightarrow> bool \<times> shm_world \<times> sched" where
  "wait_peer_loop remaining seg W es =
     (if remaining > 0 then
        if peer_pid seg W \<noteq> 0 then (True, W, es)
        else (let slice = (if remaining > 50 then 50 else remaining);
                  (W1, es1) = sleep_tick W es
              in wait_peer_loop (remaining - slice) seg W1 es1)
      else (peer_pid seg W \<noteq> 0, W, es))"
  by pat_completeness auto
termination by (relation "measure (\<lambda>(r, _). nat r)") auto

declare wait_peer_loop.simps [simp del]

definition wait_for_peer :: "int \<Rightarrow> ShmSegment \<Rightarrow> shm_world \<Rightarrow> sched \<Rightarrow> bool \<times> shm_world \<times> sched" where
  "wait_for_peer timeout_ms seg W es =
     (case base seg of None \<Rightarrow> (False, W, es)
      | Some i \<Rightarrow> wait_peer_loop timeout_ms seg (upd_obj i (bump_outbound (seg_role seg)) W) es)"

definition close_segment :: "ShmSegment \<Rightarrow> shm_world \<Rightarrow> ShmSegment \<times> shm_world" where
  "close_segment seg W =
     (case base seg of None \<Rightarrow> (seg, W)
      | Some i \<Rightarrow>
          (let role = seg_role seg;
               W1 = upd_obj i (\<lambda>s. set_ring_outbound role (mark_closed (ring_outbound role s)) s) W;
               W2 = upd_obj i (bump_outbound role) W1;
               prev = h_refcount (objs W2 i);
               W3 = upd_obj i (\<lambda>s. s\<lparr>h_refcount := h_refcount s - 1\<rparr>) W2;
               W4 = (if prev = 1 then shm_unlink W3 (name_for_key (seg_key seg)) else W3)
           in (seg\<lparr>base := None, owned := False\<rparr>, W4)))"

text \<open>Move assignment closes the target and takes over the source, which is left empty.\<close>

definition move_assign :: "ShmSegment \<Rightarrow> ShmSegment \<Rightarrow> shm_world \<Rightarrow> ShmSegment \<times> ShmSegment \<times> shm_world" where
  "move_assign target source W = (let (_, W1) = close_segment target W in (source, closed_segment, W1))"


section \<open>Lemmas\<close>

lemma upd_obj_simps [simp]:
  "names (upd_obj i f W) = names W" "next_obj (upd_obj i f W) = next_obj W"
  "objs (upd_obj i f W) i = f (objs W i)" "j \<noteq> i \<Longrightarrow> objs (upd_obj i f W) j = objs W j"
  by (simp_all add: upd_obj_def)

lemma shm_unlink_simps [simp]:
  "names (shm_unlink W n) = (names W)(n := None)" "objs (shm_unlink W n) = objs W"
  "next_obj (shm_unlink W n) = next_obj W"
  by (simp_all add: shm_unlink_def)

lemma name_for_key_length: "length (name_for_key k) = 20"
  and name_for_key_hex: "name_for_key k = ''/sd-'' @ zero_pad 16 (hex_str (unat k))"
proof -
  have "unat k < 16 ^ 16" using unat_bound [of k] by simp
  then have "length (zero_pad 16 (hex_str (unat k))) = 16" by (rule hex_str_length) simp
  then show "length (name_for_key k) = 20" "name_for_key k = ''/sd-'' @ zero_pad 16 (hex_str (unat k))"
    by (simp_all add: name_for_key_def)
qed

lemma name_for_key_inject: "name_for_key k = name_for_key k' \<longleftrightarrow> k = k'"
proof
  assume "name_for_key k = name_for_key k'"
  then have "zero_pad 16 (hex_str (unat k)) = zero_pad 16 (hex_str (unat k'))"
    by (simp add: name_for_key_hex)
  then have "Some (unat k) = Some (unat k')" using hex_acc_str by metis
  then show "k = k'" by (simp add: word_unat_eq_iff)
qed simp

definition created :: "int \<Rightarrow> segment \<Rightarrow> segment" where
  "created pid s = s\<lparr>h_magic := kShmSegmentMagic, h_abi_major := 1, h_abi_minor := 0, h_refcount := 1,
     h_creator_pid := pid, h_joiner_pid := 0, h_ring_size := of_nat (unat ring_bytes), h_wake_c2j := 0,
     h_wake_j2c := 0, ring_c2j := ring_init (ring_c2j s), ring_j2c := ring_init (ring_j2c s)\<rparr>"

lemma run_creator_stores: "run_stores (creator_stores pid) s = created pid s"
  by (simp add: run_stores_def creator_stores_def created_def)

lemma open_creator_spec:
  "open_creator W key pid None None
     = (Inr \<lparr>base = Some (next_obj W), seg_key = key, seg_role = kRoleCreator, owned = True\<rparr>,
        W\<lparr>names := (names W)(name_for_key key := Some (next_obj W)),
          objs := (objs W)(next_obj W := created pid (zero_segment\<lparr>seg_size := layout_bytes\<rparr>)),
          next_obj := next_obj W + 1\<rparr>)"
  by (simp add: open_creator_def shm_open_create_def shm_unlink_def run_creator_stores upd_obj_def Let_def)

lemma wait_until_done: "P (objs W i) \<Longrightarrow> wait_until P i n W es = (W, es)"
  by (cases n) simp_all

lemma open_joiner_ready:
  assumes "names W (name_for_key key) = Some i" "h_magic (objs W i) = kShmSegmentMagic"
    "h_abi_major (objs W i) = 1" "layout_bytes \<le> seg_size (objs W i)"
  shows "open_joiner W es key pid None
    = Some (Inr \<lparr>base = Some i, seg_key = key, seg_role = kRoleJoiner, owned = True\<rparr>,
        upd_obj i (\<lambda>s. s\<lparr>h_joiner_pid := pid, h_refcount := h_refcount s + 1\<rparr>) W, es)"
  using assms by (simp add: open_joiner_def shm_open_existing_def wait_until_done mapped_ok_def)

lemma wait_peer_present: "peer_pid seg W \<noteq> 0 \<Longrightarrow> wait_peer_loop n seg W es = (True, W, es)"
  by (subst wait_peer_loop.simps) simp

lemma close_segment_spec:
  assumes "base seg = Some i"
  shows "close_segment seg W =
    (seg\<lparr>base := None, owned := False\<rparr>,
     (if h_refcount (objs W i) = 1 then \<lambda>V. shm_unlink V (name_for_key (seg_key seg)) else (\<lambda>V. V))
       (upd_obj i (\<lambda>s. (bump_outbound (seg_role seg)
           (set_ring_outbound (seg_role seg) (mark_closed (ring_outbound (seg_role seg) s)) s))
             \<lparr>h_refcount := h_refcount s - 1\<rparr>) W))"
  using assms
  by (cases "seg_role seg") (simp_all add: close_segment_def Let_def upd_obj_def bump_outbound_def set_ring_outbound_def)


section \<open>Properties\<close>



definition closes_in_order :: "ShmSegment \<Rightarrow> ShmSegment \<Rightarrow> nat \<Rightarrow> shm_world \<Rightarrow> bool" where
  "closes_in_order a b i W =
     (let n = name_for_key (seg_key a);
          W1 = snd (close_segment a W);
          W2 = snd (close_segment b W1);
          mine = ring_inbound (seg_role b) (objs W i);
          mine1 = ring_inbound (seg_role b) (objs W1 i)
      in names W1 n = Some i \<and> peer_closed mine1 \<and> contents mine1 = contents mine
         \<and> names W2 n = None \<and> h_refcount (objs W2 i) = 0
         \<and> \<not> is_open (fst (close_segment a W)) \<and> \<not> is_open (fst (close_segment b W1)))"

lemma mark_closed_contents: "contents (mark_closed r) = contents r" "peer_closed (mark_closed r)"
  by (simp_all add: contents_def ring_at_def [abs_def] mark_closed_def peer_closed_def)

text \<open>
  C8. The life of a segment between two processes, the joiner's id not 0. Whatever the host's shared memory holds, also a leftover object under the
  same name, the creator's open succeeds; a joiner's open then succeeds on the same object, each side
  sees the other's process id, the creator's wait for the peer ends at once, and what one side
  calls outbound is what the other calls inbound. After any traffic on the rings the two sides close in
  either order: the first close leaves the name and the peer's unread bytes in place and marks
  the peer's inbound ring closed, the second removes the name.
\<close>

theorem segment_lifecycle:
  assumes "q \<noteq> 0"
  shows "let (rc, W1) = open_creator W key p None None
   in \<exists>c j W2. rc = Inr c \<and> open_joiner W1 es key q None = Some (Inr j, W2, es)
      \<and> base c = Some (next_obj W) \<and> base j = Some (next_obj W)
      \<and> peer_pid c W2 = q \<and> peer_pid j W2 = p
      \<and> fst (wait_for_peer 200 c W2 es)
      \<and> ring_outbound (seg_role c) = ring_inbound (seg_role j)
      \<and> ring_outbound (seg_role j) = ring_inbound (seg_role c)
      \<and> wake_outbound (seg_role c) = wake_inbound (seg_role j)
      \<and> wake_outbound (seg_role j) = wake_inbound (seg_role c)
      \<and> closes_in_order c j (next_obj W) (upd_obj (next_obj W) (\<lambda>s. s\<lparr>ring_c2j := x, ring_j2c := y\<rparr>) W2)
      \<and> closes_in_order j c (next_obj W) (upd_obj (next_obj W) (\<lambda>s. s\<lparr>ring_c2j := x, ring_j2c := y\<rparr>) W2)"
proof -
  define i where "i = next_obj W"
  define W1 where "W1 = snd (open_creator W key p None None)"
  define c where "c = \<lparr>base = Some i, seg_key = key, seg_role = kRoleCreator, owned = True\<rparr>"
  define j where "j = \<lparr>base = Some i, seg_key = key, seg_role = kRoleJoiner, owned = True\<rparr>"
  have o: "open_creator W key p None None = (Inr c, W1)"
    and W1: "names W1 (name_for_key key) = Some i"
      "objs W1 i = created p (zero_segment\<lparr>seg_size := layout_bytes\<rparr>)"
    by (simp_all add: W1_def open_creator_spec c_def i_def)
  define W2 where "W2 = upd_obj i (\<lambda>s. s\<lparr>h_joiner_pid := q, h_refcount := h_refcount s + 1\<rparr>) W1"
  have j: "open_joiner W1 es key q None = Some (Inr j, W2, es)"
    unfolding j_def W2_def by (rule open_joiner_ready) (simp_all add: W1 created_def)
  define W3 where "W3 = upd_obj i (\<lambda>s. s\<lparr>ring_c2j := x, ring_j2c := y\<rparr>) W2"
  have h: "h_refcount (objs W3 i) = 2" "names W3 (name_for_key key) = Some i"
    by (simp_all add: W3_def W2_def W1 created_def)
  note cl = closes_in_order_def Let_def close_segment_spec bump_outbound_def set_ring_outbound_def
    ring_outbound_def ring_inbound_def mark_closed_contents is_open_def
  have "closes_in_order c j i W3" "closes_in_order j c i W3"
    using h by (simp_all add: cl c_def j_def)
  moreover have "fst (wait_for_peer 200 c W2 es)"
    using assms by (simp add: wait_for_peer_def c_def wait_peer_present peer_pid_def W2_def bump_outbound_def)
  moreover have "peer_pid c W2 = q" "peer_pid j W2 = p"
    by (simp_all add: peer_pid_def c_def j_def W2_def W1 created_def)
  moreover have "ring_outbound (seg_role c) = ring_inbound (seg_role j)"
    "ring_outbound (seg_role j) = ring_inbound (seg_role c)"
    "wake_outbound (seg_role c) = wake_inbound (seg_role j)"
    "wake_outbound (seg_role j) = wake_inbound (seg_role c)"
    by (simp_all add: fun_eq_iff c_def j_def ring_outbound_def ring_inbound_def wake_outbound_def wake_inbound_def)
  moreover have "base c = Some i" "base j = Some i" by (simp_all add: c_def j_def)
  ultimately show ?thesis
    unfolding o Let_def prod.case i_def [symmetric] using j
    by (intro exI [of _ c] exI [of _ j] exI [of _ W2]) (simp flip: W3_def)
qed

text \<open>Processes 1 and 2 on a host whose shared memory is empty.\<close>

theorem segment_lifecycle_witness:
  "let W = \<lparr>names = (\<lambda>_. None), objs = (\<lambda>_. zero_segment), next_obj = 0\<rparr>;
       (rc, W1) = open_creator W 7 1 None None
   in \<exists>c j W2. rc = Inr c \<and> open_joiner W1 [] 7 2 None = Some (Inr j, W2, [])
      \<and> base c = Some 0 \<and> base j = Some 0 \<and> peer_pid c W2 = 2 \<and> peer_pid j W2 = 1
      \<and> fst (wait_for_peer 200 c W2 [])"
  using segment_lifecycle [of 2 "\<lparr>names = (\<lambda>_. None), objs = (\<lambda>_. zero_segment), next_obj = 0\<rparr>" 7 1 "[]"]
  unfolding Let_def by (simp add: case_prod_beta) blast

text \<open>
  A joiner that gave up waiting for the creator's \<^verbatim>\<open>ftruncate\<close> maps the object all the same and touches
  memory behind its end.
\<close>

theorem joiner_maps_short_object:
  assumes "names W (name_for_key key) = Some i" "seg_size (objs W i) = 0"
  shows "open_joiner W [] key q None = None"
proof -
  have "\<not> layout_bytes \<le> 0" by (simp add: layout_bytes_def sizeof_header_def sizeof_ring_def ring_bytes_def)
  moreover have "wait_until P i n W [] = (W, [])" for P n by (induction n) simp_all
  ultimately show ?thesis
    using assms by (simp add: open_joiner_def shm_open_existing_def mapped_ok_def)
qed

end
