(* ===== verification/Shm_Conn.thy ===== *)
theory Shm_Conn
  imports Shm_Segment Monitor_Ipc Shm_Handshake Config_File
begin

text \<open>
  The library's connections: \<^verbatim>\<open>src/lib/shm_conn.hpp\<close> and \<^verbatim>\<open>src/lib/shm_conn.cpp\<close>. The registry maps an
  fd to its connection; \<^verbatim>\<open>try_attach\<close> asks the monitor for a key and opens the segment; the watchdog
  closes the rings of peers that died. The monitor is an argument: what the process that listens on a
  socket path answers to a request line, \<open>None\<close> when it cannot be reached or the request cannot be written.
  The per-direction mutexes of a connection are not part of its record.
\<close>

record ShmConn =
  c_segment :: ShmSegment
  c_key :: u64
  c_nonblocking :: bool
  c_real_fd :: int
  c_sent_eof :: bool
  c_bytes_sent :: u64
  c_bytes_recv :: u64
  c_ring_full :: u64
  c_ring_empty :: u64
  c_notify_fd :: int

definition new_conn :: "ShmSegment \<Rightarrow> u64 \<Rightarrow> int \<Rightarrow> ShmConn" where
  "new_conn seg key fd = \<lparr>c_segment = seg, c_key = key, c_nonblocking = False, c_real_fd = fd,
     c_sent_eof = False, c_bytes_sent = 0, c_bytes_recv = 0, c_ring_full = 0, c_ring_empty = 0, c_notify_fd = -1\<rparr>"


section \<open>The registry\<close>

text \<open>The element type is a parameter: connections, or references to them.\<close>

type_synonym 'c ConnRegistry = "(int, 'c) std_map"

definition reg_install :: "int \<Rightarrow> 'c \<Rightarrow> 'c ConnRegistry \<Rightarrow> 'c ConnRegistry" where
  "reg_install fd c R = map_put fd c R"

definition reg_lookup :: "'c ConnRegistry \<Rightarrow> int \<Rightarrow> 'c option" where
  "reg_lookup R fd = map_find R fd"

definition reg_snapshot :: "'c ConnRegistry \<Rightarrow> 'c list" where
  "reg_snapshot R = map snd R"

definition reg_remove :: "int \<Rightarrow> 'c ConnRegistry \<Rightarrow> 'c option \<times> 'c ConnRegistry" where
  "reg_remove fd R = (case map_find R fd of None \<Rightarrow> (None, R) | Some c \<Rightarrow> (Some c, map_erase fd R))"

definition reg_size :: "'c ConnRegistry \<Rightarrow> nat" where
  "reg_size R = length R"


section \<open>The watchdog\<close>

text \<open>\<open>kill pid\<close> is the error of \<^verbatim>\<open>kill(pid, 0)\<close>, or \<open>None\<close> when the process exists.\<close>

definition sweep_conn :: "(int \<Rightarrow> errno option) \<Rightarrow> ShmConn \<Rightarrow> shm_world \<Rightarrow> shm_world" where
  "sweep_conn kill c W =
     (case base (c_segment c) of None \<Rightarrow> W
      | Some i \<Rightarrow>
          (let pid = peer_pid (c_segment c) W; role = seg_role (c_segment c)
           in if pid \<le> 0 then W
              else case kill pid of None \<Rightarrow> W
                 | Some e \<Rightarrow>
                     if e = EPERM then W
                     else
                       let W1 = upd_obj i (\<lambda>s. set_ring_inbound role (mark_closed (ring_inbound role s)) s) W;
                           W2 = upd_obj i (bump_inbound role) W1
                       in unlink_by_key W2 (c_key c)))"

definition sweep_once :: "(int \<Rightarrow> errno option) \<Rightarrow> ShmConn ConnRegistry \<Rightarrow> shm_world \<Rightarrow> shm_world" where
  "sweep_once kill R W = fold (sweep_conn kill) (reg_snapshot R) W"


section \<open>Endpoints and the handshake\<close>

record sockaddr_in =
  sin_family :: nat
  sin_addr :: "u8 list"
  sin_port :: u16

definition AF_INET :: nat where
  "AF_INET = 2"

text \<open>\<^verbatim>\<open>inet_ntop\<close> of an IPv4 address: dotted decimal.\<close>

fun dotted :: "nat list \<Rightarrow> string" where
  "dotted [] = []"
| "dotted [b] = dec_str b"
| "dotted (b # bs) = dec_str b @ ''.'' @ dotted bs"

definition format_endpoint :: "sockaddr_in option \<Rightarrow> string" where
  "format_endpoint sa =
     (case sa of None \<Rightarrow> []
      | Some a \<Rightarrow>
          if sin_family a \<noteq> AF_INET then []
          else take 63 (dotted (map unat (sin_addr a)) @ '':'' @ dec_str (unat (sin_port a))))"

definition canonical :: "string \<Rightarrow> string \<Rightarrow> string \<times> string" where
  "canonical x y = (if x < y then (x, y) else (y, x))"

definition register_request :: "string \<Rightarrow> string \<Rightarrow> int \<Rightarrow> CtlRequest" where
  "register_request local_ep peer_ep pid =
     (let (a, b) = canonical local_ep peer_ep
      in \<lparr>req_op = ''shm-register'', req_args = [a, b, take 15 (int_str pid)]\<rparr>)"

text \<open>The loop over the answer's lines: key, role and whether each was seen.\<close>

definition scan_line :: "(u64 \<times> bool) \<times> bool \<times> bool \<Rightarrow> string \<Rightarrow> (u64 \<times> bool) \<times> bool \<times> bool" where
  "scan_line st l =
     (case st of ((key, creator), got_key, got_role) \<Rightarrow>
        if take 8 l = ''shm_key='' then ((fst (strtoull (drop 8 (c_str l))), creator), True, got_role)
        else if l = ''role=creator'' then ((key, True), got_key, True)
        else if l = ''role=joiner'' then ((key, False), got_key, True)
        else st)"

type_synonym monitor = "string \<Rightarrow> string \<Rightarrow> string option"

definition request_key_from_monitor :: "monitor \<Rightarrow> environment \<Rightarrow> Config \<Rightarrow> string \<Rightarrow> string \<Rightarrow> int
    \<Rightarrow> (u64 \<times> bool) option" where
  "request_key_from_monitor monitor env cfg local_ep peer_ep pid =
     (case monitor (get_string env cfg ''monitor'' ''control_socket'' kMonitorCtlSocketDefault) (encode_request (register_request local_ep peer_ep pid)) of None \<Rightarrow> None
      | Some line \<Rightarrow>
          (case decode_response line of None \<Rightarrow> None
           | Some resp \<Rightarrow>
               if \<not> resp_ok resp then None
               else (case foldl scan_line ((0, False), False, False) (resp_lines resp) of
                   ((key, creator), got_key, got_role) \<Rightarrow>
                     if \<not> got_key \<or> \<not> got_role \<or> key = 0 then None else Some (key, creator))))"

definition is_loopback :: "string \<Rightarrow> bool" where
  "is_loopback ep \<longleftrightarrow> take 10 ep = ''127.0.0.1:'' \<or> take 10 ep = ''127.0.0.0:''"

text \<open>
  \<^verbatim>\<open>try_attach\<close>: the connection, or \<open>None\<close> for the fallback to TCP, with the world, the schedule and the
  value of \<^verbatim>\<open>shm_conns_total\<close> it leaves. When the peer does not show up in time, the connection object is
  destroyed, which closes the segment. The outer \<open>None\<close> is a fault. The start of the watchdog thread
  leaves no trace here: its sweeps are steps of their own.
\<close>

definition try_attach :: "monitor \<Rightarrow> environment \<Rightarrow> Config \<Rightarrow> string \<Rightarrow> string \<Rightarrow> int \<Rightarrow> int
    \<Rightarrow> errno option \<Rightarrow> errno option \<Rightarrow> u64 \<Rightarrow> shm_world \<Rightarrow> sched
    \<Rightarrow> (ShmConn option \<times> u64 \<times> shm_world \<times> sched) option" where
  "try_attach monitor env cfg local_ep peer_ep real_fd pid truncate_err mmap_err conns W es =
     (if \<not> is_loopback local_ep \<or> \<not> is_loopback peer_ep then Some (None, conns, W, es)
      else case request_key_from_monitor monitor env cfg local_ep peer_ep pid of
          None \<Rightarrow> Some (None, conns, W, es)
        | Some (key, is_creator) \<Rightarrow>
            (case (if is_creator then let (r, W1) = open_creator W key pid truncate_err mmap_err in Some (r, W1, es)
                   else open_joiner W es key pid mmap_err) of
               None \<Rightarrow> None
             | Some (Inl e, W1, es1) \<Rightarrow> Some (None, conns, W1, es1)
             | Some (Inr seg, W1, es1) \<Rightarrow>
                 (let (peer, W2, es2) = wait_for_peer 200 seg W1 es1
                  in if \<not> peer then Some (None, conns, snd (close_segment seg W2), es2)
                     else Some (Some (new_conn seg key real_fd), conns + 1, W2, es2))))"


section \<open>Endpoint names\<close>

lemma dec_acc_str: "\<not> starts_digit r \<Longrightarrow> dec_acc 0 (dec_str n @ r) = (n, r)"
  using dec_acc_digits [of "digits 10 n" r 0] by (simp add: dec_str_def digits_bound digits_value)

lemma dec_str_split:
  assumes "dec_str n @ c # r = dec_str m @ c # r'" "\<not> isdigit c"
  shows "n = m \<and> r = r'"
proof -
  have "dec_acc 0 (dec_str n @ c # r) = (n, c # r)" "dec_acc 0 (dec_str m @ c # r') = (m, c # r')"
    using assms(2) by (intro dec_acc_str; simp add: starts_digit_def)+
  then show ?thesis by (simp only: assms(1)) simp
qed

lemma dec_str_inject: "dec_str n = dec_str m \<Longrightarrow> n = m"
  using dec_acc_str [of "[]" n] dec_acc_str [of "[]" m] by (simp add: starts_digit_def)

lemma dec_str_length: "n < 10 ^ k \<Longrightarrow> 0 < k \<Longrightarrow> length (dec_str n) \<le> k"
  using digits_length [of 10 n k] by (simp add: dec_str_def)

definition ipv4 :: "sockaddr_in \<Rightarrow> bool" where
  "ipv4 a \<longleftrightarrow> sin_family a = AF_INET \<and> length (sin_addr a) = 4"

lemma format_endpoint_text:
  assumes "ipv4 a"
  shows "format_endpoint (Some a) = dotted (map unat (sin_addr a)) @ '':'' @ dec_str (unat (sin_port a))"
    "length (format_endpoint (Some a)) \<le> 21"
proof -
  obtain b1 b2 b3 b4 where b: "sin_addr a = [b1, b2, b3, b4]"
    using assms by (auto simp: ipv4_def length_Suc_conv eval_nat_numeral)
  have l: "length (dec_str (unat b)) \<le> 3" for b :: u8
    using unat_bound [of b] by (intro dec_str_length) simp_all
  have "length (dec_str (unat (sin_port a))) \<le> 5"
    using unat_bound [of "sin_port a"] by (intro dec_str_length) simp_all
  with l [of b1] l [of b2] l [of b3] l [of b4]
  have "length (dotted (map unat (sin_addr a)) @ '':'' @ dec_str (unat (sin_port a))) \<le> 21"
    by (simp add: b)
  then show "format_endpoint (Some a) = dotted (map unat (sin_addr a)) @ '':'' @ dec_str (unat (sin_port a))"
    "length (format_endpoint (Some a)) \<le> 21"
    using assms by (simp_all add: format_endpoint_def ipv4_def)
qed

lemma format_endpoint_inject:
  assumes "ipv4 a" "ipv4 b" "format_endpoint (Some a) = format_endpoint (Some b)"
  shows "sin_addr a = sin_addr b \<and> sin_port a = sin_port b"
proof -
  obtain a1 a2 a3 a4 where a: "sin_addr a = [a1, a2, a3, a4]"
    using assms(1) by (auto simp: ipv4_def length_Suc_conv eval_nat_numeral)
  obtain b1 b2 b3 b4 where b: "sin_addr b = [b1, b2, b3, b4]"
    using assms(2) by (auto simp: ipv4_def length_Suc_conv eval_nat_numeral)
  note d = not_isdigit(5) not_isdigit(6)
  have "unat a1 = unat b1 \<and> unat a2 = unat b2 \<and> unat a3 = unat b3 \<and> unat a4 = unat b4
      \<and> unat (sin_port a) = unat (sin_port b)"
    using assms(3) unfolding format_endpoint_text(1) [OF assms(1)] format_endpoint_text(1) [OF assms(2)] a b
    by (auto dest!: dec_str_split [OF _ d(1)] dec_str_split [OF _ d(2)] dec_str_inject)
  then show ?thesis by (simp add: a b word_unat_eq_iff)
qed

text \<open>The canonical pair the library sends is the pair the broker forms from it.\<close>

lemma canonical_make: "canonical x y = (a, b) \<Longrightarrow> make_ConnId a b = make_ConnId x y"
  by (auto simp: canonical_def make_ConnId_def split: if_splits)


section \<open>Properties\<close>

text \<open>
  Endpoint names identify endpoints: two IPv4 socket addresses have the same name only if they
  are the same address and port, no name is cut by the 64-byte buffer, and the pair of names that
  identifies a connection at the broker is the same from both sides and different for different
  connections.
\<close>

theorem endpoint_names_identify:
  assumes "ipv4 a" "ipv4 b" "ipv4 c" "ipv4 d"
  shows "(format_endpoint (Some a) = format_endpoint (Some b) \<longleftrightarrow> sin_addr a = sin_addr b \<and> sin_port a = sin_port b)
    \<and> length (format_endpoint (Some a)) < 64
    \<and> (let cid = (\<lambda>x y. case canonical (format_endpoint (Some x)) (format_endpoint (Some y)) of (p, q) \<Rightarrow> make_ConnId p q);
           ep = (\<lambda>x. (sin_addr x, sin_port x))
       in cid a b = cid b a \<and> (cid a b = cid c d \<longleftrightarrow> {ep a, ep b} = {ep c, ep d}))"
proof -
  have eq: "format_endpoint (Some x) = format_endpoint (Some y) \<longleftrightarrow> (sin_addr x, sin_port x) = (sin_addr y, sin_port y)"
    if "ipv4 x" "ipv4 y" for x y
    using format_endpoint_inject [OF that] format_endpoint_text(1) [OF that(1)] format_endpoint_text(1) [OF that(2)] by auto
  have cid: "(case canonical x y of (p, q) \<Rightarrow> make_ConnId p q) = make_ConnId x y" for x y
    using canonical_make [of x y] by (cases "canonical x y") auto
  have "length (format_endpoint (Some a)) < 64" using format_endpoint_text(2) [OF assms(1)] by linarith
  then show ?thesis
    using assms by (simp add: cid make_ConnId_sym [of "format_endpoint (Some b)"] make_ConnId_eq_iff eq doubleton_eq_iff)
qed

definition loop_addr :: "u16 \<Rightarrow> sockaddr_in" where
  "loop_addr p = \<lparr>sin_family = AF_INET, sin_addr = [127, 0, 0, 1], sin_port = p\<rparr>"

theorem endpoint_names_identify_witness:
  "(format_endpoint (Some (loop_addr 80)) = format_endpoint (Some (loop_addr 81))
      \<longleftrightarrow> sin_addr (loop_addr 80) = sin_addr (loop_addr 81) \<and> sin_port (loop_addr 80) = sin_port (loop_addr 81))
    \<and> length (format_endpoint (Some (loop_addr 80))) < 64
    \<and> (let cid = (\<lambda>x y. case canonical (format_endpoint (Some x)) (format_endpoint (Some y)) of (p, q) \<Rightarrow> make_ConnId p q);
           ep = (\<lambda>x. (sin_addr x, sin_port x))
       in cid (loop_addr 80) (loop_addr 81) = cid (loop_addr 81) (loop_addr 80)
          \<and> (cid (loop_addr 80) (loop_addr 81) = cid (loop_addr 1) (loop_addr 2)
             \<longleftrightarrow> {ep (loop_addr 80), ep (loop_addr 81)} = {ep (loop_addr 1), ep (loop_addr 2)}))"
  by (rule endpoint_names_identify) (simp_all add: ipv4_def loop_addr_def)

text \<open>What a sweep may change: names disappear, rings become closed; nothing else is lost.\<close>

definition swept :: "shm_world \<Rightarrow> shm_world \<Rightarrow> bool" where
  "swept W W' \<longleftrightarrow> (\<forall>n. names W n = None \<longrightarrow> names W' n = None)
     \<and> (\<forall>i. h_creator_pid (objs W' i) = h_creator_pid (objs W i) \<and> h_joiner_pid (objs W' i) = h_joiner_pid (objs W i)
          \<and> (\<forall>role. contents (ring_inbound role (objs W' i)) = contents (ring_inbound role (objs W i))
               \<and> (peer_closed (ring_inbound role (objs W i)) \<longrightarrow> peer_closed (ring_inbound role (objs W' i)))))"

lemma swept_refl: "swept W W"
  by (simp add: swept_def)

lemma swept_trans: "swept W W1 \<Longrightarrow> swept W1 W2 \<Longrightarrow> swept W W2"
  by (simp add: swept_def)

definition peer_gone :: "(int \<Rightarrow> errno option) \<Rightarrow> shm_world \<Rightarrow> ShmConn \<Rightarrow> bool" where
  "peer_gone kill W c \<longleftrightarrow> base (c_segment c) \<noteq> None \<and> peer_pid (c_segment c) W > 0
     \<and> kill (peer_pid (c_segment c) W) \<notin> {None, Some EPERM}"

lemma swept_peer_gone: "swept W W' \<Longrightarrow> peer_gone kill W' c = peer_gone kill W c"
  by (auto simp: swept_def peer_gone_def peer_pid_def split: option.splits)

lemma sweep_conn_alive: "\<not> peer_gone kill W c \<Longrightarrow> sweep_conn kill c W = W"
  by (auto simp: peer_gone_def sweep_conn_def Let_def split: option.splits)

lemma sweep_conn_gone:
  assumes "peer_gone kill W c" "base (c_segment c) = Some i"
  shows "sweep_conn kill c W = unlink_by_key (upd_obj i (bump_inbound (seg_role (c_segment c)))
    (upd_obj i (\<lambda>s. set_ring_inbound (seg_role (c_segment c)) (mark_closed (ring_inbound (seg_role (c_segment c)) s)) s) W)) (c_key c)"
  using assms by (auto simp: peer_gone_def sweep_conn_def Let_def split: option.splits)

lemma sweep_conn_swept: "swept W (sweep_conn kill c W)"
proof (cases "peer_gone kill W c")
  case True
  then obtain i where i: "base (c_segment c) = Some i" by (auto simp: peer_gone_def)
  show ?thesis
    unfolding sweep_conn_gone [OF True i] swept_def
    by (auto simp: unlink_by_key_def upd_obj_def set_ring_inbound_def ring_inbound_def bump_inbound_def mark_closed_contents)
qed (simp add: sweep_conn_alive swept_refl)

lemma sweep_conn_closes:
  assumes "peer_gone kill W c" "base (c_segment c) = Some i"
  shows "names (sweep_conn kill c W) (name_for_key (c_key c)) = None
    \<and> peer_closed (ring_inbound (seg_role (c_segment c)) (objs (sweep_conn kill c W) i))"
  unfolding sweep_conn_gone [OF assms]
  by (simp add: unlink_by_key_def set_ring_inbound_def ring_inbound_def bump_inbound_def mark_closed_contents)

lemma sweep_fold_swept: "swept W (fold (sweep_conn kill) cs W)"
  by (induction cs arbitrary: W) (auto intro: swept_refl swept_trans sweep_conn_swept)

lemma sweep_fold_closes:
  assumes "c \<in> set cs" "peer_gone kill W c" "base (c_segment c) = Some i"
  shows "names (fold (sweep_conn kill) cs W) (name_for_key (c_key c)) = None
    \<and> peer_closed (ring_inbound (seg_role (c_segment c)) (objs (fold (sweep_conn kill) cs W) i))"
  using assms
proof (induction cs arbitrary: W)
  case (Cons d cs)
  show ?case
  proof (cases "c = d")
    case True
    then show ?thesis
      using sweep_conn_closes [OF Cons.prems(2,3)] sweep_fold_swept [of "sweep_conn kill d W" kill cs]
      by (simp add: swept_def)
  next
    case False
    then show ?thesis
      using Cons swept_peer_gone [OF sweep_conn_swept [of W kill d], of kill c] by simp
  qed
qed simp

text \<open>What a sweep leaves alone: objects and names that no connection with a dead peer uses.\<close>

lemma sweep_conn_only:
  "\<not> (peer_gone kill W c \<and> base (c_segment c) = Some i) \<Longrightarrow> objs (sweep_conn kill c W) i = objs W i"
  "\<not> (peer_gone kill W c \<and> name_for_key (c_key c) = n) \<Longrightarrow> names (sweep_conn kill c W) n = names W n"
  by (auto simp: peer_gone_def sweep_conn_def Let_def upd_obj_def unlink_by_key_def split: option.splits)

lemma sweep_fold_only:
  "\<forall>c\<in>set cs. \<not> (peer_gone kill W c \<and> base (c_segment c) = Some i) \<Longrightarrow> objs (fold (sweep_conn kill) cs W) i = objs W i"
  "\<forall>c\<in>set cs. \<not> (peer_gone kill W c \<and> name_for_key (c_key c) = n) \<Longrightarrow> names (fold (sweep_conn kill) cs W) n = names W n"
  by (induction cs arbitrary: W) (simp_all add: sweep_conn_only swept_peer_gone [OF sweep_conn_swept])



end
