(* ===== verification/Metrics_Registry.thy ===== *)
theory Metrics_Registry
  imports C_Strings Std_Map "HOL-Library.Multiset"
begin

text \<open>
  The metrics of \<^verbatim>\<open>include/socksdirect/metrics.hpp\<close>: counters and gauges updated by compare-and-swap
  loops, histograms, the registry and its text format. A floating-point number is its bit pattern, of a
  type \<open>'d\<close>; the arithmetic and the comparisons of the hardware and the conversion \<^verbatim>\<open>%.17g\<close> are an argument,
  so that what is shown does not depend on rounding. The registry's mutex makes its operations atomic.
\<close>

record 'd dbl =
  d_zero :: 'd
  d_add :: "'d \<Rightarrow> 'd \<Rightarrow> 'd"
  d_neg :: "'d \<Rightarrow> 'd"
  d_lt :: "'d \<Rightarrow> 'd \<Rightarrow> bool"
  d_le :: "'d \<Rightarrow> 'd \<Rightarrow> bool"
  d_isnan :: "'d \<Rightarrow> bool"
  d_isinf :: "'d \<Rightarrow> bool"
  d_print :: "'d \<Rightarrow> string"

text \<open>\<^verbatim>\<open>snprintf\<close> cuts its output at 63 characters.\<close>

definition fmt_double :: "'d dbl \<Rightarrow> 'd \<Rightarrow> string" where
  "fmt_double D v = (if d_isnan D v then ''NaN''
     else if d_isinf D v then (if d_lt D v (d_zero D) then ''-Inf'' else ''+Inf'')
     else take 63 (d_print D v))"


section \<open>Labels\<close>

definition label_escape :: "char \<Rightarrow> string" where
  "label_escape c = (if c = CHR 0x5C then [CHR 0x5C, CHR 0x5C] else if c = CHR 0x22 then [CHR 0x5C, CHR 0x22]
     else if c = CHR 0x0A then [CHR 0x5C, CHR ''n''] else [c])"

fun label_join :: "bool \<Rightarrow> (string \<times> string) list \<Rightarrow> string" where
  "label_join first [] = []"
| "label_join first ((k, v) # kvs) =
     (if first then [] else '','') @ k @ ''='' @ [CHR 0x22] @ concat (map label_escape v) @ [CHR 0x22]
     @ label_join False kvs"

definition fmt_labels :: "(string \<times> string) list \<Rightarrow> string" where
  "fmt_labels labels = (if labels = [] then [] else [CHR 0x7B] @ label_join True labels @ ''}'')"


section \<open>Counters and gauges\<close>

text \<open>
  Threads that add to one cell. A thread loads the value, then tries to exchange it; a failed
  exchange, also a spurious one, reloads. The log of completed additions is ghost state.
\<close>

datatype 'd cas_pc = Start 'd | Loaded 'd 'd | Finished

record 'd cell =
  cell_bits :: 'd
  threads :: "'d cas_pc list"
  log :: "'d list"

inductive cas_step :: "('d \<Rightarrow> 'd \<Rightarrow> 'd) \<Rightarrow> 'd cell \<Rightarrow> 'd cell \<Rightarrow> bool" for add where
  load: "t < length (threads s) \<Longrightarrow> threads s ! t = Start v \<Longrightarrow>
    cas_step add s (s\<lparr>threads := (threads s)[t := Loaded v (cell_bits s)]\<rparr>)"
| exchange: "t < length (threads s) \<Longrightarrow> threads s ! t = Loaded v old \<Longrightarrow> cell_bits s = old \<Longrightarrow>
    cas_step add s (s\<lparr>cell_bits := add old v, threads := (threads s)[t := Finished], log := log s @ [v]\<rparr>)"
| retry: "t < length (threads s) \<Longrightarrow> threads s ! t = Loaded v old \<Longrightarrow>
    cas_step add s (s\<lparr>threads := (threads s)[t := Loaded v (cell_bits s)]\<rparr>)"

inductive_cases cas_stepE: "cas_step add s s'"

definition cas_reach :: "('d \<Rightarrow> 'd \<Rightarrow> 'd) \<Rightarrow> 'd \<Rightarrow> 'd list \<Rightarrow> 'd cell \<Rightarrow> bool" where
  "cas_reach add v0 vs s \<longleftrightarrow> (cas_step add)\<^sup>*\<^sup>* \<lparr>cell_bits = v0, threads = map Start vs, log = []\<rparr> s"

text \<open>\<^verbatim>\<open>Counter::inc\<close> and the gauge operations without contention, on the value of the cell.\<close>

definition counter_inc :: "'d dbl \<Rightarrow> 'd \<Rightarrow> 'd \<Rightarrow> 'd" where
  "counter_inc D v cur = (if d_lt D v (d_zero D) then cur else d_add D cur v)"

definition gauge_set :: "'d \<Rightarrow> 'd \<Rightarrow> 'd" where
  "gauge_set v cur = v"

definition gauge_add :: "'d dbl \<Rightarrow> 'd \<Rightarrow> 'd \<Rightarrow> 'd" where
  "gauge_add D v cur = d_add D cur v"

definition gauge_inc :: "'d dbl \<Rightarrow> 'd \<Rightarrow> 'd \<Rightarrow> 'd" where
  "gauge_inc D v cur = gauge_add D v cur"

definition gauge_dec :: "'d dbl \<Rightarrow> 'd \<Rightarrow> 'd \<Rightarrow> 'd" where
  "gauge_dec D v cur = gauge_add D (d_neg D v) cur"


section \<open>Histograms\<close>

record 'd Histogram =
  buckets :: "'d list"
  counts :: "u64 list"
  hsum :: 'd
  total :: u64

text \<open>The constructor aborts, \<open>None\<close>, on a bound that is not above the one before it.\<close>

fun bounds_increasing :: "'d dbl \<Rightarrow> 'd list \<Rightarrow> bool" where
  "bounds_increasing D (a # b # bs) = (if d_le D b a then False else bounds_increasing D (b # bs))"
| "bounds_increasing D bs = True"

definition new_Histogram :: "'d dbl \<Rightarrow> 'd list \<Rightarrow> 'd Histogram option" where
  "new_Histogram D bs =
     (if bounds_increasing D bs
      then Some \<lparr>buckets = bs, counts = replicate (length bs + 1) 0, hsum = d_zero D, total = 0\<rparr> else None)"

text \<open>The binary search of \<^verbatim>\<open>std::lower_bound\<close> over \<open>n\<close> elements from position \<open>first\<close>.\<close>

function lower_bound_from :: "'d dbl \<Rightarrow> 'd list \<Rightarrow> 'd \<Rightarrow> nat \<Rightarrow> nat \<Rightarrow> nat" where
  "lower_bound_from D bs v first n =
     (if n = 0 then first
      else let half = n div 2 in
        if d_lt D (bs ! (first + half)) v then lower_bound_from D bs v (first + half + 1) (n - half - 1)
        else lower_bound_from D bs v first half)"
  by pat_completeness auto
termination by (relation "measure (\<lambda>(D, bs, v, first, n). n)") auto

declare lower_bound_from.simps [simp del]

definition lower_bound :: "'d dbl \<Rightarrow> 'd list \<Rightarrow> 'd \<Rightarrow> nat" where
  "lower_bound D bs v = lower_bound_from D bs v 0 (length bs)"

text \<open>One observation, not interleaved with others on the same histogram.\<close>

definition observe :: "'d dbl \<Rightarrow> 'd \<Rightarrow> 'd Histogram \<Rightarrow> 'd Histogram" where
  "observe D v h =
     (let idx0 = lower_bound D (buckets h) v;
          idx = (if idx0 > length (buckets h) then length (buckets h) else idx0)
      in h\<lparr>counts := (counts h)[idx := counts h ! idx + 1], hsum := d_add D (hsum h) v, total := total h + 1\<rparr>)"

record 'd Snapshot =
  s_buckets :: "'d list"
  cumulative :: "u64 list"
  s_sum :: 'd
  s_count :: u64

fun accumulate :: "u64 \<Rightarrow> u64 list \<Rightarrow> u64 list" where
  "accumulate acc [] = []"
| "accumulate acc (c # cs) = (acc + c) # accumulate (acc + c) cs"

definition snapshot :: "'d Histogram \<Rightarrow> 'd Snapshot" where
  "snapshot h = \<lparr>s_buckets = buckets h, cumulative = accumulate 0 (counts h), s_sum = hsum h, s_count = total h\<rparr>"


section \<open>The registry\<close>

record 'c MetricEntry =
  m_help :: string
  by_labels :: "(string, 'c) std_map"

record 'd HistogramEntry = "'d Histogram MetricEntry" +
  e_buckets :: "'d list"

record 'd MetricsRegistry =
  counters :: "(string, 'd MetricEntry) std_map"
  gauges :: "(string, 'd MetricEntry) std_map"
  histograms :: "(string, 'd HistogramEntry) std_map"

definition find_or :: "'e \<Rightarrow> (string, 'e) std_map \<Rightarrow> string \<Rightarrow> 'e" where
  "find_or fresh m name = (case map_find m name of Some e \<Rightarrow> e | None \<Rightarrow> fresh)"

text \<open>
  What the three registration functions do with an entry: the first help text that is not empty stays,
  and the series of the labels is made when it is missing.
\<close>

definition set_help :: "string \<Rightarrow> ('c, 'z) MetricEntry_scheme \<Rightarrow> ('c, 'z) MetricEntry_scheme" where
  "set_help help e = (if m_help e = [] then e\<lparr>m_help := help\<rparr> else e)"

definition add_series :: "(string \<times> string) list \<Rightarrow> 'c \<Rightarrow> ('c, 'z) MetricEntry_scheme \<Rightarrow> ('c, 'z) MetricEntry_scheme" where
  "add_series labels fresh e =
     (let key = fmt_labels labels
      in if map_find (by_labels e) key = None then e\<lparr>by_labels := map_put key fresh (by_labels e)\<rparr> else e)"

definition reg_counter :: "'d dbl \<Rightarrow> string \<Rightarrow> string \<Rightarrow> (string \<times> string) list \<Rightarrow> 'd MetricsRegistry \<Rightarrow> 'd MetricsRegistry" where
  "reg_counter D name help labels R =
     (let e = find_or \<lparr>m_help = [], by_labels = []\<rparr> (counters R) name
      in R\<lparr>counters := map_put name (add_series labels (d_zero D) (set_help help e)) (counters R)\<rparr>)"

definition reg_gauge :: "'d dbl \<Rightarrow> string \<Rightarrow> string \<Rightarrow> (string \<times> string) list \<Rightarrow> 'd MetricsRegistry \<Rightarrow> 'd MetricsRegistry" where
  "reg_gauge D name help labels R =
     (let e = find_or \<lparr>m_help = [], by_labels = []\<rparr> (gauges R) name
      in R\<lparr>gauges := map_put name (add_series labels (d_zero D) (set_help help e)) (gauges R)\<rparr>)"

definition reg_histogram :: "'d dbl \<Rightarrow> string \<Rightarrow> 'd list \<Rightarrow> string \<Rightarrow> (string \<times> string) list
    \<Rightarrow> 'd MetricsRegistry \<Rightarrow> 'd MetricsRegistry option" where
  "reg_histogram D name bs help labels R =
     (let e0 = find_or \<lparr>m_help = [], by_labels = [], e_buckets = []\<rparr> (histograms R) name;
          e1 = set_help help e0;
          e = (if e_buckets e1 = [] then e1\<lparr>e_buckets := bs\<rparr> else e1)
      in if map_find (by_labels e) (fmt_labels labels) \<noteq> None
         then Some (R\<lparr>histograms := map_put name e (histograms R)\<rparr>)
         else case new_Histogram D bs of None \<Rightarrow> None
            | Some h \<Rightarrow> Some (R\<lparr>histograms := map_put name (add_series labels h e) (histograms R)\<rparr>))"


section \<open>Text format\<close>

abbreviation nl :: string where "nl \<equiv> [CHR 0x0A]"

definition render_head :: "string \<Rightarrow> string \<Rightarrow> string \<Rightarrow> string" where
  "render_head name help kind = ''# HELP '' @ name @ '' '' @ help @ nl @ ''# TYPE '' @ name @ '' '' @ kind @ nl"

definition render_plain :: "'d dbl \<Rightarrow> string \<Rightarrow> (string, 'd MetricEntry) std_map \<Rightarrow> string" where
  "render_plain D kind m =
     concat (map (\<lambda>(name, e). render_head name (m_help e) kind
       @ concat (map (\<lambda>(lab, v). name @ lab @ '' '' @ fmt_double D v @ nl) (by_labels e))) m)"

definition with_le :: "string \<Rightarrow> string \<Rightarrow> string" where
  "with_le inner le = (if inner = [] then [CHR 0x7B] @ le @ ''}'' else [CHR 0x7B] @ inner @ '','' @ le @ ''}'')"

definition le_label :: "string \<Rightarrow> string" where
  "le_label s = ''le='' @ [CHR 0x22] @ s @ [CHR 0x22]"

definition render_histogram :: "'d dbl \<Rightarrow> string \<Rightarrow> string \<Rightarrow> 'd Histogram \<Rightarrow> string" where
  "render_histogram D name lab h =
     (let snap = snapshot h;
          inner = (if length lab \<ge> 2 then take (length lab - 2) (drop 1 lab) else [])
      in concat (map (\<lambda>i. name @ ''_bucket'' @ with_le inner (le_label (fmt_double D (s_buckets snap ! i))) @ '' ''
             @ dec_str (unat (cumulative snap ! i)) @ nl) [0..<length (s_buckets snap)])
         @ name @ ''_bucket'' @ with_le inner (le_label ''+Inf'') @ '' '' @ dec_str (unat (last (cumulative snap))) @ nl
         @ name @ ''_sum'' @ lab @ '' '' @ fmt_double D (s_sum snap) @ nl
         @ name @ ''_count'' @ lab @ '' '' @ dec_str (unat (s_count snap)) @ nl)"

definition render :: "'d dbl \<Rightarrow> 'd MetricsRegistry \<Rightarrow> string" where
  "render D R =
     render_plain D ''counter'' (counters R) @ render_plain D ''gauge'' (gauges R)
     @ concat (map (\<lambda>(name, e). render_head name (m_help e) ''histogram''
         @ concat (map (\<lambda>(lab, h). render_histogram D name lab h) (by_labels e))) (histograms R))"

definition metric_names :: "'d MetricsRegistry \<Rightarrow> string list" where
  "metric_names R = sort (map fst (counters R) @ map fst (gauges R) @ map fst (histograms R))"

section \<open>No update is lost\<close>

fun pending :: "'d cas_pc \<Rightarrow> 'd multiset" where
  "pending (Start v) = {#v#}"
| "pending (Loaded v old) = {#v#}"
| "pending Finished = {#}"

definition all_pending :: "'d cell \<Rightarrow> 'd multiset" where
  "all_pending s = sum_list (map pending (threads s))"

lemma sum_list_update_ms:
  "t < length ps \<Longrightarrow> sum_list (map pending (ps[t := q])) + pending (ps ! t) = sum_list (map pending ps) + pending q"
proof (induction ps arbitrary: t)
  case (Cons p ps)
  then show ?case by (cases t) (auto simp: ac_simps)
qed simp

lemma cas_step_inv:
  assumes "cas_step add s s'" "cell_bits s = foldl add v0 (log s)" "mset (log s) + all_pending s = M"
  shows "cell_bits s' = foldl add v0 (log s')" "mset (log s') + all_pending s' = M"
proof -
  note upd = sum_list_update_ms [of _ "threads s"]
  show "cell_bits s' = foldl add v0 (log s')"
    using assms by (cases rule: cas_step.cases) auto
  show "mset (log s') + all_pending s' = M"
    using assms(1)
  proof (cases rule: cas_step.cases)
    case (load t v)
    then show ?thesis using upd [of t "Loaded v (cell_bits s)"] assms(3) by (simp add: all_pending_def)
  next
    case (exchange t v old)
    then show ?thesis using upd [of t Finished] assms(3)
      by (simp add: all_pending_def) (metis union_mset_add_mset_right)
  next
    case (retry t v old)
    then show ?thesis using upd [of t "Loaded v (cell_bits s)"] assms(3) by (simp add: all_pending_def)
  qed
qed

lemma cas_reach_inv:
  assumes "cas_reach add v0 vs s"
  shows "cell_bits s = foldl add v0 (log s) \<and> mset (log s) + all_pending s = mset vs"
proof -
  have start: "sum_list (map pending (map Start vs)) = mset vs" by (induction vs) auto
  show ?thesis
    using assms unfolding cas_reach_def
  proof (induction rule: rtranclp_induct)
    case base
    then show ?case using start by (simp add: all_pending_def)
  next
    case (step y z)
    then show ?case using cas_step_inv [OF step.hyps(2)] by blast
  qed
qed

lemma cas_progress:
  assumes "t < length (threads s)" "threads s ! t \<noteq> Finished"
  shows "\<exists>s'. (cas_step add)\<^sup>*\<^sup>* s s' \<and> length (log s') = Suc (length (log s))"
proof -
  obtain v where v: "threads s ! t = Start v \<or> (\<exists>old. threads s ! t = Loaded v old)"
    using assms(2) by (cases "threads s ! t") auto
  define s1 where "s1 = s\<lparr>threads := (threads s)[t := Loaded v (cell_bits s)]\<rparr>"
  have one: "cas_step add s s1"
    using v assms(1) cas_step.load [of t s v add] cas_step.retry [of t s v _ add] by (auto simp: s1_def)
  have "t < length (threads s1)" "threads s1 ! t = Loaded v (cell_bits s1)"
    using assms(1) by (simp_all add: s1_def)
  note two = cas_step.exchange [OF this refl, of add]
  have "(cas_step add)\<^sup>*\<^sup>* s (s1\<lparr>cell_bits := add (cell_bits s1) v, threads := (threads s1)[t := Finished], log := log s1 @ [v]\<rparr>)"
    by (rule converse_rtranclp_into_rtranclp [OF one r_into_rtranclp [of "cas_step add", OF two]])
  moreover have "length (log s1) = length (log s)" by (simp add: s1_def)
  ultimately show ?thesis by (intro exI conjI) (assumption, simp)
qed




section \<open>Histogram counts\<close>

text \<open>The order of the numbers that occur: what IEEE comparisons give on values that are not NaN.\<close>

definition ord_ok :: "'d dbl \<Rightarrow> 'd set \<Rightarrow> bool" where
  "ord_ok D S \<longleftrightarrow> (\<forall>x\<in>S. \<forall>y\<in>S. d_le D x y \<longleftrightarrow> \<not> d_lt D y x)
     \<and> (\<forall>x\<in>S. \<forall>y\<in>S. \<forall>z\<in>S. d_lt D x y \<longrightarrow> d_lt D y z \<longrightarrow> d_lt D x z)"

lemma bounds_increasing_sorted:
  "bounds_increasing D bs \<Longrightarrow> ord_ok D (set bs) \<Longrightarrow> sorted_wrt (d_lt D) bs"
proof (induction bs)
  case (Cons a bs)
  show ?case
  proof (cases bs)
    case (Cons b cs)
    have ok: "ord_ok D (set bs)" using Cons.prems(2) unfolding ord_ok_def by (meson list.set_intros(2))
    have ab: "\<not> d_le D b a" "bounds_increasing D bs" using Cons.prems(1) by (auto simp: Cons split: if_splits)
    have s: "sorted_wrt (d_lt D) bs" by (rule Cons.IH [OF ab(2) ok])
    have lt: "d_lt D a b" using ab(1) Cons.prems(2) by (simp add: ord_ok_def Cons)
    have "d_lt D a x" if "x \<in> set cs" for x
      using s lt Cons.prems(2) that unfolding ord_ok_def Cons sorted_wrt.simps by (meson list.set_intros)
    with s lt show ?thesis by (simp add: Cons)
  qed simp
qed simp

lemma lower_bound_from_spec:
  assumes "\<And>i j. i < j \<Longrightarrow> j < length bs \<Longrightarrow> d_lt D (bs ! j) v \<Longrightarrow> d_lt D (bs ! i) v"
    and "first + n \<le> length bs" "\<And>i. i < first \<Longrightarrow> d_lt D (bs ! i) v"
    and "\<And>i. first + n \<le> i \<Longrightarrow> i < length bs \<Longrightarrow> \<not> d_lt D (bs ! i) v"
  shows "lower_bound_from D bs v first n \<le> length bs
    \<and> (\<forall>i<length bs. lower_bound_from D bs v first n \<le> i \<longleftrightarrow> \<not> d_lt D (bs ! i) v)"
  using assms(2-4)
proof (induction n arbitrary: first rule: less_induct)
  case (less n)
  note eq = lower_bound_from.simps [of D bs v first n]
  show ?case
  proof (cases "n = 0")
    case True
    then have "lower_bound_from D bs v first n = first" using eq by simp
    then show ?thesis using less.prems True by (metis add_0_right not_le)
  next
    case False
    define h where "h = n div 2"
    have h: "h < n" using False by (simp add: h_def)
    show ?thesis
    proof (cases "d_lt D (bs ! (first + h)) v")
      case True
      have "d_lt D (bs ! i) v" if "i < first + h + 1" for i
        using assms(1) [of i "first + h"] True that h less.prems(1) by (cases "i = first + h") auto
      then show ?thesis
        using less.IH [of "n - h - 1" "first + h + 1"] less.prems h False True by (simp add: eq Let_def h_def [symmetric])
    next
      case F: False
      have "\<not> d_lt D (bs ! i) v" if "first + h \<le> i" "i < length bs" for i
        using assms(1) [of "first + h" i] F that by (cases "i = first + h") auto
      then show ?thesis
        using less.IH [of h first] less.prems h False F by (simp add: eq Let_def h_def [symmetric])
    qed
  qed
qed

lemma lower_bound_spec:
  assumes "bounds_increasing D bs" "ord_ok D S" "set bs \<subseteq> S" "v \<in> S"
  shows "lower_bound D bs v \<le> length bs \<and> (\<forall>i<length bs. lower_bound D bs v \<le> i \<longleftrightarrow> d_le D v (bs ! i))"
proof -
  have mem: "bs ! i \<in> S" if "i < length bs" for i using assms(3) that nth_mem by blast
  have ok: "ord_ok D (set bs)" using assms(2,3) unfolding ord_ok_def by blast
  have "d_lt D (bs ! i) v" if "i < j" "j < length bs" "d_lt D (bs ! j) v" for i j
    using sorted_wrt_nth_less [OF bounds_increasing_sorted [OF assms(1) ok] that(1,2)] that mem [of i] mem [of j] assms(2,4)
    unfolding ord_ok_def by (meson less_trans)
  note mono = this
  have le_iff: "d_le D v (bs ! i) \<longleftrightarrow> \<not> d_lt D (bs ! i) v" if "i < length bs" for i
    using assms(2,4) mem [OF that] unfolding ord_ok_def by blast
  from lower_bound_from_spec [of bs D v 0 "length bs", OF mono] show ?thesis
    using le_iff unfolding lower_bound_def by simp
qed

lemma accumulate_nth:
  "length (accumulate acc cs) = length cs"
  "i < length cs \<Longrightarrow> accumulate acc cs ! i = acc + sum_list (take (Suc i) cs)"
proof (induction acc cs arbitrary: i rule: accumulate.induct)
  case (2 acc c cs)
  { case 1 show ?case by (simp add: "2.IH"(1)) next
    case 2 then show ?case using "2.IH"(2) by (cases i) (simp_all add: add.assoc) }
qed simp_all

lemma sum_take_bump:
  "k < length cs \<Longrightarrow> sum_list (take (Suc i) (cs[k := cs ! k + 1])) = sum_list (take (Suc i) cs) + (if k \<le> i then 1 else (0::u64))"
proof (induction cs arbitrary: k i)
  case (Cons c cs)
  then show ?case by (cases k; cases i) (auto simp: ac_simps)
qed simp

lemma observe_fold:
  assumes "\<And>v. v \<in> set vs \<Longrightarrow> lower_bound D (buckets h) v \<le> length (buckets h)"
    and "length (counts h) = length (buckets h) + 1"
  defines "h' \<equiv> fold (observe D) vs h"
  shows "buckets h' = buckets h \<and> length (counts h') = length (counts h) \<and> hsum h' = foldl (d_add D) (hsum h) vs
    \<and> total h' = total h + of_nat (length vs)
    \<and> (\<forall>i. sum_list (take (Suc i) (counts h'))
          = sum_list (take (Suc i) (counts h)) + of_nat (length (filter (\<lambda>v. lower_bound D (buckets h) v \<le> i) vs)))"
  using assms(1,2) unfolding h'_def
proof (induction vs arbitrary: h)
  case (Cons v vs)
  have lb: "lower_bound D (buckets h) v \<le> length (buckets h)" using Cons.prems by simp
  have o: "buckets (observe D v h) = buckets h" "length (counts (observe D v h)) = length (counts h)"
    "hsum (observe D v h) = d_add D (hsum h) v" "total (observe D v h) = total h + 1"
    "sum_list (take (Suc i) (counts (observe D v h)))
       = sum_list (take (Suc i) (counts h)) + (if lower_bound D (buckets h) v \<le> i then 1 else 0)" for i
    using lb Cons.prems(2) by (simp_all add: observe_def Let_def sum_take_bump)
  have ih: "buckets H' = buckets h \<and> length (counts H') = length (counts h) \<and> hsum H' = foldl (d_add D) (d_add D (hsum h) v) vs
    \<and> total H' = total h + 1 + of_nat (length vs)
    \<and> (\<forall>i. sum_list (take (Suc i) (counts H')) = sum_list (take (Suc i) (counts h))
          + (if lower_bound D (buckets h) v \<le> i then 1 else 0) + of_nat (length (filter (\<lambda>v. lower_bound D (buckets h) v \<le> i) vs)))"
    if "H' = fold (observe D) vs (observe D v h)" for H'
    using Cons.IH [of "observe D v h"] Cons.prems unfolding o that by simp
  show ?case using ih [OF refl] by (simp add: add.assoc)
qed simp

text \<open>
  A histogram counts exactly. For values and bounds that are not NaN, after any sequence of fewer than
  \<open>2\<^sup>6\<^sup>4\<close> observations the cumulative count of a bucket is the number of observations at most its bound,
  the last cumulative count and the total are the number of all observations, and the sum is the
  observations added up in order.
\<close>

theorem histogram_counts:
  assumes "ord_ok D (set bs \<union> set vs)" "new_Histogram D bs = Some h" "length vs < 2 ^ 64"
  shows "let s = snapshot (fold (observe D) vs h)
    in s_buckets s = bs \<and> length (cumulative s) = length bs + 1
       \<and> (\<forall>i<length bs. unat (cumulative s ! i) = length (filter (\<lambda>v. d_le D v (bs ! i)) vs))
       \<and> unat (last (cumulative s)) = length vs \<and> unat (s_count s) = length vs
       \<and> s_sum s = foldl (d_add D) (d_zero D) vs"
proof -
  have inc: "bounds_increasing D bs"
    and h: "h = \<lparr>buckets = bs, counts = replicate (length bs + 1) 0, hsum = d_zero D, total = 0\<rparr>"
    using assms(2) by (auto simp: new_Histogram_def split: if_splits)
  have lb: "lower_bound D bs v \<le> length bs" "\<And>i. i < length bs \<Longrightarrow> lower_bound D bs v \<le> i \<longleftrightarrow> d_le D v (bs ! i)"
    if "v \<in> set vs" for v
    using lower_bound_spec [OF inc assms(1)] that by auto
  define h' where "h' = fold (observe D) vs h"
  have "\<And>v. v \<in> set vs \<Longrightarrow> lower_bound D (buckets h) v \<le> length (buckets h)"
    "length (counts h) = length (buckets h) + 1" using lb(1) by (simp_all add: h)
  note o = observe_fold [of vs D h, OF this, folded h'_def]
  have h': "buckets h' = bs" "length (counts h') = length bs + 1" "hsum h' = foldl (d_add D) (d_zero D) vs"
    "total h' = of_nat (length vs)"
    "\<And>i. sum_list (take (Suc i) (counts h')) = of_nat (length (filter (\<lambda>v. lower_bound D bs v \<le> i) vs))"
    using o unfolding h by (simp_all add: sum_list_replicate)
  have small: "unat (of_nat k :: u64) = k" if "k \<le> length vs" for k
    using that assms(3) by (simp add: unat_of_nat take_bit_nat_eq_self)
  have cum: "unat (accumulate 0 (counts h') ! i) = length (filter (\<lambda>v. lower_bound D bs v \<le> i) vs)" if "i \<le> length bs" for i
    using that by (simp add: accumulate_nth h' small)
  have le: "filter (\<lambda>v. lower_bound D bs v \<le> i) vs = filter (\<lambda>v. d_le D v (bs ! i)) vs" if "i < length bs" for i
    using lb(2) that by (intro filter_cong) auto
  have all: "filter (\<lambda>v. lower_bound D bs v \<le> length bs) vs = vs" using lb(1) by simp
  have "last (accumulate 0 (counts h')) = accumulate 0 (counts h') ! length bs"
    using h'(2) by (subst last_conv_nth) (auto simp: accumulate_nth simp flip: length_0_conv)
  then have "unat (last (accumulate 0 (counts h'))) = length vs" using cum [of "length bs"] by (simp only: all order.refl)
  then show ?thesis
    using cum le by (simp add: snapshot_def accumulate_nth h' small flip: h'_def)
qed

definition int_dbl :: "int dbl" where
  "int_dbl = \<lparr>d_zero = 0, d_add = (+), d_neg = uminus, d_lt = (<), d_le = (\<le>), d_isnan = (\<lambda>_. False),
     d_isinf = (\<lambda>_. False), d_print = int_str\<rparr>"

theorem histogram_counts_witness:
  "let s = snapshot (fold (observe int_dbl) [1, 5, 10, 99] \<lparr>buckets = [5, 10], counts = [0, 0, 0], hsum = 0, total = 0\<rparr>)
   in unat (cumulative s ! 0) = 2 \<and> unat (cumulative s ! 1) = 3 \<and> unat (last (cumulative s)) = 4 \<and> s_sum s = 115"
proof -
  have "ord_ok int_dbl (set [5, 10] \<union> set [1, 5, 10, 99])" by (auto simp: ord_ok_def int_dbl_def)
  moreover have "new_Histogram int_dbl [5, 10] = Some \<lparr>buckets = [5, 10], counts = [0, 0, 0], hsum = 0, total = 0\<rparr>"
    by (simp add: new_Histogram_def int_dbl_def eval_nat_numeral)
  ultimately show ?thesis
    using histogram_counts [of int_dbl "[5, 10]" "[1, 5, 10, 99]"] unfolding Let_def
    by (auto simp: int_dbl_def dest: spec [of _ 0] spec [of _ 1])
qed


section \<open>Labels identify series\<close>

text \<open>The value up to the closing quote, and what follows it.\<close>

fun unescape :: "string \<Rightarrow> (string \<times> string) option" where
  "unescape [] = None"
| "unescape (c # s) =
     (if c = CHR 0x22 then Some ([], s)
      else if c = CHR 0x5C then
        (case s of [] \<Rightarrow> None
         | d # s' \<Rightarrow> map_option (\<lambda>(v, r). ((if d = CHR ''n'' then CHR 0x0A else d) # v, r)) (unescape s'))
      else map_option (\<lambda>(v, r). (c # v, r)) (unescape s))"

lemma unescape_escape: "unescape (concat (map label_escape v) @ CHR 0x22 # r) = Some (v, r)"
  by (induction v) (auto simp: label_escape_def)

definition label_names_ok :: "(string \<times> string) list \<Rightarrow> bool" where
  "label_names_ok ls \<longleftrightarrow> list_all (\<lambda>(k, _). CHR ''='' \<notin> set k) ls"

lemma split_at_eq:
  "CHR ''='' \<notin> set k \<Longrightarrow> CHR ''='' \<notin> set k' \<Longrightarrow> k @ CHR ''='' # r = k' @ CHR ''='' # r' \<Longrightarrow> k = k' \<and> r = r'"
proof (induction k arbitrary: k')
  case Nil
  then show ?case by (cases k') auto
next
  case (Cons c k)
  then show ?case by (cases k') auto
qed

lemma label_join_inject:
  "label_names_ok ls \<Longrightarrow> label_names_ok ls' \<Longrightarrow> label_join False ls @ ''}'' = label_join False ls' @ ''}'' \<Longrightarrow> ls = ls'"
proof (induction ls arbitrary: ls')
  case Nil
  then show ?case by (cases ls') auto
next
  case (Cons kv ls)
  obtain k v where kv: "kv = (k, v)" by (cases kv)
  obtain k' v' ms where ls': "ls' = (k', v') # ms" using Cons.prems(3) kv by (cases ls') auto
  have k: "CHR ''='' \<notin> set k" "CHR ''='' \<notin> set k'" using Cons.prems by (auto simp: kv ls' label_names_ok_def)
  have e: "k @ CHR ''='' # CHR 0x22 # concat (map label_escape v) @ CHR 0x22 # label_join False ls @ ''}''
      = k' @ CHR ''='' # CHR 0x22 # concat (map label_escape v') @ CHR 0x22 # label_join False ms @ ''}''"
    using Cons.prems(3) by (simp add: kv ls')
  note s = split_at_eq [OF k e]
  from conjunct2 [OF s] have "unescape (concat (map label_escape v) @ CHR 0x22 # label_join False ls @ ''}'')
      = unescape (concat (map label_escape v') @ CHR 0x22 # label_join False ms @ ''}'')"
    by (simp only: list.inject)
  then have "v = v'" "label_join False ls @ ''}'' = label_join False ms @ ''}''" unfolding unescape_escape by simp_all
  with s Cons.IH [of ms] Cons.prems(1,2) show ?case by (simp add: kv ls' label_names_ok_def)
qed

lemma fmt_labels_inject:
  assumes "label_names_ok ls" "label_names_ok ls'" "fmt_labels ls = fmt_labels ls'"
  shows "ls = ls'"
proof -
  have first: "label_join False xs = '','' @ label_join True xs" if "xs \<noteq> []" for xs
    using that by (cases xs) auto
  show ?thesis
  proof (cases "ls = [] \<or> ls' = []")
    case False
    then have "label_join False ls @ ''}'' = label_join False ls' @ ''}''"
      using assms(3) by (simp add: fmt_labels_def first)
    then show ?thesis by (rule label_join_inject [OF assms(1,2)])
  qed (use assms(3) in \<open>auto simp: fmt_labels_def split: if_splits\<close>)
qed


section \<open>Registration\<close>

definition series :: "(string, ('c, 'z) MetricEntry_scheme) std_map \<Rightarrow> string \<Rightarrow> (string \<times> string) list \<Rightarrow> 'c option" where
  "series m name labels = map_find m name \<bind> (\<lambda>e. map_find (by_labels e) (fmt_labels labels))"

lemma series_put:
  "series (map_put name e m) name' labels'
     = (if name' = name then map_find (by_labels e) (fmt_labels labels') else series m name' labels')"
  by (simp add: series_def map_find_put)

lemma series_add:
  assumes "label_names_ok labels" "label_names_ok labels'"
  shows "map_find (by_labels (add_series labels fresh e)) (fmt_labels labels')
    = (if labels' = labels then Some (case map_find (by_labels e) (fmt_labels labels) of Some v \<Rightarrow> v | None \<Rightarrow> fresh)
       else map_find (by_labels e) (fmt_labels labels'))"
proof (cases "labels' = labels")
  case True
  then show ?thesis by (cases "map_find (by_labels e) (fmt_labels labels)") (simp_all add: add_series_def Let_def map_find_put)
next
  case False
  then have "fmt_labels labels' \<noteq> fmt_labels labels" using fmt_labels_inject [OF assms] by metis
  with False show ?thesis by (simp add: add_series_def Let_def map_find_put)
qed

lemma set_help_labels [simp]: "by_labels (set_help help e) = by_labels e"
  by (simp add: set_help_def)

lemma find_or_labels:
  "by_labels fresh = [] \<Longrightarrow> map_find (by_labels (find_or fresh m name)) (fmt_labels labels) = series m name labels"
  by (simp add: find_or_def series_def split: option.splits)

text \<open>
  Registration finds or makes one series per name and label list. Registering a counter gives the
  series of that name and those labels, with its value when it exists and 0 otherwise; every other
  series, also one whose labels differ only in characters that are escaped, and every gauge and histogram
  keep their values; and a help text that is set stays.
\<close>

theorem counter_find_or_make:
  assumes "label_names_ok labels" "label_names_ok labels'"
  shows "let R' = reg_counter D name help labels R
    in series (counters R') name' labels'
         = (if name' = name \<and> labels' = labels
            then Some (case series (counters R) name labels of Some v \<Rightarrow> v | None \<Rightarrow> d_zero D)
            else series (counters R) name' labels')
       \<and> gauges R' = gauges R \<and> histograms R' = histograms R
       \<and> map_option m_help (map_find (counters R') name)
         = Some (case map_find (counters R) name of None \<Rightarrow> help
             | Some e \<Rightarrow> if m_help e = [] then help else m_help e)"
proof -
  let ?e = "find_or \<lparr>m_help = [], by_labels = []\<rparr> (counters R) name"
  have lab: "map_find (by_labels ?e) (fmt_labels l) = series (counters R) name l" for l by (simp add: find_or_labels)
  have "m_help (add_series labels (d_zero D) (set_help help ?e)) = (if m_help ?e = [] then help else m_help ?e)"
    by (simp add: add_series_def set_help_def Let_def)
  then have "m_help (add_series labels (d_zero D) (set_help help ?e))
      = (case map_find (counters R) name of None \<Rightarrow> help | Some e \<Rightarrow> if m_help e = [] then help else m_help e)"
    by (cases "map_find (counters R) name") (simp_all add: find_or_def)
  then show ?thesis
    by (simp add: reg_counter_def Let_def series_put series_add [OF assms] series_add [OF assms(1) assms(1)] lab map_find_put)
qed

theorem counter_find_or_make_witness:
  "let R = \<lparr>counters = [(''c'', \<lparr>m_help = ''h'', by_labels = [(fmt_labels [(''op'', ''a'')], 7)]\<rparr>)], gauges = [], histograms = []\<rparr>;
       R' = reg_counter int_dbl ''c'' ''other'' [(''op'', ''b'')] R
   in series (counters R') ''c'' [(''op'', ''a'')] = Some 7"
proof -
  let ?R = "\<lparr>counters = [(''c'', \<lparr>m_help = ''h'', by_labels = [(fmt_labels [(''op'', ''a'')], 7)]\<rparr>)], gauges = [], histograms = []\<rparr>"
  have ok: "label_names_ok [(''op'', ''b'')]" "label_names_ok [(''op'', ''a'')]" by (simp_all add: label_names_ok_def)
  have "series (counters ?R) ''c'' [(''op'', ''a'')] = Some 7" by (simp add: series_def)
  with counter_find_or_make [OF ok, of int_dbl "''c''" "''other''" ?R "''c''"] show ?thesis
    unfolding Let_def by simp
qed

end
