(* ===== verification/Monitor_Daemon.thy ===== *)
theory Monitor_Daemon
  imports Shm_Handshake Log_Sink Monitor_Ipc Config_File Metrics_Registry
begin

text \<open>
  The monitor daemon, \<^verbatim>\<open>src/monitor/main.cpp\<close>: its state, one function per control operation, the dispatcher,
  the connection handler, start, event loop and shutdown. What the operating system answers is an
  argument: the record \<open>host\<close> for what an operation asks, lists of results for reads, writes, accepts and
  signals. Effects outside the daemon's memory are a log of events. Log lines are not modelled. An
  operation is \<open>None\<close> when the random numbers run out or a write never returns.
\<close>

record 'd Daemon =
  config :: Config
  control_socket_path :: string
  pid_file_path :: string
  control_fd :: int
  signal_fd :: int
  draining :: bool
  ctl_conns :: "(int, string) std_map"
  shm_registry :: ShmHandshakeRegistry
  metrics :: "'d MetricsRegistry"
  logger :: Logger

record 'd host =
  h_pid :: int
  h_uptime :: int
  h_env :: environment
  h_files :: "string \<Rightarrow> string option"
  h_fopen :: "string \<Rightarrow> FILEp option"
  h_dir :: "string \<Rightarrow> string list option"
  h_kill :: "int \<Rightarrow> errno option"
  h_dbl :: "'d dbl"
  h_one :: 'd
  h_of_nat :: "nat \<Rightarrow> 'd"
  h_print0 :: "'d \<Rightarrow> string"

datatype d_event = Ev_close int | Ev_unlink string | Ev_mkdir string | Ev_chmod string | Ev_pid_file string string
  | Ev_datagram string string | Ev_sent int string


section \<open>Metric handles\<close>

definition requests_name :: string where
  "requests_name = ''socksdirect_ctl_requests_total''"

definition errors_name :: string where
  "errors_name = ''socksdirect_ctl_errors_total''"

definition active_name :: string where
  "active_name = ''socksdirect_ctl_connections''"

text \<open>A handle names the series without labels; an update goes through it.\<close>

definition upd_series :: "('d \<Rightarrow> 'd) \<Rightarrow> string \<Rightarrow> (string, 'd MetricEntry) std_map \<Rightarrow> (string, 'd MetricEntry) std_map" where
  "upd_series f name m =
     (case map_find m name of None \<Rightarrow> m
      | Some e \<Rightarrow> (case map_find (by_labels e) (fmt_labels []) of None \<Rightarrow> m
          | Some v \<Rightarrow> map_put name (e\<lparr>by_labels := map_put (fmt_labels []) (f v) (by_labels e)\<rparr>) m))"

definition inc_handle :: "'d host \<Rightarrow> string \<Rightarrow> 'd Daemon \<Rightarrow> 'd Daemon" where
  "inc_handle h name d =
     d\<lparr>metrics := (metrics d)\<lparr>counters := upd_series (counter_inc (h_dbl h) (h_one h)) name (counters (metrics d))\<rparr>\<rparr>"

definition set_active :: "'d host \<Rightarrow> 'd Daemon \<Rightarrow> 'd Daemon" where
  "set_active h d =
     d\<lparr>metrics := (metrics d)\<lparr>gauges := upd_series (gauge_set (h_of_nat h (length (ctl_conns d)))) active_name (gauges (metrics d))\<rparr>\<rparr>"

definition handle_value :: "'d host \<Rightarrow> string \<Rightarrow> 'd Daemon \<Rightarrow> 'd" where
  "handle_value h name d = (case series (counters (metrics d)) name [] of Some v \<Rightarrow> v | None \<Rightarrow> d_zero (h_dbl h))"


section \<open>Operations\<close>

definition resp_lines_ok :: "string list \<Rightarrow> CtlResponse" where
  "resp_lines_ok ls = \<lparr>resp_ok = True, resp_lines = ls, resp_error = []\<rparr>"

definition resp_fail :: "string \<Rightarrow> CtlResponse" where
  "resp_fail e = \<lparr>resp_ok = False, resp_lines = [], resp_error = e\<rparr>"

definition bool_text :: "bool \<Rightarrow> string" where
  "bool_text b = (if b then ''true'' else ''false'')"

definition op_status :: "'d host \<Rightarrow> 'd Daemon \<Rightarrow> CtlResponse" where
  "op_status h d = resp_lines_ok
     [take 255 (''pid '' @ int_str (h_pid h)), take 255 (''uptime_sec '' @ int_str (h_uptime h)),
      ''control_socket '' @ control_socket_path d, ''draining '' @ bool_text (draining d)]"

definition op_connections :: "'d Daemon \<Rightarrow> CtlResponse" where
  "op_connections d = resp_lines_ok
     [take 127 (''ctl_active '' @ dec_str (length (ctl_conns d))),
      ''data_plane_connections 0  (data plane not yet active in src/monitor)'']"

definition op_dump_state :: "'d host \<Rightarrow> 'd Daemon \<Rightarrow> CtlResponse" where
  "op_dump_state h d = resp_lines_ok
     ([take 255 (''pid='' @ int_str (h_pid h) @ '' uptime='' @ int_str (h_uptime h) @ ''s draining='' @ bool_text (draining d)),
       ''control_socket='' @ control_socket_path d, ''pid_file='' @ pid_file_path d,
       take 255 (''ctl_requests='' @ h_print0 h (handle_value h requests_name d)
         @ '' errors='' @ h_print0 h (handle_value h errors_name d))]
      @ map (\<lambda>(k, v). ''config '' @ k @ ''='' @ v) (config d))"

definition op_dump_config :: "'d Daemon \<Rightarrow> CtlResponse" where
  "op_dump_config d =
     (let ls = map (\<lambda>(k, v). k @ ''='' @ v) (config d)
      in resp_lines_ok (if ls = [] then [''(no config file loaded; all values defaulted)''] else ls))"

text \<open>The loop of \<^verbatim>\<open>op_metrics\<close>: the lines of a text that are not empty.\<close>

fun split_lines :: "string \<Rightarrow> string \<Rightarrow> string list" where
  "split_lines cur [] = (if cur = [] then [] else [cur])"
| "split_lines cur (c # s) =
     (if c = newline then (if cur = [] then split_lines [] s else cur # split_lines [] s) else split_lines (cur @ [c]) s)"

definition op_metrics :: "'d host \<Rightarrow> 'd Daemon \<Rightarrow> CtlResponse" where
  "op_metrics h d = resp_lines_ok (split_lines [] (render (h_dbl h) (metrics d)))"

definition op_reload :: "'d host \<Rightarrow> 'd Daemon \<Rightarrow> CtlResponse \<times> 'd Daemon" where
  "op_reload h d =
     (let cfg = load_default (h_env h) (h_files h);
          level = parse_level (Some (c_str (get_string (h_env h) cfg ''monitor'' ''log_level'' ''info''))) kLogInfo;
          L1 = set_level (logger d) level;
          sink = get_string (h_env h) cfg ''monitor'' ''log_file'' [];
          L2 = (if sink \<noteq> [] then snd (set_sink_file L1 (h_fopen h) sink) else L1)
      in (resp_lines_ok [''reloaded''], d\<lparr>config := cfg, logger := L2\<rparr>))"

definition op_drain :: "'d Daemon \<Rightarrow> CtlResponse \<times> 'd Daemon" where
  "op_drain d = (resp_lines_ok [''draining''], d\<lparr>draining := True\<rparr>)"

definition op_ping :: "CtlRequest \<Rightarrow> CtlResponse" where
  "op_ping req = resp_lines_ok [if req_args req = [] then ''pong'' else hd (req_args req)]"

definition op_help :: CtlResponse where
  "op_help = resp_lines_ok
     [''status         daemon pid / uptime / control socket / drain flag'',
      ''connections    counts of active connections'',
      ''dump-state     verbose internal state'',
      ''dump-config    every resolved config key=value'',
      ''metrics        Prometheus text format'',
      ''reload         re-read config; reopen log sink'',
      ''drain          stop accepting new ctl clients'',
      ''ping [msg]     echo (defaults to '' @ [CHR 0x27] @ ''pong'' @ [CHR 0x27] @ '')'',
      ''shm-register A B PID   broker SHM key for the (A,B) pair'',
      ''shm-unregister A B     drop the SHM key for (A,B)'',
      ''help           this list'']"

text \<open>\<^verbatim>\<open>atoi\<close>: \<^verbatim>\<open>strtol\<close> converted to a 32-bit \<^verbatim>\<open>int\<close>.\<close>

definition atoi :: "string \<Rightarrow> int" where
  "atoi s = sint (of_int (fst (strtol s)) :: 32 word)"

definition op_shm_register :: "'d Daemon \<Rightarrow> CtlRequest \<Rightarrow> (CtlResponse \<times> 'd Daemon) option" where
  "op_shm_register d req =
     (if length (req_args req) < 3
      then Some (resp_fail ''usage: shm-register <endpoint_a> <endpoint_b> <pid>'', d)
      else let pid = atoi (c_str (req_args req ! 2))
        in if pid \<le> 0 then Some (resp_fail ''shm-register: bad pid'', d)
           else case register_endpoint (shm_registry d) (make_ConnId (req_args req ! 0) (req_args req ! 1)) pid of
               None \<Rightarrow> None
             | Some (res, R) \<Rightarrow> Some (resp_lines_ok
                 [take 63 (''shm_key='' @ dec_str (unat (res_key res))),
                  if res_role res = kCreator then ''role=creator'' else ''role=joiner'',
                  take 63 (''pid_a='' @ int_str (res_pid_a res) @ '' pid_b='' @ int_str (res_pid_b res))],
                 d\<lparr>shm_registry := R\<rparr>))"

definition op_shm_unregister :: "'d Daemon \<Rightarrow> CtlRequest \<Rightarrow> CtlResponse \<times> 'd Daemon" where
  "op_shm_unregister d req =
     (if length (req_args req) < 2 then (resp_fail ''usage: shm-unregister <endpoint_a> <endpoint_b>'', d)
      else let (removed, R) = unregister_endpoint (shm_registry d) (make_ConnId (req_args req ! 0) (req_args req ! 1))
        in (resp_lines_ok [if removed then ''removed'' else ''not_present''], d\<lparr>shm_registry := R\<rparr>))"

text \<open>
  The lines \<^verbatim>\<open>fgets\<close> gives with a buffer of \<open>Suc n\<close> bytes: a line with its newline, or its next \<open>n\<close>
  bytes. \<open>cur\<close> is the part read so far. The C string in the buffer ends at a NUL byte.
\<close>

fun fgets_lines :: "nat \<Rightarrow> string \<Rightarrow> string \<Rightarrow> string list" where
  "fgets_lines n cur [] = (if cur = [] then [] else [cur])"
| "fgets_lines n cur (c # s) =
     (if c = newline \<or> length cur + 1 \<ge> n then (cur @ [c]) # fgets_lines n [] s else fgets_lines n (cur @ [c]) s)"

definition chomp :: "string \<Rightarrow> string" where
  "chomp l = (if l \<noteq> [] \<and> last l = newline then butlast l else l)"

definition is_prom :: "string \<Rightarrow> bool" where
  "is_prom name \<longleftrightarrow> 6 \<le> length name \<and> drop (length name - 5) name = ''.prom''"

definition stale_prom :: "(int \<Rightarrow> errno option) \<Rightarrow> string \<Rightarrow> bool" where
  "stale_prom kill name =
     (let (pid, rest) = strtol (c_str (take (length name - 5) name))
      in pid > 0 \<and> rest = [] \<and> kill (sint (of_int pid :: 32 word)) = Some ESRCH)"

definition lib_metrics_entry :: "'d host \<Rightarrow> string \<Rightarrow> string list \<times> d_event list \<Rightarrow> string \<Rightarrow> string list \<times> d_event list" where
  "lib_metrics_entry h dir st name =
     (if \<not> is_prom name then st
      else let path = dir @ ''/'' @ name;
               ls = (case h_files h path of None \<Rightarrow> [] | Some text \<Rightarrow> map (\<lambda>l. chomp (c_str l)) (fgets_lines 1023 [] text))
           in (fst st @ ls, snd st @ (if stale_prom (h_kill h) name then [Ev_unlink path] else [])))"

definition op_lib_metrics :: "'d host \<Rightarrow> 'd Daemon \<Rightarrow> CtlResponse \<times> d_event list" where
  "op_lib_metrics h d =
     (let dir = get_string (h_env h) (config d) ''monitor'' ''lib_metrics_dir'' ''/run/socksdirect/lib-metrics''
      in case h_dir h dir of
           None \<Rightarrow> (resp_lines_ok [''# no lib-metrics directory: '' @ dir], [])
         | Some entries \<Rightarrow>
             (let (ls, ev) = foldl (lib_metrics_entry h dir) ([], []) entries in (resp_lines_ok ls, ev)))"

definition dispatch :: "'d host \<Rightarrow> 'd Daemon \<Rightarrow> CtlRequest \<Rightarrow> (CtlResponse \<times> 'd Daemon \<times> d_event list) option" where
  "dispatch h d0 req =
     (let d = inc_handle h requests_name d0; opn = req_op req
      in if opn = ''status'' then Some (op_status h d, d, [])
         else if opn = ''connections'' then Some (op_connections d, d, [])
         else if opn = ''dump-state'' then Some (op_dump_state h d, d, [])
         else if opn = ''dump-config'' then Some (op_dump_config d, d, [])
         else if opn = ''metrics'' then Some (op_metrics h d, d, [])
         else if opn = ''reload'' then (let (r, d') = op_reload h d in Some (r, d', []))
         else if opn = ''drain'' then (let (r, d') = op_drain d in Some (r, d', []))
         else if opn = ''ping'' then Some (op_ping req, d, [])
         else if opn = ''help'' then Some (op_help, d, [])
         else if opn = ''shm-register'' then map_option (\<lambda>(r, d'). (r, d', [])) (op_shm_register d req)
         else if opn = ''shm-unregister'' then (let (r, d') = op_shm_unregister d req in Some (r, d', []))
         else if opn = ''lib-metrics'' then (let (r, ev) = op_lib_metrics h d in Some (r, d, ev))
         else Some (resp_fail (''unknown op: '' @ opn @ '' (try '' @ [CHR 0x27] @ ''help'' @ [CHR 0x27] @ '')''),
                    inc_handle h errors_name d, []))"


section \<open>Connections\<close>

text \<open>One \<^verbatim>\<open>read\<close> of a non-blocking connection; a list of results that is used up means \<^verbatim>\<open>EAGAIN\<close>.\<close>

datatype chunk = Data string | Failed errno

definition cut_line :: "string \<Rightarrow> (string \<times> string) option" where
  "cut_line buf = (if newline \<in> set buf
     then Some (takeWhile (\<lambda>c. c \<noteq> newline) buf, drop 1 (dropWhile (\<lambda>c. c \<noteq> newline) buf)) else None)"

lemma cut_line_shorter: "cut_line buf = Some (line, rest) \<Longrightarrow> length rest < length buf"
proof -
  assume h: "cut_line buf = Some (line, rest)"
  then have "dropWhile (\<lambda>c. c \<noteq> newline) buf \<noteq> []" "rest = drop 1 (dropWhile (\<lambda>c. c \<noteq> newline) buf)"
    by (auto simp: cut_line_def dropWhile_eq_Nil_conv split: if_splits)
  moreover have "length (dropWhile (\<lambda>c. c \<noteq> newline) buf) \<le> length buf" by (rule length_dropWhile_le)
  ultimately show ?thesis by (cases "dropWhile (\<lambda>c. c \<noteq> newline) buf") auto
qed

definition answer_line :: "'d host \<Rightarrow> 'd Daemon \<Rightarrow> string \<Rightarrow> (CtlResponse \<times> 'd Daemon \<times> d_event list) option" where
  "answer_line h d line =
     (case decode_request line of
        None \<Rightarrow> Some (resp_fail ''malformed request'', inc_handle h errors_name d, [])
      | Some req \<Rightarrow> dispatch h d req)"

text \<open>The inner loop: answers every complete line of the buffer; the flag is whether all writes succeeded.\<close>

function handle_lines :: "'d host \<Rightarrow> int \<Rightarrow> string \<Rightarrow> 'd Daemon \<Rightarrow> write_result list
    \<Rightarrow> (bool \<times> string \<times> 'd Daemon \<times> write_result list \<times> d_event list) option" where
  "handle_lines h fd buf d ws =
     (case cut_line buf of
        None \<Rightarrow> Some (True, buf, d, ws, [])
      | Some (line, rest) \<Rightarrow>
          (case answer_line h d line of None \<Rightarrow> None
           | Some (resp, d1, ev) \<Rightarrow>
               (case write_all ws (encode_response resp) [] of None \<Rightarrow> None
                | Some ((ok, out), ws1) \<Rightarrow>
                    if \<not> ok then Some (False, rest, d1, ws1, ev @ [Ev_sent fd out])
                    else map_option (\<lambda>(b, buf', d', ws', ev'). (b, buf', d', ws', ev @ [Ev_sent fd out] @ ev'))
                           (handle_lines h fd rest d1 ws1))))"
  by pat_completeness auto
termination
  by (relation "measure (\<lambda>(h, fd, buf, d, ws). length buf)") (auto simp: cut_line_shorter)

declare handle_lines.simps [simp del]

text \<open>The outer loop over the reads, on the connection's buffer.\<close>

fun drain_loop :: "'d host \<Rightarrow> int \<Rightarrow> chunk list \<Rightarrow> string \<Rightarrow> 'd Daemon \<Rightarrow> write_result list
    \<Rightarrow> (bool \<times> string \<times> 'd Daemon \<times> write_result list \<times> d_event list) option" where
  "drain_loop h fd [] buf d ws = Some (True, buf, d, ws, [])"
| "drain_loop h fd (Failed e # rs) buf d ws =
     (if e = EAGAIN then Some (True, buf, d, ws, [])
      else if e = EINTR then drain_loop h fd rs buf d ws else Some (False, buf, d, ws, []))"
| "drain_loop h fd (Data bs # rs) buf d ws =
     (if bs = [] then Some (False, buf, d, ws, [])
      else if length (buf @ bs) > 2 ^ 20 then Some (False, buf @ bs, d, ws, [])
      else case handle_lines h fd (buf @ bs) d ws of None \<Rightarrow> None
         | Some (ok, buf', d', ws', ev) \<Rightarrow>
             if \<not> ok then Some (False, buf', d', ws', ev)
             else map_option (\<lambda>(b, buf'', d'', ws'', ev'). (b, buf'', d'', ws'', ev @ ev')) (drain_loop h fd rs buf' d' ws'))"

definition drain_ctl_conn :: "'d host \<Rightarrow> 'd Daemon \<Rightarrow> int \<Rightarrow> chunk list \<Rightarrow> write_result list
    \<Rightarrow> (bool \<times> 'd Daemon \<times> d_event list) option" where
  "drain_ctl_conn h d fd rs ws =
     (let buf = (case map_find (ctl_conns d) fd of Some b \<Rightarrow> b | None \<Rightarrow> []);
          d1 = d\<lparr>ctl_conns := map_put fd buf (ctl_conns d)\<rparr>
      in map_option (\<lambda>(ok, buf', d', _, ev). (ok, d'\<lparr>ctl_conns := map_put fd buf' (ctl_conns d')\<rparr>, ev))
           (drain_loop h fd rs buf d1 ws))"

text \<open>A poll entry is its fd and whether it has an event.\<close>

fun erase_poll :: "int \<Rightarrow> (int \<times> bool) list \<Rightarrow> (int \<times> bool) list" where
  "erase_poll fd [] = []"
| "erase_poll fd (p # ps) = (if fst p = fd then ps else p # erase_poll fd ps)"

definition close_ctl_conn :: "'d host \<Rightarrow> 'd Daemon \<Rightarrow> int \<Rightarrow> (int \<times> bool) list
    \<Rightarrow> 'd Daemon \<times> (int \<times> bool) list \<times> d_event list" where
  "close_ctl_conn h d fd polls =
     (set_active h (d\<lparr>ctl_conns := map_erase fd (ctl_conns d)\<rparr>), erase_poll fd polls, [Ev_close fd])"


section \<open>Event loop\<close>

text \<open>Accepts; a list that is used up means \<^verbatim>\<open>EAGAIN\<close>. A refused client has its own write results.\<close>

datatype accepted = Client int "write_result list" | Accept_failed errno

fun accept_loop :: "'d host \<Rightarrow> accepted list \<Rightarrow> 'd Daemon \<Rightarrow> (int \<times> bool) list
    \<Rightarrow> ('d Daemon \<times> (int \<times> bool) list \<times> d_event list) option" where
  "accept_loop h [] d polls = Some (d, polls, [])"
| "accept_loop h (Accept_failed e # as) d polls =
     (if e = EINTR then accept_loop h as d polls else Some (d, polls, []))"
| "accept_loop h (Client c ws # as) d polls =
     (if draining d
      then case write_all ws (encode_response (resp_fail ''draining'')) [] of None \<Rightarrow> None
         | Some ((_, out), _) \<Rightarrow>
             map_option (\<lambda>(d', p', ev). (d', p', [Ev_sent c out, Ev_close c] @ ev)) (accept_loop h as d polls)
      else accept_loop h as (set_active h (d\<lparr>ctl_conns := map_put c [] (ctl_conns d)\<rparr>)) (polls @ [(c, False)]))"

definition SIGHUP :: nat where "SIGHUP = 1"
definition SIGINT :: nat where "SIGINT = 2"
definition SIGPIPE :: nat where "SIGPIPE = 13"
definition SIGTERM :: nat where "SIGTERM = 15"

definition handle_signal :: "'d host \<Rightarrow> nat \<Rightarrow> bool \<times> 'd Daemon \<Rightarrow> bool \<times> 'd Daemon" where
  "handle_signal h signo st =
     (case st of (running, d) \<Rightarrow>
        if signo = SIGTERM \<or> signo = SIGINT then (False, d)
        else if signo = SIGHUP then (running, snd (op_reload h d)) else (running, d))"

record poll_input =
  i_accepts :: "accepted list"
  i_signals :: "nat list"
  i_reads :: "int \<Rightarrow> chunk list"
  i_writes :: "int \<Rightarrow> write_result list"

text \<open>
  One pass over the poll vector from index \<open>i\<close>. Entries that the accept loop appends have no event;
  after a close the same index holds the next entry.
\<close>

definition poll_left :: "(int \<times> bool) list \<Rightarrow> nat \<Rightarrow> nat" where
  "poll_left polls i = length (filter snd (drop i polls))"

lemma erase_poll_drop:
  "i < length polls \<Longrightarrow> fst (polls ! i) = fd \<Longrightarrow> drop i (erase_poll fd polls) = drop (Suc i) polls"
proof (induction polls arbitrary: i)
  case (Cons p ps)
  then show ?case by (cases i) auto
qed simp

lemma accept_loop_polls:
  "accept_loop h as d polls = Some (d', polls', ev) \<Longrightarrow> \<exists>new. polls' = polls @ new \<and> filter snd new = []"
proof (induction h as d polls arbitrary: d' polls' ev rule: accept_loop.induct)
  case (3 h c ws as d polls)
  then show ?case by (auto split: if_splits option.splits)
qed (auto split: if_splits)

lemma poll_left_now: "\<not> length polls \<le> i \<Longrightarrow> snd (polls ! i) \<Longrightarrow> poll_left polls i = Suc (poll_left polls (i + 1))"
  by (simp add: poll_left_def Cons_nth_drop_Suc [symmetric])

lemma poll_left_skip: "\<not> length polls \<le> i \<Longrightarrow> \<not> snd (polls ! i) \<Longrightarrow> poll_left polls i = poll_left polls (i + 1)"
  by (simp add: poll_left_def Cons_nth_drop_Suc [symmetric])

lemma accept_left:
  "accept_loop h as d polls = Some (d', polls', ev) \<Longrightarrow> \<not> length polls \<le> i \<Longrightarrow> poll_left polls' (i + 1) = poll_left polls (i + 1)"
  by (drule accept_loop_polls) (auto simp: poll_left_def)

lemma close_left:
  "(d', polls', ev) = close_ctl_conn h d (fst (polls ! i)) polls \<Longrightarrow> \<not> length polls \<le> i \<Longrightarrow> poll_left polls' i = poll_left polls (i + 1)"
  by (auto simp: poll_left_def close_ctl_conn_def erase_poll_drop)

function poll_pass :: "'d host \<Rightarrow> poll_input \<Rightarrow> nat \<Rightarrow> bool \<Rightarrow> 'd Daemon \<Rightarrow> (int \<times> bool) list
    \<Rightarrow> (bool \<times> 'd Daemon \<times> (int \<times> bool) list \<times> d_event list) option" where
  "poll_pass h inp i running d polls =
     (if i \<ge> length polls then Some (running, d, polls, [])
      else if \<not> snd (polls ! i) then poll_pass h inp (i + 1) running d polls
      else let fd = fst (polls ! i) in
        if fd = control_fd d then
          (case accept_loop h (i_accepts inp) d polls of None \<Rightarrow> None
           | Some (d', polls', ev) \<Rightarrow>
               map_option (\<lambda>(r, d'', p, ev'). (r, d'', p, ev @ ev')) (poll_pass h inp (i + 1) running d' polls'))
        else if fd = signal_fd d then
          (let (running', d') = fold (handle_signal h) (i_signals inp) (running, d)
           in poll_pass h inp (i + 1) running' d' polls)
        else
          (case drain_ctl_conn h d fd (i_reads inp fd) (i_writes inp fd) of None \<Rightarrow> None
           | Some (ok, d', ev) \<Rightarrow>
               if ok then map_option (\<lambda>(r, d'', p, ev'). (r, d'', p, ev @ ev')) (poll_pass h inp (i + 1) running d' polls)
               else (case close_ctl_conn h d' fd polls of (d'', polls', ev2) \<Rightarrow>
                 map_option (\<lambda>(r, d3, p, ev'). (r, d3, p, ev @ ev2 @ ev')) (poll_pass h inp i running d'' polls'))))"
  by pat_completeness auto
termination
  by (relation "measures [\<lambda>(h, inp, i, running, d, polls). poll_left polls i, \<lambda>(h, inp, i, running, d, polls). length polls - i]")
     (auto simp: poll_left_now poll_left_skip accept_left close_left simp del: One_nat_def)

declare poll_pass.simps [simp del]

text \<open>
  The loop itself, on what the successive \<^verbatim>\<open>poll\<close> calls return: the fds with events and the input of the
  pass, or an error. \<open>None\<close> when the results are used up: the daemon is still waiting.
\<close>

datatype poll_result = Ready "int list" poll_input | Poll_failed errno

fun event_loop :: "'d host \<Rightarrow> poll_result list \<Rightarrow> 'd Daemon \<Rightarrow> (int \<times> bool) list \<Rightarrow> ('d Daemon \<times> d_event list) option" where
  "event_loop h [] d polls = None"
| "event_loop h (Poll_failed e # prs) d polls = (if e = EINTR then event_loop h prs d polls else Some (d, []))"
| "event_loop h (Ready fds inp # prs) d polls =
     (case poll_pass h inp 0 True d (map (\<lambda>p. (fst p, fst p \<in> set fds)) polls) of None \<Rightarrow> None
      | Some (running, d', polls', ev) \<Rightarrow>
          if \<not> running then Some (d', ev)
          else map_option (\<lambda>(d'', ev'). (d'', ev @ ev')) (event_loop h prs d' polls'))"


section \<open>Start and shutdown\<close>

text \<open>The 108 bytes of \<^verbatim>\<open>sun_path\<close> for the notification socket; a leading \<^verbatim>\<open>@\<close> becomes NUL.\<close>

definition pad_path :: "string \<Rightarrow> string" where
  "pad_path s = s @ replicate (sun_path_size - length s) (CHR 0x00)"

definition notify_path :: "string \<Rightarrow> string" where
  "notify_path sock = pad_path
     (if hd sock = CHR ''@'' then CHR 0x00 # take (sun_path_size - 2) (drop 1 sock) else take (sun_path_size - 1) sock)"

definition sd_notify :: "environment \<Rightarrow> bool \<Rightarrow> string \<Rightarrow> int \<Rightarrow> d_event list" where
  "sd_notify env socket_ok body fd =
     (case env ''NOTIFY_SOCKET'' of None \<Rightarrow> []
      | Some sock \<Rightarrow> if sock = [] \<or> \<not> socket_ok then [] else [Ev_datagram (notify_path sock) body, Ev_close fd])"

definition sd_notify_ready :: "environment \<Rightarrow> bool \<Rightarrow> int \<Rightarrow> string \<Rightarrow> d_event list" where
  "sd_notify_ready env socket_ok fd status_msg =
     sd_notify env socket_ok
       (''READY=1'' @ [newline] @ (if status_msg \<noteq> [] then ''STATUS='' @ status_msg @ [newline] else [])) fd"

definition sd_notify_stopping :: "environment \<Rightarrow> bool \<Rightarrow> int \<Rightarrow> d_event list" where
  "sd_notify_stopping env socket_ok fd = sd_notify env socket_ok (''STOPPING=1'' @ [newline]) fd"

text \<open>\<open>opened\<close> is what \<^verbatim>\<open>open\<close> returns, \<open>written\<close> what \<^verbatim>\<open>write\<close> returns.\<close>

definition write_pid_file :: "string \<Rightarrow> int \<Rightarrow> int option \<Rightarrow> int \<Rightarrow> bool \<times> d_event list" where
  "write_pid_file path pid opened written =
     (if path = [] then (True, [])
      else case opened of None \<Rightarrow> (False, [])
         | Some fd \<Rightarrow> (let text = int_str pid @ [newline]
             in (written = int (length text), [Ev_pid_file path (take (nat written) text), Ev_close fd])))"

record Args =
  a_config_path :: string
  a_control_socket :: string
  a_pid_file :: string
  a_log_file :: string
  a_log_level :: string
  a_foreground :: bool
  a_show_help :: bool

definition new_Args :: Args where
  "new_Args = \<lparr>a_config_path = [], a_control_socket = [], a_pid_file = [], a_log_file = [], a_log_level = [],
     a_foreground = True, a_show_help = False\<rparr>"

definition set_arg :: "string \<Rightarrow> string \<Rightarrow> Args \<Rightarrow> Args option" where
  "set_arg s v a =
     (if s = ''--config'' then Some (a\<lparr>a_config_path := v\<rparr>)
      else if s = ''--control-socket'' then Some (a\<lparr>a_control_socket := v\<rparr>)
      else if s = ''--pid-file'' then Some (a\<lparr>a_pid_file := v\<rparr>)
      else if s = ''--log-file'' then Some (a\<lparr>a_log_file := v\<rparr>)
      else if s = ''--log-level'' then Some (a\<lparr>a_log_level := v\<rparr>) else None)"

text \<open>The arguments after the program name; \<open>Inl\<close> is the exit status.\<close>

fun parse_args :: "string list \<Rightarrow> Args \<Rightarrow> nat + Args" where
  "parse_args [] a = Inr a"
| "parse_args [s] a = (if s = ''--help'' \<or> s = ''-h'' then Inr (a\<lparr>a_show_help := True\<rparr>) else Inl 2)"
| "parse_args (s # v # ss) a =
     (if s = ''--help'' \<or> s = ''-h'' then parse_args (v # ss) (a\<lparr>a_show_help := True\<rparr>)
      else case set_arg s v a of None \<Rightarrow> Inl 2 | Some a' \<Rightarrow> parse_args ss a')"

definition parent_dir :: "string \<Rightarrow> string option" where
  "parent_dir path = (if CHR ''/'' \<in> set path
     then Some (rev (drop 1 (dropWhile (\<lambda>c. c \<noteq> CHR ''/'') (rev path)))) else None)"

definition or_config :: "string \<Rightarrow> 'd host \<Rightarrow> Config \<Rightarrow> string \<Rightarrow> string \<Rightarrow> string" where
  "or_config arg h cfg key fallback = (if arg \<noteq> [] then arg else get_string (h_env h) cfg ''monitor'' key fallback)"

text \<open>
  The part of \<^verbatim>\<open>main\<close> before the loop. \<open>Inl\<close> is the exit status with the events so far. The host's
  environment is the one after \<^verbatim>\<open>setenv\<close>; the registry of metrics and the logger are the process's own.
\<close>

definition set_config_env :: "Args \<Rightarrow> 'd host \<Rightarrow> 'd host" where
  "set_config_env a h = (if a_config_path a \<noteq> []
     then h\<lparr>h_env := (h_env h)(''SOCKSDIRECT_CONFIG'' \<mapsto> c_str (a_config_path a))\<rparr> else h)"

definition set_up :: "'d host \<Rightarrow> Args \<Rightarrow> ShmHandshakeRegistry \<Rightarrow> 'd MetricsRegistry \<Rightarrow> Logger \<Rightarrow> 'd Daemon" where
  "set_up h a reg mr lg =
     (let cfg = load_default (h_env h) (h_files h);
          L1 = set_level lg (parse_level (Some (c_str (or_config (a_log_level a) h cfg ''log_level'' ''info''))) kLogInfo);
          log_file = or_config (a_log_file a) h cfg ''log_file'' [];
          L2 = (if log_file \<noteq> [] then snd (set_sink_file L1 (h_fopen h) log_file) else L1);
          m1 = reg_counter (h_dbl h) requests_name ''control-plane requests received'' [] mr;
          m2 = reg_counter (h_dbl h) errors_name ''control-plane requests that returned ok=false'' [] m1;
          m3 = reg_gauge (h_dbl h) active_name ''currently-open ctl connections'' [] m2
      in \<lparr>config = cfg, control_socket_path = or_config (a_control_socket a) h cfg ''control_socket'' kMonitorCtlSocketDefault,
          pid_file_path = or_config (a_pid_file a) h cfg ''pid_file'' [], control_fd = -1, signal_fd = -1,
          draining = False, ctl_conns = [], shm_registry = reg, metrics = m3, logger = L2\<rparr>)"

definition sock_events :: "sock_event list \<Rightarrow> d_event list" where
  "sock_events evs = concat (map (\<lambda>e. case e of Close_fd fd \<Rightarrow> [Ev_close fd] | Unlink_path p \<Rightarrow> [Ev_unlink p]
     | Bind_path _ \<Rightarrow> [] | Connect_path _ \<Rightarrow> []) evs)"

definition mkdir_events :: "string \<Rightarrow> d_event list" where
  "mkdir_events path = (case parent_dir path of Some p \<Rightarrow> if p \<noteq> [] then [Ev_mkdir p] else [] | None \<Rightarrow> [])"

definition main_start :: "'d host \<Rightarrow> Args \<Rightarrow> ShmHandshakeRegistry \<Rightarrow> 'd MetricsRegistry \<Rightarrow> Logger
    \<Rightarrow> errno + int \<Rightarrow> errno option \<Rightarrow> errno option \<Rightarrow> int \<Rightarrow> int option \<Rightarrow> int \<Rightarrow> bool \<Rightarrow> int
    \<Rightarrow> (nat \<times> d_event list) + ('d Daemon \<times> d_event list)" where
  "main_start h0 a reg mr lg sock bind_err listen_err sigfd pid_opened pid_written nsock_ok nfd =
     (let h = set_config_env a h0; d = set_up h a reg mr lg; path = control_socket_path d
      in case listen_unix sock bind_err listen_err path of
           (Inl e, ev) \<Rightarrow> Inl (1, mkdir_events path @ sock_events ev)
         | (Inr cfd, ev) \<Rightarrow>
             (let ev1 = mkdir_events path @ sock_events ev @ [Ev_chmod path]
              in if sigfd < 0 then Inl (1, ev1)
                 else Inr (d\<lparr>control_fd := cfd, signal_fd := sigfd\<rparr>,
                   ev1 @ snd (write_pid_file (pid_file_path d) (h_pid h) pid_opened pid_written)
                   @ sd_notify_ready (h_env h) nsock_ok nfd ''ready'')))"

definition main_stop :: "'d host \<Rightarrow> 'd Daemon \<Rightarrow> bool \<Rightarrow> int \<Rightarrow> 'd Daemon \<times> d_event list" where
  "main_stop h d nsock_ok nfd =
     (d\<lparr>ctl_conns := []\<rparr>,
      sd_notify_stopping (h_env h) nsock_ok nfd @ map (\<lambda>kv. Ev_close (fst kv)) (ctl_conns d)
      @ (if control_fd d \<ge> 0 then [Ev_close (control_fd d), Ev_unlink (control_socket_path d)] else [])
      @ (if signal_fd d \<ge> 0 then [Ev_close (signal_fd d)] else [])
      @ (if pid_file_path d \<noteq> [] then [Ev_unlink (pid_file_path d)] else []))"

definition main_polls :: "'d Daemon \<Rightarrow> (int \<times> bool) list" where
  "main_polls d = [(control_fd d, False), (signal_fd d, False)]"


section \<open>Framing\<close>

lemma cut_line_append: "cut_line a = Some (line, rest) \<Longrightarrow> cut_line (a @ b) = Some (line, rest @ b)"
proof -
  assume h: "cut_line a = Some (line, rest)"
  then have m: "\<exists>c\<in>set a. \<not> (c \<noteq> newline)" by (auto simp: cut_line_def split: if_splits)
  then have "dropWhile (\<lambda>c. c \<noteq> newline) a \<noteq> []" by (auto simp: dropWhile_eq_Nil_conv)
  with h m show ?thesis
    by (cases "dropWhile (\<lambda>c. c \<noteq> newline) a") (auto simp: cut_line_def takeWhile_append dropWhile_append split: if_splits)
qed

lemma handle_lines_append:
  "handle_lines h fd a d ws = Some (True, buf', d', ws', ev) \<Longrightarrow>
     handle_lines h fd (a @ b) d ws
       = map_option (\<lambda>(k, bf, d2, ws2, ev2). (k, bf, d2, ws2, ev @ ev2)) (handle_lines h fd (buf' @ b) d' ws')"
proof (induction h fd a d ws arbitrary: buf' d' ws' ev rule: handle_lines.induct)
  case (1 h fd a d ws)
  show ?case
  proof (cases "cut_line a")
    case None
    then show ?thesis using "1.prems" by (simp add: handle_lines.simps [of h fd a] option.map_id0 [unfolded id_def] case_prod_beta option.map_ident)
  next
    case (Some lr)
    obtain line rest where lr: "lr = (line, rest)" by (cases lr)
    obtain resp d1 ev1 where a: "answer_line h d line = Some (resp, d1, ev1)"
      using "1.prems" Some lr by (auto simp: handle_lines.simps [of h fd a] split: option.splits)
    obtain ok out ws1 where w: "write_all ws (encode_response resp) [] = Some ((ok, out), ws1)"
      using "1.prems" Some lr a by (auto simp: handle_lines.simps [of h fd a] split: option.splits)
    have ok: ok using "1.prems" Some lr a w by (auto simp: handle_lines.simps [of h fd a] split: if_splits)
    obtain ev2 where r: "handle_lines h fd rest d1 ws1 = Some (True, buf', d', ws', ev2)" and ev: "ev = ev1 @ [Ev_sent fd out] @ ev2"
      using "1.prems" Some lr a w ok by (auto simp: handle_lines.simps [of h fd a])
    note ih = "1.IH" [OF Some [unfolded lr] refl a refl refl w refl refl _ r]
    have "handle_lines h fd (a @ b) d ws = map_option (\<lambda>(k, bf, d2, ws2, e). (k, bf, d2, ws2, ev1 @ [Ev_sent fd out] @ e))
        (handle_lines h fd (rest @ b) d1 ws1)"
      using cut_line_append [OF Some [unfolded lr], of b] a w ok by (simp add: handle_lines.simps [of h fd "a @ b"])
    then show ?thesis using ih ok by (simp add: ev option.map_comp comp_def case_prod_beta)
  qed
qed

lemma handle_lines_buf: "handle_lines h fd buf d ws = Some (ok, buf', d', ws', ev) \<Longrightarrow> length buf' \<le> length buf"
proof (induction h fd buf d ws arbitrary: ok buf' d' ws' ev rule: handle_lines.induct)
  case (1 h fd buf d ws)
  then show ?case
    using cut_line_shorter [of buf]
    by (subst (asm) handle_lines.simps [of h fd buf]) (fastforce split: option.splits if_splits prod.splits)
qed

text \<open>
  C12. Framing does not depend on how the bytes arrive. If a connection's requests come in any number of
  reads, cut anywhere, and are all answered, then the same bytes in one read give the same answers in the same
  order, the same daemon state and the same rest in the buffer.
\<close>

theorem requests_framed:
  assumes "drain_loop h fd (map Data cs) buf d ws = Some (True, out)" "list_all (\<lambda>c. c \<noteq> []) cs" "cs \<noteq> []"
    "length buf + length (concat cs) \<le> 2 ^ 20"
  shows "drain_loop h fd [Data (concat cs)] buf d ws = Some (True, out)"
  using assms
proof (induction cs arbitrary: buf d ws out)
  case (Cons c cs)
  have c: "c \<noteq> []" "length (buf @ c) \<le> 2 ^ 20" using Cons.prems by simp_all
  obtain ok buf' d' ws' ev where l: "handle_lines h fd (buf @ c) d ws = Some (ok, buf', d', ws', ev)"
    using Cons.prems(1) c by (auto split: option.splits)
  have ok: ok using Cons.prems(1) c l by (auto split: if_splits)
  obtain o2 where o2: "drain_loop h fd (map Data cs) buf' d' ws' = Some (True, o2)"
    and out: "out = (case o2 of (bf, d2, ws2, ev2) \<Rightarrow> (bf, d2, ws2, ev @ ev2))"
    using Cons.prems(1) c l ok by (auto split: prod.splits)
  show ?case
  proof (cases "cs = []")
    case True
    then show ?thesis using Cons.prems(1) by simp
  next
    case False
    have len: "length buf' \<le> length (buf @ c)" by (rule handle_lines_buf [OF l])
    have "drain_loop h fd [Data (concat cs)] buf' d' ws' = Some (True, o2)"
      by (rule Cons.IH [OF o2]) (use Cons.prems False len in auto)
    moreover have "concat cs \<noteq> []" using Cons.prems(2) False by (cases cs) auto
    moreover have "length (buf @ c @ concat cs) \<le> 2 ^ 20" "length (buf' @ concat cs) \<le> 2 ^ 20"
      using Cons.prems(4) len by auto
    ultimately show ?thesis
      using handle_lines_append [OF l [unfolded ok [THEN eqTrueI]], of "concat cs"] c(1) out
      by (auto split: option.splits if_splits prod.splits)
  qed
qed simp

definition demo_host :: "int host" where
  "demo_host = \<lparr>h_pid = 1, h_uptime = 0, h_env = (\<lambda>_. None), h_files = (\<lambda>_. None), h_fopen = (\<lambda>_. None), h_dir = (\<lambda>_. None),
     h_kill = (\<lambda>_. None), h_dbl = int_dbl, h_one = 1, h_of_nat = int, h_print0 = int_str\<rparr>"

definition demo_daemon :: "int Daemon" where
  "demo_daemon = (set_up demo_host new_Args (new_registry [5, 6]) \<lparr>counters = [], gauges = [], histograms = []\<rparr> new_logger)
     \<lparr>control_fd := 3, signal_fd := 4\<rparr>"

text \<open>A line in two reads; it is not a request, and its answer says so.\<close>

theorem requests_framed_witness:
  "let ws = [Wrote (length (encode_response (resp_fail ''malformed request'')))];
       D = drain_loop demo_host 5
   in \<exists>out. D (map Data [''x'', [newline]]) [] demo_daemon ws = Some (True, out)
        \<and> D [Data (concat [''x'', [newline]])] [] demo_daemon ws = Some (True, out)"
proof -
  let ?e = "encode_response (resp_fail ''malformed request'')"
  have x: "decode_request ''x'' = None" by code_simp
  have "?e \<noteq> []" using encode_response_line [of "resp_fail ''malformed request''"] by auto
  then have w: "write_all [Wrote (length ?e)] ?e [] = Some ((True, ?e), [])"
    by (simp add: write_all.simps)
  have c: "cut_line ''x'' = None" "cut_line [CHR ''x'', newline] = Some (''x'', [])" "cut_line [] = None"
    by (simp_all add: cut_line_def)
  have "handle_lines demo_host 5 ''x'' demo_daemon [Wrote (length ?e)] = Some (True, ''x'', demo_daemon, [Wrote (length ?e)], [])"
    by (simp add: handle_lines.simps c)
  moreover have "\<exists>d ev. handle_lines demo_host 5 [CHR ''x'', newline] demo_daemon [Wrote (length ?e)] = Some (True, [], d, [], ev)"
    by (simp add: handle_lines.simps [of _ _ "[CHR ''x'', newline]"] handle_lines.simps [of _ _ "[]"] c answer_line_def x w del: length_0_conv)
  ultimately have "\<exists>out. drain_loop demo_host 5 (map Data [''x'', [newline]]) [] demo_daemon [Wrote (length ?e)] = Some (True, out)"
    by auto
  then obtain out where "drain_loop demo_host 5 (map Data [''x'', [newline]]) [] demo_daemon [Wrote (length ?e)] = Some (True, out)" ..
  from this requests_framed [OF this] show ?thesis unfolding Let_def by (intro exI [of _ out]) simp
qed

end
