(* ===== verification/Lib_State.thy ===== *)
theory Lib_State
  imports Shm_Conn Fd_Remap
begin

text \<open>
  The state of a process that runs under the preload library: \<^verbatim>\<open>src/lib/state.hpp\<close> and the guard of
  \<^verbatim>\<open>src/lib/intercept.hpp\<close>. Connections are shared between the registry and the epoll poller, so they live in a
  heap and both hold references. A counter of calls is a natural number.
\<close>

record lib_state =
  g_active :: bool
  g_in_hook :: bool
  s_env :: environment
  s_config :: Config
  fd_table :: FdRemapTable
  monitor_reachable :: bool
  m_socket_total :: nat
  m_close_total :: nat
  m_dup_total :: nat
  m_unsupported_total :: nat
  m_passthrough_total :: nat
  m_shm_conns :: nat
  shm_bytes_sent_closed :: u64
  shm_bytes_recv_closed :: u64
  shm_ring_full_closed :: u64
  shm_ring_empty_closed :: u64
  shm_conns_total :: u64
  shm_conn_closed_total :: u64
  metrics_dir :: string
  registry :: "nat ConnRegistry"
  watched :: "(int, nat) std_map"
  heap :: "nat \<Rightarrow> ShmConn"
  next_ref :: nat

definition hooked :: "lib_state \<Rightarrow> bool" where
  "hooked s \<longleftrightarrow> g_active s \<and> \<not> g_in_hook s"

text \<open>The connection of an fd whose segment is open.\<close>

definition open_conn :: "lib_state \<Rightarrow> int \<Rightarrow> nat option" where
  "open_conn s fd = (case reg_lookup (registry s) fd of None \<Rightarrow> None
     | Some p \<Rightarrow> if is_open (c_segment (heap s p)) then Some p else None)"

definition set_conn :: "nat \<Rightarrow> ShmConn \<Rightarrow> lib_state \<Rightarrow> lib_state" where
  "set_conn p c s = s\<lparr>heap := (heap s)(p := c)\<rparr>"

text \<open>A reference that the registry and the poller no longer hold is destroyed, which closes the segment.\<close>

definition referenced :: "lib_state \<Rightarrow> nat \<Rightarrow> bool" where
  "referenced s p \<longleftrightarrow> p \<in> snd ` set (registry s) \<or> p \<in> snd ` set (watched s)"

definition release_ref :: "nat \<Rightarrow> lib_state \<Rightarrow> shm_world \<Rightarrow> lib_state \<times> shm_world" where
  "release_ref p s W =
     (if referenced s p then (s, W)
      else let (seg, W') = close_segment (c_segment (heap s p)) W
           in (set_conn p ((heap s p)\<lparr>c_segment := seg\<rparr>) s, W'))"

text \<open>The results of a call: it returns, it waits for ever on what the schedule offers, or it is undefined.\<close>

datatype 'a io = Ret 'a | Blocked | Fault

text \<open>A hook's search for the virtual fd of a real fd: as socket, then as system fd.\<close>

definition find_vfd :: "FdRemapTable \<Rightarrow> int \<Rightarrow> int option" where
  "find_vfd T fd = do {
     v \<leftarrow> reverse_lookup T kSocket fd;
     if v < 0 then reverse_lookup T kSystem fd else Some v
   }"

text \<open>
  The guard sets the flag for the extent of a hook's work and restores what it found. Inside, every hook forwards.
\<close>

definition guard_enter :: "lib_state \<Rightarrow> bool \<times> lib_state" where
  "guard_enter s = (g_in_hook s, s\<lparr>g_in_hook := True\<rparr>)"

definition guard_leave :: "bool \<Rightarrow> lib_state \<Rightarrow> lib_state" where
  "guard_leave prev s = s\<lparr>g_in_hook := prev\<rparr>"

lemma guard_blocks_hooks: "\<not> hooked (snd (guard_enter s))"
  by (simp add: guard_enter_def hooked_def)

lemma guard_restores:
  "g_in_hook (guard_leave (fst (guard_enter s)) s') = g_in_hook s"
  "hooked (guard_leave (fst (guard_enter s)) (snd (guard_enter s))) = hooked s"
  by (simp_all add: guard_enter_def guard_leave_def hooked_def)

text \<open>
  The C library's functions are looked up on first use and remembered. The dynamic linker is an argument; a symbol it does not
  find aborts the process (\<open>None\<close>).
\<close>

definition resolve_symbol :: "(string \<Rightarrow> 'p option) \<Rightarrow> string \<Rightarrow> 'p option" where
  "resolve_symbol dlsym nm = dlsym nm"

definition real_symbol :: "(string \<Rightarrow> 'p option) \<Rightarrow> string \<Rightarrow> (string \<Rightarrow> 'p option) \<Rightarrow> ('p \<times> (string \<Rightarrow> 'p option)) option" where
  "real_symbol dlsym nm cache =
     (case cache nm of Some p \<Rightarrow> Some (p, cache)
      | None \<Rightarrow> do { p \<leftarrow> resolve_symbol dlsym nm; Some (p, cache(nm \<mapsto> p)) })"

text \<open>Once a symbol is resolved, later calls give the same function, whatever the linker would say then.\<close>

lemma real_symbol_stable:
  "real_symbol dlsym nm cache = Some (p, cache') \<Longrightarrow> real_symbol dlsym' nm cache' = Some (p, cache')"
  by (auto simp: real_symbol_def resolve_symbol_def split: option.splits bind_splits)

lemma real_symbol_other:
  "real_symbol dlsym nm cache = Some (p, cache') \<Longrightarrow> nm' \<noteq> nm \<Longrightarrow> cache' nm' = cache nm'"
  by (auto simp: real_symbol_def split: option.splits bind_splits)

end
