(* ===== verification/Socket_Api.thy ===== *)
theory Socket_Api
  imports Lib_State
begin

text \<open>
  The socket hooks of \<^verbatim>\<open>src/lib/socket_api.cpp\<close>. The C library's own functions (\<^verbatim>\<open>REAL\<close>) are arguments: the results
  they return. A ring operation is one step; what the peer does meanwhile is a schedule, one entry
  per point where the caller gives way or sleeps, and a call on a schedule that is used up is
  \<open>Blocked\<close>. The hooks that only forward return the C library's result.
\<close>

section \<open>Tracking\<close>

definition classify :: "int \<Rightarrow> 32 word \<Rightarrow> FdType" where
  "classify domain ty =
     (let t = and ty (not (or 0x800 0x80000))
      in if (domain = 2 \<or> domain = 10) \<and> t = 1 then kSocket else kSystem)"

text \<open>\<open>fd\<close> is what \<^verbatim>\<open>REAL(socket)\<close> returned; the outer \<open>None\<close> is undefined behaviour of the table.\<close>

definition socket_hook :: "int \<Rightarrow> int \<Rightarrow> 32 word \<Rightarrow> lib_state \<Rightarrow> lib_state option" where
  "socket_hook fd domain ty s =
     (if fd < 0 \<or> \<not> hooked s then Some s
      else map_option (\<lambda>(_, T). s\<lparr>m_socket_total := m_socket_total s + 1, fd_table := T\<rparr>)
             (fd_alloc (fd_table s) (classify domain ty) fd))"

definition track_fd :: "int \<Rightarrow> FdRemapTable \<Rightarrow> FdRemapTable option" where
  "track_fd fd T = do {
     v \<leftarrow> reverse_lookup T kSocket fd;
     u \<leftarrow> reverse_lookup T kSystem fd;
     if v < 0 \<and> u < 0 then map_option snd (fd_alloc T kSocket fd) else Some T
   }"

record upgrade_env =
  u_local :: "sockaddr_in option"
  u_peer :: "sockaddr_in option"
  u_flags :: "int option"
  u_monitor :: monitor
  u_pid :: int
  u_truncate :: "errno option"
  u_mmap :: "errno option"

definition O_NONBLOCK_set :: "int \<Rightarrow> bool" where
  "O_NONBLOCK_set flags \<longleftrightarrow> bit flags 11"

definition attach :: "int \<Rightarrow> upgrade_env \<Rightarrow> sockaddr_in \<Rightarrow> sockaddr_in \<Rightarrow> lib_state \<Rightarrow> shm_world \<Rightarrow> sched
    \<Rightarrow> (lib_state \<times> shm_world \<times> sched) option" where
  "attach fd u l p s W es =
     (let local_ep = format_endpoint (Some l); peer_ep = format_endpoint (Some p)
      in if local_ep = [] \<or> peer_ep = [] then Some (s, W, es)
         else case try_attach (u_monitor u) (s_env s) (s_config s) local_ep peer_ep fd (u_pid u)
                     (u_truncate u) (u_mmap u) (shm_conns_total s) W es of
             None \<Rightarrow> None
           | Some (None, n, W', es') \<Rightarrow> Some (s\<lparr>shm_conns_total := n\<rparr>, W', es')
           | Some (Some c, n, W', es') \<Rightarrow>
               (let c' = (case u_flags u of None \<Rightarrow> c | Some f \<Rightarrow> c\<lparr>c_nonblocking := O_NONBLOCK_set f\<rparr>)
                in Some (s\<lparr>shm_conns_total := n, heap := (heap s)(next_ref s := c'), next_ref := next_ref s + 1,
                           registry := reg_install fd (next_ref s) (registry s), m_shm_conns := m_shm_conns s + 1\<rparr>, W', es')))"

text \<open>
  \<open>u_local\<close> and \<open>u_peer\<close> are what \<^verbatim>\<open>getsockname\<close> and \<^verbatim>\<open>getpeername\<close> give, \<open>u_flags\<close> the result of
  \<^verbatim>\<open>fcntl(F_GETFL)\<close>. A connection that \<^verbatim>\<open>install\<close> replaces loses the registry's reference.
\<close>

definition maybe_upgrade_to_shm :: "int \<Rightarrow> upgrade_env \<Rightarrow> lib_state \<Rightarrow> shm_world \<Rightarrow> sched
    \<Rightarrow> (lib_state \<times> shm_world \<times> sched) option" where
  "maybe_upgrade_to_shm fd u s W es =
     (if \<not> hooked s then Some (s, W, es)
      else case track_fd fd (fd_table s) of None \<Rightarrow> None
         | Some T \<Rightarrow>
             (let s1 = s\<lparr>fd_table := T\<rparr> in
              case (u_local u, u_peer u) of
                (Some l, Some p) \<Rightarrow>
                  if sin_family l \<noteq> AF_INET \<or> sin_family p \<noteq> AF_INET then Some (s1, W, es)
                  else (case attach fd u l p s1 W es of None \<Rightarrow> None
                     | Some (s2, W2, es2) \<Rightarrow>
                         (case reg_lookup (registry s1) fd of
                            Some old \<Rightarrow> (let (s3, W3) = release_ref old s2 W2 in Some (s3, W3, es2))
                          | None \<Rightarrow> Some (s2, W2, es2)))
              | _ \<Rightarrow> Some (s1, W, es)))"

text \<open>\<open>c\<close> is what \<^verbatim>\<open>REAL(accept)\<close> or \<^verbatim>\<open>REAL(accept4)\<close> returned, \<open>rc\<close> what \<^verbatim>\<open>REAL(connect)\<close> returned.\<close>

definition accept_hook :: "int \<Rightarrow> upgrade_env \<Rightarrow> lib_state \<Rightarrow> shm_world \<Rightarrow> sched \<Rightarrow> (lib_state \<times> shm_world \<times> sched) option" where
  "accept_hook c u s W es = (if c \<ge> 0 then maybe_upgrade_to_shm c u s W es else Some (s, W, es))"

definition connect_hook :: "int \<Rightarrow> int \<Rightarrow> upgrade_env \<Rightarrow> lib_state \<Rightarrow> shm_world \<Rightarrow> sched
    \<Rightarrow> (lib_state \<times> shm_world \<times> sched) option" where
  "connect_hook fd rc u s W es = (if rc = 0 then maybe_upgrade_to_shm fd u s W es else Some (s, W, es))"


section \<open>Sending\<close>

definition MSG_DONTWAIT_set :: "int \<Rightarrow> bool" where
  "MSG_DONTWAIT_set flags \<longleftrightarrow> bit flags 6"

definition MSG_PEEK_set :: "int \<Rightarrow> bool" where
  "MSG_PEEK_set flags \<longleftrightarrow> bit flags 1"

definition out_ring :: "ShmConn \<Rightarrow> nat \<Rightarrow> shm_world \<Rightarrow> shm_ring" where
  "out_ring c i W = ring_outbound (seg_role (c_segment c)) (objs W i)"

definition in_ring :: "ShmConn \<Rightarrow> nat \<Rightarrow> shm_world \<Rightarrow> shm_ring" where
  "in_ring c i W = ring_inbound (seg_role (c_segment c)) (objs W i)"

text \<open>Publish, then bump the wake counter of the direction; the wake-up itself changes no memory.\<close>

definition put_out :: "ShmConn \<Rightarrow> nat \<Rightarrow> shm_ring \<Rightarrow> shm_world \<Rightarrow> shm_world" where
  "put_out c i r W = upd_obj i (bump_outbound (seg_role (c_segment c)))
     (upd_obj i (set_ring_outbound (seg_role (c_segment c)) r) W)"

definition put_in :: "ShmConn \<Rightarrow> nat \<Rightarrow> shm_ring \<Rightarrow> shm_world \<Rightarrow> shm_world" where
  "put_in c i r W = upd_obj i (set_ring_inbound (seg_role (c_segment c)) r) W"

lemma send_measure:
  "\<not> length buf \<le> sofar \<Longrightarrow> (a :: u64) \<noteq> 0 \<Longrightarrow> length buf - (sofar + unat a) + n < length buf + n - sofar"
proof -
  assume "a \<noteq> 0"
  then have "unat a \<noteq> 0" by (simp add: unat_eq_zero)
  then show "\<not> length buf \<le> sofar \<Longrightarrow> length buf - (sofar + unat a) + n < length buf + n - sofar" by linarith
qed

function shm_send_loop :: "bool \<Rightarrow> nat \<Rightarrow> u8 list \<Rightarrow> nat \<Rightarrow> ShmConn \<Rightarrow> shm_world \<Rightarrow> sched
    \<Rightarrow> ((errno + nat) \<times> ShmConn \<times> shm_world \<times> sched) io" where
  "shm_send_loop nonblock i buf sofar c W es =
     (if sofar \<ge> length buf then Ret (Inr sofar, c\<lparr>c_bytes_sent := c_bytes_sent c + of_nat sofar\<rparr>, W, es)
      else case send_some (out_ring c i W) (drop sofar buf) of None \<Rightarrow> Fault
         | Some (did, r) \<Rightarrow>
             if did > 0 then shm_send_loop nonblock i buf (sofar + unat did) c (put_out c i r W) es
             else let c1 = c\<lparr>c_ring_full := c_ring_full c + 1\<rparr> in
               if nonblock
               then (if sofar > 0 then Ret (Inr sofar, c1\<lparr>c_bytes_sent := c_bytes_sent c1 + of_nat sofar\<rparr>, W, es)
                     else Ret (Inl EAGAIN, c1, W, es))
               else case es of [] \<Rightarrow> Blocked | e # es' \<Rightarrow> shm_send_loop nonblock i buf sofar c1 (e W) es')"
  by pat_completeness auto
termination
  by (relation "measure (\<lambda>(nb, i, buf, sofar, c, W, es). (length buf - sofar) + length es)")
     (auto simp: send_measure word_greater_zero_iff)

declare shm_send_loop.simps [simp del]

definition shm_send :: "ShmConn \<Rightarrow> u8 list \<Rightarrow> int \<Rightarrow> shm_world \<Rightarrow> sched \<Rightarrow> ((errno + nat) \<times> ShmConn \<times> shm_world \<times> sched) io" where
  "shm_send c buf flags W es =
     (if buf = [] then Ret (Inr 0, c, W, es)
      else case base (c_segment c) of None \<Rightarrow> Fault
         | Some i \<Rightarrow> shm_send_loop (c_nonblocking c \<or> MSG_DONTWAIT_set flags) i buf 0 c W es)"


section \<open>Receiving\<close>

text \<open>
  \<^verbatim>\<open>kernel_fd_hung_up\<close> on the result and the events of its \<^verbatim>\<open>poll\<close>. The receive loop takes the answers of its
  successive calls as a list; when the list is used up the kernel reports no hang-up.
\<close>

definition kernel_fd_hung_up :: "int \<Rightarrow> 16 word \<Rightarrow> bool" where
  "kernel_fd_hung_up rc revents \<longleftrightarrow> \<not> rc \<le> 0 \<and> and revents (or 0x10 (or 0x08 0x20)) \<noteq> 0"

text \<open>
  The part of the loop that parks: sample the wake counter, look at the ring again, wait. The peer may act
  between the sample and the look, between the look and the kernel's comparison, and while the
  caller sleeps; the kernel lets it sleep only if the counter still has the sampled value.
\<close>

definition park :: "ShmConn \<Rightarrow> nat \<Rightarrow> shm_world \<Rightarrow> sched \<Rightarrow> (shm_world \<times> sched) option" where
  "park c i W es =
     (let role = seg_role (c_segment c); w_val = wake_inbound role (objs W i)
      in case es of [] \<Rightarrow> None
         | e1 # es1 \<Rightarrow>
             (let W1 = e1 W in
              if readable (in_ring c i W1) > 0 \<or> peer_closed (in_ring c i W1) then Some (W1, es1)
              else case es1 of [] \<Rightarrow> None
                 | e2 # es2 \<Rightarrow>
                     (let W2 = e2 W1 in
                      if wake_inbound role (objs W2 i) \<noteq> w_val then Some (W2, es2)
                      else case es2 of [] \<Rightarrow> None | e3 # es3 \<Rightarrow> Some (e3 W2, es3))))"

lemma park_shorter: "park c i W es = Some (W', es') \<Longrightarrow> length es' < length es"
  by (auto simp: park_def Let_def split: list.splits if_splits)

function shm_recv_loop :: "bool \<Rightarrow> nat \<Rightarrow> u64 \<Rightarrow> nat \<Rightarrow> bool list \<Rightarrow> ShmConn \<Rightarrow> shm_world \<Rightarrow> sched
    \<Rightarrow> ((errno + u8 list) \<times> ShmConn \<times> shm_world \<times> sched) io" where
  "shm_recv_loop nonblock i n spin hups c W es =
     (case recv_some (in_ring c i W) n of None \<Rightarrow> Fault
      | Some (did, bytes, r) \<Rightarrow>
          if did > 0 then Ret (Inr bytes, c\<lparr>c_bytes_recv := c_bytes_recv c + did\<rparr>, put_in c i r W, es)
          else if peer_closed (in_ring c i W) \<and> readable (in_ring c i W) = 0 then Ret (Inr [], c, W, es)
          else let c1 = c\<lparr>c_ring_empty := c_ring_empty c + 1\<rparr> in
            if nonblock then Ret (Inl EAGAIN, c1, W, es)
            else if hups \<noteq> [] \<and> hd hups
            then shm_recv_loop nonblock i n spin (tl hups) c1 (put_in c i (mark_closed (in_ring c i W)) W) es
            else if spin < 100
            then (case es of [] \<Rightarrow> Blocked | e # es' \<Rightarrow> shm_recv_loop nonblock i n (spin + 1) (tl hups) c1 (e W) es')
            else (case park c i W es of None \<Rightarrow> Blocked
               | Some (W', es') \<Rightarrow> shm_recv_loop nonblock i n 0 (tl hups) c1 W' es'))"
  by pat_completeness auto
termination
  by (relation "measure (\<lambda>(nb, i, n, spin, hups, c, W, es). length hups + length es)")
     (auto dest: park_shorter)

declare shm_recv_loop.simps [simp del]

definition shm_recv :: "ShmConn \<Rightarrow> u64 \<Rightarrow> int \<Rightarrow> bool list \<Rightarrow> shm_world \<Rightarrow> sched
    \<Rightarrow> ((errno + u8 list) \<times> ShmConn \<times> shm_world \<times> sched) io" where
  "shm_recv c n flags hups W es =
     (if n = 0 then Ret (Inr [], c, W, es)
      else if MSG_PEEK_set flags then Ret (Inl EOPNOTSUPP, c, W, es)
      else case base (c_segment c) of None \<Rightarrow> Fault
         | Some i \<Rightarrow> shm_recv_loop (c_nonblocking c \<or> MSG_DONTWAIT_set flags) i n 0 hups c W es)"


section \<open>Hooks of the data path\<close>

text \<open>
  A hook takes the shared-memory path, or forwards: \<open>None\<close> in the result is the call of the C library's
  function. The reference that the hook holds while it runs is not modelled: no other thread closes the fd
  meanwhile.
\<close>

definition store_result :: "nat \<Rightarrow> lib_state \<Rightarrow> ('a \<times> ShmConn \<times> shm_world \<times> sched) io
    \<Rightarrow> ('a option \<times> lib_state \<times> shm_world \<times> sched) io" where
  "store_result p s res = (case res of Blocked \<Rightarrow> Blocked | Fault \<Rightarrow> Fault
     | Ret (r, c, W, es) \<Rightarrow> Ret (Some r, set_conn p c s, W, es))"

definition send_hook :: "int \<Rightarrow> u8 list \<Rightarrow> int \<Rightarrow> lib_state \<Rightarrow> shm_world \<Rightarrow> sched
    \<Rightarrow> ((errno + nat) option \<times> lib_state \<times> shm_world \<times> sched) io" where
  "send_hook fd buf flags s W es =
     (case (if hooked s then open_conn s fd else None) of None \<Rightarrow> Ret (None, s, W, es)
      | Some p \<Rightarrow> store_result p s (shm_send (heap s p) buf flags W es))"

definition recv_hook :: "int \<Rightarrow> u64 \<Rightarrow> int \<Rightarrow> bool list \<Rightarrow> lib_state \<Rightarrow> shm_world \<Rightarrow> sched
    \<Rightarrow> ((errno + u8 list) option \<times> lib_state \<times> shm_world \<times> sched) io" where
  "recv_hook fd n flags hups s W es =
     (case (if hooked s then open_conn s fd else None) of None \<Rightarrow> Ret (None, s, W, es)
      | Some p \<Rightarrow> store_result p s (shm_recv (heap s p) n flags hups W es))"

definition write_hook :: "int \<Rightarrow> u8 list \<Rightarrow> lib_state \<Rightarrow> shm_world \<Rightarrow> sched
    \<Rightarrow> ((errno + nat) option \<times> lib_state \<times> shm_world \<times> sched) io" where
  "write_hook fd buf s W es =
     (case (if hooked s then open_conn s fd else None) of None \<Rightarrow> Ret (None, s, W, es)
      | Some p \<Rightarrow> store_result p s (shm_send (heap s p) buf 0 W es))"

definition read_hook :: "int \<Rightarrow> u64 \<Rightarrow> bool list \<Rightarrow> lib_state \<Rightarrow> shm_world \<Rightarrow> sched
    \<Rightarrow> ((errno + u8 list) option \<times> lib_state \<times> shm_world \<times> sched) io" where
  "read_hook fd n hups s W es =
     (case (if hooked s then open_conn s fd else None) of None \<Rightarrow> Ret (None, s, W, es)
      | Some p \<Rightarrow> store_result p s (shm_recv (heap s p) n 0 hups W es))"

text \<open>
  The loops over the buffers of a message. A failed call after some progress reports the progress. The
  receive loop returns what it put into the buffers, one after the other; every call asks the kernel
  for hang-ups anew.
\<close>

fun sendmsg_loop :: "u8 list list \<Rightarrow> int \<Rightarrow> nat \<Rightarrow> ShmConn \<Rightarrow> shm_world \<Rightarrow> sched
    \<Rightarrow> ((errno + nat) \<times> ShmConn \<times> shm_world \<times> sched) io" where
  "sendmsg_loop [] flags tot c W es = Ret (Inr tot, c, W, es)"
| "sendmsg_loop (iov # iovs) flags tot c W es =
     (if iov = [] then sendmsg_loop iovs flags tot c W es
      else case shm_send c iov flags W es of Blocked \<Rightarrow> Blocked | Fault \<Rightarrow> Fault
         | Ret (Inl e, c', W', es') \<Rightarrow> Ret (if tot > 0 then Inr tot else Inl e, c', W', es')
         | Ret (Inr r, c', W', es') \<Rightarrow>
             if r < length iov then Ret (Inr (tot + r), c', W', es')
             else sendmsg_loop iovs flags (tot + r) c' W' es')"

text \<open>The flag in the result says whether the receive loop ran to its end or stopped at a short read, and did not return from within.\<close>

fun recvmsg_loop :: "(u64 \<times> bool list) list \<Rightarrow> int \<Rightarrow> u8 list \<Rightarrow> ShmConn \<Rightarrow> shm_world \<Rightarrow> sched
    \<Rightarrow> (((errno + u8 list) \<times> bool) \<times> ShmConn \<times> shm_world \<times> sched) io" where
  "recvmsg_loop [] flags got c W es = Ret ((Inr got, True), c, W, es)"
| "recvmsg_loop ((n, hups) # iovs) flags got c W es =
     (if n = 0 then recvmsg_loop iovs flags got c W es
      else case shm_recv c n flags hups W es of Blocked \<Rightarrow> Blocked | Fault \<Rightarrow> Fault
         | Ret (Inl e, c', W', es') \<Rightarrow> Ret ((if got \<noteq> [] then Inr got else Inl e, False), c', W', es')
         | Ret (Inr bs, c', W', es') \<Rightarrow>
             if bs = [] then Ret ((Inr got, False), c', W', es')
             else if length bs < unat n then Ret ((Inr (got @ bs), True), c', W', es')
             else recvmsg_loop iovs flags (got @ bs) c' W' es')"

definition sendmsg_hook :: "int \<Rightarrow> (u8 list list \<times> nat) option \<Rightarrow> int \<Rightarrow> lib_state \<Rightarrow> shm_world \<Rightarrow> sched
    \<Rightarrow> ((errno + nat) option \<times> lib_state \<times> shm_world \<times> sched) io" where
  "sendmsg_hook fd msg flags s W es =
     (case (msg, if hooked s then open_conn s fd else None) of
        (Some (iovs, controllen), Some p) \<Rightarrow>
          if controllen > 0 then Ret (Some (Inl EOPNOTSUPP), s, W, es)
          else store_result p s (sendmsg_loop iovs flags 0 (heap s p) W es)
      | _ \<Rightarrow> Ret (None, s, W, es))"

text \<open>The fields of a \<^verbatim>\<open>msghdr\<close> that \<^verbatim>\<open>recvmsg\<close> uses.\<close>

record msghdr =
  msg_iov :: "(u64 \<times> bool list) list"
  msg_controllen :: u64
  msg_flags :: int

definition recvmsg_hook :: "int \<Rightarrow> msghdr option \<Rightarrow> int \<Rightarrow> lib_state \<Rightarrow> shm_world \<Rightarrow> sched
    \<Rightarrow> (((errno + u8 list) \<times> msghdr) option \<times> lib_state \<times> shm_world \<times> sched) io" where
  "recvmsg_hook fd msg flags s W es =
     (case (msg, if hooked s then open_conn s fd else None) of
        (Some h, Some p) \<Rightarrow>
          (case store_result p s (recvmsg_loop (msg_iov h) flags [] (heap s p) W es) of Blocked \<Rightarrow> Blocked | Fault \<Rightarrow> Fault
           | Ret (res, s', W', es') \<Rightarrow>
               Ret (map_option (\<lambda>(r, end). (r, h\<lparr>msg_controllen := 0, msg_flags := (if end then 0 else msg_flags h)\<rparr>)) res, s', W', es'))
      | _ \<Rightarrow> Ret (None, s, W, es))"

text \<open>\<^verbatim>\<open>shutdown\<close> forwards and logs: it changes neither the connection nor the segment.\<close>

definition shutdown_hook :: "int \<Rightarrow> int \<Rightarrow> int \<Rightarrow> lib_state \<Rightarrow> shm_world \<Rightarrow> int \<times> lib_state \<times> shm_world" where
  "shutdown_hook rc fd how s W = (rc, s, W)"

text \<open>
  The hooks that only forward. Each takes the result of the C library's function; like every call of the kernel it leaves
  the library's state and the segments alone, on an upgraded fd too.
\<close>

definition bind_hook :: "(errno + int) \<Rightarrow> lib_state \<Rightarrow> shm_world \<Rightarrow> (errno + int) \<times> lib_state \<times> shm_world" where
  "bind_hook r s W = (r, s, W)"

definition listen_hook :: "(errno + int) \<Rightarrow> lib_state \<Rightarrow> shm_world \<Rightarrow> (errno + int) \<times> lib_state \<times> shm_world" where
  "listen_hook r s W = (r, s, W)"

definition sendto_hook :: "(errno + nat) \<Rightarrow> lib_state \<Rightarrow> shm_world \<Rightarrow> (errno + nat) \<times> lib_state \<times> shm_world" where
  "sendto_hook r s W = (r, s, W)"

definition recvfrom_hook :: "(errno + u8 list) \<Rightarrow> lib_state \<Rightarrow> shm_world \<Rightarrow> (errno + u8 list) \<times> lib_state \<times> shm_world" where
  "recvfrom_hook r s W = (r, s, W)"

definition getsockopt_hook :: "(errno + int) \<Rightarrow> lib_state \<Rightarrow> shm_world \<Rightarrow> (errno + int) \<times> lib_state \<times> shm_world" where
  "getsockopt_hook r s W = (r, s, W)"

definition setsockopt_hook :: "(errno + int) \<Rightarrow> lib_state \<Rightarrow> shm_world \<Rightarrow> (errno + int) \<times> lib_state \<times> shm_world" where
  "setsockopt_hook r s W = (r, s, W)"

definition getsockname_hook :: "(errno + int) \<Rightarrow> lib_state \<Rightarrow> shm_world \<Rightarrow> (errno + int) \<times> lib_state \<times> shm_world" where
  "getsockname_hook r s W = (r, s, W)"

definition getpeername_hook :: "(errno + int) \<Rightarrow> lib_state \<Rightarrow> shm_world \<Rightarrow> (errno + int) \<times> lib_state \<times> shm_world" where
  "getpeername_hook r s W = (r, s, W)"

definition socketpair_hook :: "(errno + int) \<Rightarrow> lib_state \<Rightarrow> shm_world \<Rightarrow> (errno + int) \<times> lib_state \<times> shm_world" where
  "socketpair_hook r s W = (r, s, W)"


section \<open>The send loop\<close>

text \<open>What a peer may do to the ring this side sends on: take bytes from its front.\<close>

definition takes_only :: "ShmConn \<Rightarrow> nat \<Rightarrow> (shm_world \<Rightarrow> shm_world) \<Rightarrow> bool" where
  "takes_only c i e \<longleftrightarrow> (\<forall>W. ring_wf (out_ring c i W) \<longrightarrow> ring_wf (out_ring c i (e W))
     \<and> (\<exists>d. contents (out_ring c i W) = d @ contents (out_ring c i (e W))))"

text \<open>A peer that keeps reading: it takes at least one byte of a full ring.\<close>

definition frees :: "ShmConn \<Rightarrow> nat \<Rightarrow> (shm_world \<Rightarrow> shm_world) \<Rightarrow> bool" where
  "frees c i e \<longleftrightarrow> takes_only c i e
     \<and> (\<forall>W. ring_wf (out_ring c i W) \<longrightarrow> length (contents (out_ring c i (e W))) < capacity (out_ring c i (e W)))"

lemma out_ring_put [simp]: "out_ring c i (put_out c i r W) = r"
  by (simp add: out_ring_def put_out_def upd_obj_def ring_outbound_def set_ring_outbound_def bump_outbound_def)

lemma out_ring_counters [simp]:
  "out_ring (c\<lparr>c_ring_full := x\<rparr>) = out_ring c" "out_ring (c\<lparr>c_bytes_sent := y\<rparr>) = out_ring c"
  by (simp_all add: out_ring_def fun_eq_iff)

lemma takes_only_counters [simp]: "takes_only (c\<lparr>c_ring_full := x\<rparr>) = takes_only c" "frees (c\<lparr>c_ring_full := x\<rparr>) = frees c"
  by (simp_all add: takes_only_def frees_def fun_eq_iff)

lemma send_step:
  assumes "ring_wf r" "length buf < 2 ^ 64"
  shows "\<exists>did r'. send_some r (drop k buf) = Some (did, r') \<and> ring_wf r'
    \<and> unat did = min (length (drop k buf)) (capacity r - length (contents r))
    \<and> contents r' = contents r @ take (unat did) (drop k buf)"
proof -
  have "length (drop k buf) < 2 ^ 64" using assms(2) by (simp add: less_imp_diff_less)
  from ring_stream.send_law [OF assms(1) this] show ?thesis by blast
qed

lemma send_loop_stream:
  assumes "ring_wf (out_ring c i W)" "list_all (takes_only c i) es" "length buf < 2 ^ 64" "sofar \<le> length buf"
    "shm_send_loop nb i buf sofar c W es = Ret (r, c', W', es')"
  shows "\<exists>d n. contents (out_ring c i W) @ take (n - sofar) (drop sofar buf) = d @ contents (out_ring c i W')
    \<and> sofar \<le> n \<and> n \<le> length buf \<and> ring_wf (out_ring c i W')
    \<and> (r = Inr n \<or> r = Inl EAGAIN \<and> nb \<and> n = 0) \<and> (\<not> nb \<longrightarrow> r = Inr (length buf))"
  using assms
proof (induction nb i buf sofar c W es rule: shm_send_loop.induct)
  case (1 nb i buf sofar c W es)
  note eq = shm_send_loop.simps [of nb i buf sofar c W es]
  show ?case
  proof (cases "length buf \<le> sofar")
    case True
    then have "sofar = length buf" "r = Inr sofar" "W' = W" using "1.prems"(4,5) eq by auto
    then show ?thesis using "1.prems"(1) by (intro exI [of _ "[]"] exI [of _ sofar]) simp
  next
    case False
    obtain did r1 where s: "send_some (out_ring c i W) (drop sofar buf) = Some (did, r1)" "ring_wf r1"
      "unat did = min (length (drop sofar buf)) (capacity (out_ring c i W) - length (contents (out_ring c i W)))"
      "contents r1 = contents (out_ring c i W) @ take (unat did) (drop sofar buf)"
      using send_step [OF "1.prems"(1,3)] by blast
    show ?thesis
    proof (cases "did > 0")
      case True
      have le: "sofar + unat did \<le> length buf" using s(3) False by simp
      have rec: "shm_send_loop nb i buf (sofar + unat did) c (put_out c i r1 W) es = Ret (r, c', W', es')"
        using "1.prems"(5) eq False s(1) True by simp
      from "1.IH"(1) [OF False s(1) refl True _ "1.prems"(2,3) le rec] s(2)
      obtain d n where ih: "contents r1 @ take (n - (sofar + unat did)) (drop (sofar + unat did) buf) = d @ contents (out_ring c i W')"
        "sofar + unat did \<le> n" "n \<le> length buf" "ring_wf (out_ring c i W')"
        "r = Inr n \<or> r = Inl EAGAIN \<and> nb \<and> n = 0" "\<not> nb \<longrightarrow> r = Inr (length buf)" by auto
      have "take (n - sofar) (drop sofar buf) = take (unat did) (drop sofar buf) @ take (n - (sofar + unat did)) (drop (sofar + unat did) buf)"
        using ih(2) take_add [of "unat did" "n - (sofar + unat did)" "drop sofar buf"] by (simp add: add.commute)
      then show ?thesis using ih s(4) by (intro exI [of _ d] exI [of _ n]) simp
    next
      case zero: False
      define c1 where "c1 = c\<lparr>c_ring_full := c_ring_full c + 1\<rparr>"
      show ?thesis
      proof (cases nb)
        case True
        then have "W' = W" "r = Inr sofar \<or> r = Inl EAGAIN \<and> sofar = 0"
          using "1.prems"(5) eq False s(1) zero by (auto simp: Let_def split: if_splits)
        then show ?thesis using "1.prems"(1,4) True by (intro exI [of _ "[]"] exI [of _ sofar]) auto
      next
        case nb: False
        obtain e es1 where es: "es = e # es1" using "1.prems"(5) eq False s(1) zero nb by (cases es) (auto simp: Let_def)
        have rec: "shm_send_loop nb i buf sofar c1 (e W) es1 = Ret (r, c', W', es')"
          using "1.prems"(5) eq False s(1) zero nb es by (simp add: Let_def c1_def)
        have t: "takes_only c i e" "list_all (takes_only c i) es1" using "1.prems"(2) es by auto
        obtain d0 where d0: "contents (out_ring c i W) = d0 @ contents (out_ring c i (e W))" "ring_wf (out_ring c i (e W))"
          using t(1) "1.prems"(1) by (auto simp: takes_only_def)
        have c1: "out_ring c1 = out_ring c" "takes_only c1 = takes_only c" by (simp_all add: c1_def)
        have "\<exists>d n. contents (out_ring c1 i (e W)) @ take (n - sofar) (drop sofar buf) = d @ contents (out_ring c1 i W')
            \<and> sofar \<le> n \<and> n \<le> length buf \<and> ring_wf (out_ring c1 i W')
            \<and> (r = Inr n \<or> r = Inl EAGAIN \<and> nb \<and> n = 0) \<and> (\<not> nb \<longrightarrow> r = Inr (length buf))"
          by (rule "1.IH"(2) [OF False s(1) refl zero c1_def nb es]) (use d0 t "1.prems"(3,4) rec c1 in auto)
        then show ?thesis unfolding c1 using d0(1) by (metis append.assoc)
      qed
    qed
  qed
qed

lemma send_loop_no_fault:
  assumes "ring_wf (out_ring c i W)" "list_all (takes_only c i) es" "length buf < 2 ^ 64"
  shows "shm_send_loop nb i buf sofar c W es \<noteq> Fault"
  using assms
proof (induction nb i buf sofar c W es rule: shm_send_loop.induct)
  case (1 nb i buf sofar c W es)
  obtain did r1 where s: "send_some (out_ring c i W) (drop sofar buf) = Some (did, r1)" "ring_wf r1"
    using send_step [OF "1.prems"(1,3)] by blast
  have e: "ring_wf (out_ring c i (e W))" if "es = e # es1" for e es1
    using "1.prems"(1,2) that by (auto simp: takes_only_def)
  show ?case
    using "1.IH"(1) [OF _ s(1) refl] "1.IH"(2) [OF _ s(1) refl _ refl] "1.prems" s e
    by (subst shm_send_loop.simps) (auto simp: Let_def split: list.splits)
qed

lemma send_loop_returns:
  assumes "ring_wf (out_ring c i W)" "list_all (frees c i) es" "length buf < 2 ^ 64"
    "length buf - sofar + (if length (contents (out_ring c i W)) < capacity (out_ring c i W) then 0 else 1) \<le> length es + 1"
  shows "\<exists>x. shm_send_loop nb i buf sofar c W es = Ret x"
  using assms
proof (induction nb i buf sofar c W es rule: shm_send_loop.induct)
  case (1 nb i buf sofar c W es)
  let ?r = "out_ring c i W"
  note eq = shm_send_loop.simps [of nb i buf sofar c W es]
  obtain did r1 where s: "send_some ?r (drop sofar buf) = Some (did, r1)" "ring_wf r1"
    "unat did = min (length (drop sofar buf)) (capacity ?r - length (contents ?r))"
    using send_step [OF "1.prems"(1,3)] by blast
  consider "length buf \<le> sofar" | "\<not> length buf \<le> sofar" "did > 0" | "\<not> length buf \<le> sofar" "\<not> did > 0" by blast
  then show ?case
  proof cases
    case 1
    then show ?thesis using eq by simp
  next
    case 2
    have "unat did > 0" using 2(2) by (simp add: word_greater_zero_iff unat_gt_0)
    then have "length buf - (sofar + unat did) + 1 \<le> length es + 1" using "1.prems"(4) by (auto split: if_splits)
    then have "\<exists>x. shm_send_loop nb i buf (sofar + unat did) c (put_out c i r1 W) es = Ret x"
      by (intro "1.IH"(1) [OF 2(1) s(1) refl 2(2)]) (use s(2) "1.prems"(2,3) in auto)
    then show ?thesis using eq 2 s(1) by simp
  next
    case 3
    then have full: "\<not> length (contents ?r) < capacity ?r" using s(3) by (auto simp: word_greater_zero_iff)
    show ?thesis
    proof (cases nb)
      case False
      obtain e es1 where es: "es = e # es1" using "1.prems"(4) full 3(1) by (cases es) auto
      have f: "frees c i e" "list_all (frees c i) es1" using "1.prems"(2) es by auto
      have "ring_wf (out_ring c i (e W))" "length (contents (out_ring c i (e W))) < capacity (out_ring c i (e W))"
        using f(1) "1.prems"(1) by (auto simp: frees_def takes_only_def)
      then have "\<exists>x. shm_send_loop nb i buf sofar (c\<lparr>c_ring_full := c_ring_full c + 1\<rparr>) (e W) es1 = Ret x"
        by (intro "1.IH"(2) [OF 3(1) s(1) refl 3(2) refl False es]) (use f "1.prems"(3,4) es full in auto)
      then show ?thesis using eq 3 s(1) False es by (simp add: Let_def)
    qed (use eq 3 s(1) in \<open>simp add: Let_def\<close>)
  qed
qed

lemma send_loop_nonblock_returns:
  "ring_wf (out_ring c i W) \<Longrightarrow> length buf < 2 ^ 64 \<Longrightarrow> nb \<Longrightarrow> shm_send_loop nb i buf sofar c W es \<noteq> Blocked"
proof (induction nb i buf sofar c W es rule: shm_send_loop.induct)
  case (1 nb i buf sofar c W es)
  obtain did r1 where s: "send_some (out_ring c i W) (drop sofar buf) = Some (did, r1)" "ring_wf r1"
    using send_step [OF "1.prems"(1,2)] by blast
  show ?case
    using "1.IH"(1) [OF _ s(1) refl] "1.prems" s by (subst shm_send_loop.simps) (auto simp: Let_def)
qed

lemma shm_send_ok:
  assumes "base (c_segment c) = Some i" "ring_wf (out_ring c i W)" "list_all (takes_only c i) es" "length buf < 2 ^ 64"
  shows "case shm_send c buf flags W es of Fault \<Rightarrow> False | Blocked \<Rightarrow> \<not> (c_nonblocking c \<or> MSG_DONTWAIT_set flags)
    | Ret (r, c', W', es') \<Rightarrow>
        (\<exists>d n. contents (out_ring c i W) @ take n buf = d @ contents (out_ring c i W')
           \<and> n \<le> length buf \<and> ring_wf (out_ring c i W')
           \<and> (r = Inr n \<or> r = Inl EAGAIN \<and> n = 0 \<and> (c_nonblocking c \<or> MSG_DONTWAIT_set flags))
           \<and> (\<not> (c_nonblocking c \<or> MSG_DONTWAIT_set flags) \<longrightarrow> r = Inr (length buf)))"
proof (cases "buf = []")
  case True
  then show ?thesis using assms(2) by (auto simp: shm_send_def)
next
  case False
  let ?nb = "c_nonblocking c \<or> MSG_DONTWAIT_set flags"
  have eq: "shm_send c buf flags W es = shm_send_loop ?nb i buf 0 c W es" using False assms(1) by (simp add: shm_send_def)
  have nf: "shm_send_loop ?nb i buf 0 c W es \<noteq> Fault" by (rule send_loop_no_fault [OF assms(2-4)])
  show ?thesis
  proof (cases "shm_send_loop ?nb i buf 0 c W es")
    case (Ret x)
    obtain r c' W' es' where x: "x = (r, c', W', es')" by (cases x)
    from send_loop_stream [OF assms(2-4) _ Ret [unfolded x]] show ?thesis unfolding eq Ret x by auto
  next
    case Blocked
    then have "\<not> ?nb" using send_loop_nonblock_returns [OF assms(2,4)] by metis
    then show ?thesis unfolding eq Blocked by simp
  qed (use nf in simp)
qed


section \<open>The receive loop\<close>

text \<open>What a peer may do to the ring this side receives on: append bytes, and close it.\<close>

definition extends :: "ShmConn \<Rightarrow> nat \<Rightarrow> shm_world \<Rightarrow> shm_world \<Rightarrow> bool" where
  "extends c i W W' \<longleftrightarrow> (ring_wf (in_ring c i W) \<longrightarrow> ring_wf (in_ring c i W')
     \<and> (\<exists>a. contents (in_ring c i W') = contents (in_ring c i W) @ a)
     \<and> (peer_closed (in_ring c i W) \<longrightarrow> peer_closed (in_ring c i W')))"

definition adds_only :: "ShmConn \<Rightarrow> nat \<Rightarrow> (shm_world \<Rightarrow> shm_world) \<Rightarrow> bool" where
  "adds_only c i e \<longleftrightarrow> (\<forall>W. extends c i W (e W))"

lemma extends_trans: "extends c i W V \<Longrightarrow> extends c i V U \<Longrightarrow> extends c i W U"
  by (auto simp: extends_def)

lemma in_ring_put [simp]: "in_ring c i (put_in c i r W) = r"
  by (simp add: in_ring_def put_in_def upd_obj_def ring_inbound_def set_ring_inbound_def)

lemma in_ring_counters [simp]:
  "in_ring (c\<lparr>c_ring_empty := x\<rparr>) = in_ring c" "adds_only (c\<lparr>c_ring_empty := x\<rparr>) = adds_only c"
  by (simp_all add: in_ring_def adds_only_def extends_def fun_eq_iff)

lemma mark_closed_wf [simp]: "ring_wf (mark_closed r) = ring_wf r"
  by (simp add: ring_wf_def ring_static_ok_def kCapacity_def mark_closed_def)

lemma extends_mark: "extends c i W (put_in c i (mark_closed (in_ring c i W)) W)"
  by (simp add: extends_def mark_closed_contents)

lemma park_extends:
  "park c i W es = Some (W', es') \<Longrightarrow> list_all (adds_only c i) es \<Longrightarrow> extends c i W W' \<and> list_all (adds_only c i) es'"
  by (auto simp: park_def Let_def adds_only_def split: list.splits if_splits) (meson extends_trans)+

definition recv_ok :: "bool \<Rightarrow> u64 \<Rightarrow> ShmConn \<Rightarrow> nat \<Rightarrow> shm_world \<Rightarrow> errno + u8 list \<Rightarrow> shm_world \<Rightarrow> bool" where
  "recv_ok nb n c i W r W' \<longleftrightarrow> ring_wf (in_ring c i W')
     \<and> (case r of
          Inr bs \<Rightarrow> length bs \<le> unat n \<and> (\<exists>a. contents (in_ring c i W) @ a = bs @ contents (in_ring c i W'))
            \<and> (bs = [] \<longrightarrow> contents (in_ring c i W') = [] \<and> peer_closed (in_ring c i W'))
        | Inl e \<Rightarrow> e = EAGAIN \<and> nb \<and> contents (in_ring c i W) = [] \<and> contents (in_ring c i W') = [] \<and> \<not> peer_closed (in_ring c i W'))"

lemma recv_ok_extends:
  assumes "ring_wf (in_ring c i W)" "extends c i W V" "recv_ok nb n c i V r W'"
  shows "recv_ok nb n c i W r W'"
proof (cases r)
  case (Inr bs)
  obtain a where "contents (in_ring c i V) = contents (in_ring c i W) @ a" using assms(1,2) by (auto simp: extends_def)
  with assms(3) Inr show ?thesis by (auto simp: recv_ok_def)
qed (use assms in \<open>auto simp: recv_ok_def extends_def\<close>)

lemma recv_ok_counter [simp]: "recv_ok nb n (c\<lparr>c_ring_empty := x\<rparr>) = recv_ok nb n c"
  by (simp add: recv_ok_def fun_eq_iff split: sum.splits)

lemma recv_step:
  assumes "ring_wf r" "n \<noteq> 0"
  obtains did r' where "recv_some r n = Some (did, take (unat did) (contents r), r')" "ring_wf r'"
    "contents r' = drop (unat did) (contents r)" "unat did \<le> unat n" "unat did \<le> length (contents r)"
    "did = 0 \<longleftrightarrow> contents r = []"
proof -
  obtain did r' where s: "recv_some r n = Some (did, take (unat did) (contents r), r')" "ring_wf r'"
    "unat did = min (unat n) (length (contents r))" "contents r' = drop (unat did) (contents r)"
    using ring_stream.recv_law [OF assms(1), of n] by blast
  have "unat n \<noteq> 0" using assms(2) by (simp add: unat_eq_zero)
  then have "unat did = 0 \<longleftrightarrow> contents r = []" using s(3) by (auto simp: min_def split: if_splits)
  then have "did = 0 \<longleftrightarrow> contents r = []" by (simp add: unat_eq_zero)
  with s that show ?thesis by auto
qed

lemma recv_loop_ok:
  assumes "ring_wf (in_ring c i W)" "n \<noteq> 0" "list_all (adds_only c i) es"
  shows "case shm_recv_loop nb i n spin hups c W es of Ret (r, c', W', es') \<Rightarrow> recv_ok nb n c i W r W' | Blocked \<Rightarrow> \<not> nb | Fault \<Rightarrow> False"
  using assms
proof (induction nb i n spin hups c W es rule: shm_recv_loop.induct)
  case (1 nb i n spin hups c W es)
  let ?r = "in_ring c i W"
  note eq = shm_recv_loop.simps [of nb i n spin hups c W es]
  obtain did r' where s: "recv_some ?r n = Some (did, take (unat did) (contents ?r), r')" "ring_wf r'"
    "contents r' = drop (unat did) (contents ?r)" "unat did \<le> unat n" "unat did \<le> length (contents ?r)"
    "did = 0 \<longleftrightarrow> contents ?r = []"
    by (rule recv_step [OF "1.prems"(1,2)])
  show ?case
  proof (cases "did > 0")
    case True
    then have "unat did \<noteq> 0" by (simp add: unat_eq_zero word_greater_zero_iff)
    with True s show ?thesis by (subst eq) (auto simp: recv_ok_def word_greater_zero_iff)
  next
    case False
    then have empty: "contents ?r = []" using s(6) by (simp add: word_greater_zero_iff)
    then have rd: "readable ?r = 0" using unat_readable [of ?r] by (simp add: unat_eq_zero)
    show ?thesis
    proof (cases "peer_closed ?r \<or> nb")
      case True
      then show ?thesis using "1.prems"(1) empty rd False s(1) by (subst eq) (auto simp: recv_ok_def Let_def)
    next
      case go: False
      define c1 where "c1 = c\<lparr>c_ring_empty := c_ring_empty c + 1\<rparr>"
      have c1: "in_ring c1 = in_ring c" "adds_only c1 = adds_only c" "recv_ok nb n c1 = recv_ok nb n c" by (simp_all add: c1_def)
      have npc: "\<not> (peer_closed ?r \<and> readable ?r = 0)" "\<not> nb" using go by auto
      have step: "case shm_recv_loop nb i n spin' hups' c1 V es1 of Ret (r, c', W', es') \<Rightarrow> recv_ok nb n c i W r W' | Blocked \<Rightarrow> \<not> nb | Fault \<Rightarrow> False"
        if "case shm_recv_loop nb i n spin' hups' c1 V es1 of Ret (r, c', W', es') \<Rightarrow> recv_ok nb n c1 i V r W' | Blocked \<Rightarrow> \<not> nb | Fault \<Rightarrow> False"
          "extends c i W V" for spin' hups' V es1
        using that recv_ok_extends [OF "1.prems"(1) that(2)] unfolding c1 by (auto split: io.splits)
      note ih = "1.IH" [OF s(1) refl refl False npc(1) c1_def npc(2)]
      show ?thesis
      proof (cases "hups \<noteq> [] \<and> hd hups")
        case True
        have "extends c i W (put_in c i (mark_closed ?r) W)" by (rule extends_mark)
        then show ?thesis
          using step [OF ih(1) [OF True]] "1.prems" False npc s(1) True
          by (subst eq) (auto simp: Let_def c1 simp flip: c1_def)
      next
        case nh: False
        show ?thesis
        proof (cases "spin < 100")
          case True
          show ?thesis
          proof (cases es)
            case Nil
            then show ?thesis using False npc s(1) nh True by (subst eq) (auto simp: Let_def)
          next
            case (Cons e es1)
            then have a: "adds_only c i e" "list_all (adds_only c i) es1" using "1.prems"(3) by simp_all
            from a(1) have "extends c i W (e W)" by (simp add: adds_only_def)
            with a(2) show ?thesis
              using step [OF ih(2) [OF nh True Cons]] "1.prems" False npc s(1) nh True Cons
              by (subst eq) (auto simp: Let_def c1 extends_def simp flip: c1_def)
          qed
        next
          case slow: False
          show ?thesis
          proof (cases "park c i W es")
            case None
            then show ?thesis using False npc s(1) nh slow by (subst eq) (auto simp: Let_def)
          next
            case (Some p)
            obtain V es1 where p: "p = (V, es1)" by (cases p)
            have "extends c i W V" "list_all (adds_only c i) es1" using park_extends [OF Some [unfolded p] "1.prems"(3)] by auto
            then show ?thesis
              using step [OF ih(3) [OF nh slow Some p [symmetric]]] "1.prems" False npc s(1) nh slow Some p
              by (subst eq) (auto simp: Let_def c1 extends_def simp flip: c1_def)
          qed
        qed
      qed
    qed
  qed
qed


lemma shm_recv_ok:
  assumes "base (c_segment c) = Some i" "ring_wf (in_ring c i W)" "n \<noteq> 0" "\<not> MSG_PEEK_set flags"
    "list_all (adds_only c i) es"
  shows "case shm_recv c n flags hups W es of Fault \<Rightarrow> False | Blocked \<Rightarrow> \<not> (c_nonblocking c \<or> MSG_DONTWAIT_set flags)
    | Ret (r, c', W', es') \<Rightarrow> ring_wf (in_ring c i W')
        \<and> (case r of
             Inr bs \<Rightarrow> length bs \<le> unat n \<and> (\<exists>a. contents (in_ring c i W) @ a = bs @ contents (in_ring c i W'))
               \<and> (bs = [] \<longrightarrow> contents (in_ring c i W') = [] \<and> peer_closed (in_ring c i W'))
           | Inl e \<Rightarrow> e = EAGAIN \<and> (c_nonblocking c \<or> MSG_DONTWAIT_set flags)
               \<and> contents (in_ring c i W) = [] \<and> contents (in_ring c i W') = [] \<and> \<not> peer_closed (in_ring c i W'))"
proof -
  let ?nb = "c_nonblocking c \<or> MSG_DONTWAIT_set flags"
  have "shm_recv c n flags hups W es = shm_recv_loop ?nb i n 0 hups c W es" using assms(1,3,4) by (simp add: shm_recv_def)
  with recv_loop_ok [OF assms(2,3,5), of ?nb 0 hups] show ?thesis
    by (auto simp: recv_ok_def split: io.splits sum.splits)
qed


section \<open>Properties\<close>

text \<open>
  C3. A send over shared memory is a send on a byte stream. Whatever the peer takes from the ring while the
  call waits, a call that returns has appended exactly the first \<open>n\<close> bytes of its buffer, where \<open>n\<close> is what it
  reports, in order and behind what was there; the bytes that left the ring left from its front. A
  blocking call reports the whole buffer; a non-blocking one may report less, and \<^verbatim>\<open>EAGAIN\<close> only if it
  appended nothing. No call accesses the ring out of range.
\<close>

theorem shm_send_streams:
  assumes "base (c_segment c) = Some i" "ring_wf (out_ring c i W)" "list_all (takes_only c i) es" "length buf < 2 ^ 64"
  shows "case shm_send c buf flags W es of Fault \<Rightarrow> False | Blocked \<Rightarrow> \<not> (c_nonblocking c \<or> MSG_DONTWAIT_set flags)
    | Ret (r, c', W', es') \<Rightarrow>
        (\<exists>d n. contents (out_ring c i W) @ take n buf = d @ contents (out_ring c i W')
           \<and> n \<le> length buf \<and> ring_wf (out_ring c i W')
           \<and> (r = Inr n \<or> r = Inl EAGAIN \<and> n = 0 \<and> (c_nonblocking c \<or> MSG_DONTWAIT_set flags))
           \<and> (\<not> (c_nonblocking c \<or> MSG_DONTWAIT_set flags) \<longrightarrow> r = Inr (length buf)))"
  by (rule shm_send_ok [OF assms])

text \<open>
  C18. A blocking send ends when the peer keeps reading. If the peer makes room whenever the sender gives
  way, and it does so at least as often as the buffer has bytes, the call returns and reports the whole buffer.
\<close>

theorem shm_send_completes:
  assumes "base (c_segment c) = Some i" "ring_wf (out_ring c i W)" "list_all (frees c i) es"
    "length buf \<le> length es" "length buf < 2 ^ 64" "\<not> c_nonblocking c" "\<not> MSG_DONTWAIT_set flags"
  shows "\<exists>c' W' es'. shm_send c buf flags W es = Ret (Inr (length buf), c', W', es')"
proof (cases "buf = []")
  case False
  have t: "list_all (takes_only c i) es" using assms(3) by (auto simp: list_all_iff frees_def)
  have eq: "shm_send c buf flags W es = shm_send_loop False i buf 0 c W es" using False assms(1,6,7) by (simp add: shm_send_def)
  obtain r c' W' es' where x: "shm_send_loop False i buf 0 c W es = Ret (r, c', W', es')"
  proof -
    have "length buf - 0 + (if length (contents (out_ring c i W)) < capacity (out_ring c i W) then 0 else 1) \<le> length es + 1"
      using assms(4) by simp
    from send_loop_returns [OF assms(2,3,5) this, of False] that show ?thesis by (metis prod_cases4)
  qed
  with send_loop_stream [OF assms(2) t assms(5) _ x] show ?thesis unfolding eq by auto
qed (simp add: shm_send_def)

text \<open>
  C4. A receive over shared memory is a receive on a byte stream. Whatever the peer appends while the call
  waits, a call that returns bytes returns the oldest ones, at most as many as asked for, and leaves the
  rest in order. It reports the end of the stream only when the ring is closed and every byte was
  delivered, and \<^verbatim>\<open>EAGAIN\<close> only to a non-blocking caller whose ring is empty and open. A non-blocking
  call always returns, and no call accesses the ring out of range.
\<close>

theorem shm_recv_streams:
  assumes "base (c_segment c) = Some i" "ring_wf (in_ring c i W)" "n \<noteq> 0" "\<not> MSG_PEEK_set flags"
    "list_all (adds_only c i) es"
  shows "case shm_recv c n flags hups W es of Fault \<Rightarrow> False | Blocked \<Rightarrow> \<not> (c_nonblocking c \<or> MSG_DONTWAIT_set flags)
    | Ret (r, c', W', es') \<Rightarrow> ring_wf (in_ring c i W')
        \<and> (case r of
             Inr bs \<Rightarrow> length bs \<le> unat n \<and> (\<exists>a. contents (in_ring c i W) @ a = bs @ contents (in_ring c i W'))
               \<and> (bs = [] \<longrightarrow> contents (in_ring c i W') = [] \<and> peer_closed (in_ring c i W'))
           | Inl e \<Rightarrow> e = EAGAIN \<and> (c_nonblocking c \<or> MSG_DONTWAIT_set flags)
               \<and> contents (in_ring c i W) = [] \<and> contents (in_ring c i W') = [] \<and> \<not> peer_closed (in_ring c i W'))"
  by (rule shm_recv_ok [OF assms])

text \<open>A creator's connection whose rings both hold four bytes across the end of the array.\<close>

definition demo_conn :: ShmConn where
  "demo_conn = new_conn \<lparr>base = Some 0, seg_key = 7, seg_role = kRoleCreator, owned = True\<rparr> 7 5"

definition demo_world :: shm_world where
  "demo_world = \<lparr>names = (\<lambda>_. None), objs = (\<lambda>_. zero_segment\<lparr>ring_c2j := wrapped_ring, ring_j2c := wrapped_ring\<rparr>), next_obj = 1\<rparr>"

definition take_all :: "shm_world \<Rightarrow> shm_world" where
  "take_all W = upd_obj 0 (\<lambda>s. s\<lparr>ring_c2j := (ring_c2j s)\<lparr>r_head := r_tail (ring_c2j s)\<rparr>\<rparr>) W"

lemma demo_facts:
  "base (c_segment demo_conn) = Some 0" "out_ring demo_conn 0 demo_world = wrapped_ring" "in_ring demo_conn 0 demo_world = wrapped_ring"
  "c_nonblocking demo_conn = False" "\<not> MSG_DONTWAIT_set 0" "MSG_DONTWAIT_set 64" "\<not> MSG_PEEK_set 64"
  by (simp_all add: demo_conn_def new_conn_def demo_world_def out_ring_def in_ring_def ring_outbound_def ring_inbound_def
      MSG_DONTWAIT_set_def MSG_PEEK_set_def bit_numeral_rec(1) bit_iff_odd)

lemma take_all_frees: "frees demo_conn 0 take_all"
proof -
  have o: "out_ring demo_conn 0 W = ring_c2j (objs W 0)" for W
    by (simp add: out_ring_def demo_conn_def new_conn_def ring_outbound_def)
  have empty: "contents (r\<lparr>r_head := r_tail r\<rparr>) = []" for r by (simp add: contents_def)
  have wf: "ring_wf (r\<lparr>r_head := r_tail r\<rparr>) \<and> 0 < capacity r" if "ring_wf r" for r
  proof -
    note h = that
    obtain k where "length (r_data r) = 2 ^ k" using ring_wf_pow2 [OF h] by metis
    then have "0 < capacity r" by (simp add: capacity_def)
    then show ?thesis using that by (simp add: ring_wf_def ring_static_ok_def kCapacity_def)
  qed
  show ?thesis
    using wf by (auto simp: frees_def takes_only_def o take_all_def upd_obj_def empty capacity_def)
qed

theorem shm_send_streams_witness:
  "case shm_send demo_conn [1, 2] 64 demo_world [] of Fault \<Rightarrow> False | Blocked \<Rightarrow> False
   | Ret (r, c', W', es') \<Rightarrow> (\<exists>d n. [7, 7, 7, 7] @ take n [1, 2] = d @ contents (out_ring demo_conn 0 W')
       \<and> n \<le> 2 \<and> (r = Inr n \<or> r = Inl EAGAIN \<and> n = 0))"
  using shm_send_streams [of demo_conn 0 demo_world "[]" "[1, 2]" 64]
  by (auto simp: demo_facts wrapped_ring_facts split: io.splits)

theorem shm_send_completes_witness:
  "\<exists>c' W' es'. shm_send demo_conn [1, 2] 0 demo_world [take_all, take_all] = Ret (Inr (length [1, 2 :: u8]), c', W', es')"
  by (rule shm_send_completes [of _ 0]) (simp_all add: demo_facts wrapped_ring_facts take_all_frees)

theorem shm_recv_streams_witness:
  "case shm_recv demo_conn 2 64 [] demo_world [] of Fault \<Rightarrow> False | Blocked \<Rightarrow> False
   | Ret (r, c', W', es') \<Rightarrow> (case r of Inr bs \<Rightarrow> length bs \<le> 2 \<and> (\<exists>a. [7, 7, 7, 7] @ a = bs @ contents (in_ring demo_conn 0 W'))
       | Inl e \<Rightarrow> e = EAGAIN)"
  using shm_recv_streams [of demo_conn 0 demo_world 2 64 "[]" "[]"]
  by (auto simp: demo_facts wrapped_ring_facts split: io.splits sum.splits)

end
