(* ===== verification/File_Api.thy ===== *)
theory File_Api
  imports Lib_State
begin

text \<open>
  The descriptor hooks of \<^verbatim>\<open>src/lib/file_api.cpp\<close>. The result of the C library's own function (\<^verbatim>\<open>REAL\<close>) is an
  argument; the flag in a result says whether that function was called. \<open>None\<close> is undefined behaviour of
  the fd table. The metrics snapshot that \<^verbatim>\<open>close\<close> writes to a file is not part of the state.
\<close>

text \<open>The counters of a connection that dies go into the totals of the process.\<close>

definition fold_closed :: "ShmConn \<Rightarrow> lib_state \<Rightarrow> lib_state" where
  "fold_closed c s = s\<lparr>
     shm_bytes_sent_closed := shm_bytes_sent_closed s + c_bytes_sent c,
     shm_bytes_recv_closed := shm_bytes_recv_closed s + c_bytes_recv c,
     shm_ring_full_closed := shm_ring_full_closed s + c_ring_full c,
     shm_ring_empty_closed := shm_ring_empty_closed s + c_ring_empty c,
     shm_conn_closed_total := shm_conn_closed_total s + 1\<rparr>"

definition close_hook :: "int \<Rightarrow> int \<Rightarrow> lib_state \<Rightarrow> shm_world \<Rightarrow> (int \<times> bool \<times> lib_state \<times> shm_world) option" where
  "close_hook rc fd s W =
     (if \<not> hooked s then Some (rc, True, s, W)
      else do {
        v \<leftarrow> find_vfd (fd_table s) fd;
        if v < 0 then Some (rc, True, s, W)
        else do {
          (refs, T) \<leftarrow> fd_free (fd_table s) v;
          let s1 = s\<lparr>fd_table := T, m_close_total := m_close_total s + 1\<rparr>;
          if refs > 0 then Some (0, False, s1, W)
          else (case reg_remove fd (registry s1) of
              (None, _) \<Rightarrow> Some (rc, True, s1, W)
            | (Some p, R) \<Rightarrow>
                (let s2 = fold_closed (heap s1 p) (s1\<lparr>registry := R\<rparr>); (s3, W3) = release_ref p s2 W
                 in Some (rc, True, s3, W3)))
        }
      })"

text \<open>What the \<^verbatim>\<open>dup\<close> family does with a tracked fd: the new fd gets the old one's type.\<close>

definition track_dup :: "int \<Rightarrow> int \<Rightarrow> lib_state \<Rightarrow> lib_state option" where
  "track_dup v new_fd s = do {
     m \<leftarrow> fd_lookup (fd_table s) v;
     (_, T) \<leftarrow> fd_alloc (fd_table s) (m_type m) new_fd;
     Some (s\<lparr>fd_table := T, m_dup_total := m_dup_total s + 1\<rparr>)
   }"

definition dup_hook :: "int \<Rightarrow> int \<Rightarrow> lib_state \<Rightarrow> (int \<times> lib_state) option" where
  "dup_hook new_fd fd s =
     (if \<not> hooked s then Some (new_fd, s)
      else do {
        v \<leftarrow> find_vfd (fd_table s) fd;
        if v < 0 \<or> new_fd < 0 then Some (new_fd, s)
        else map_option (\<lambda>s'. (new_fd, s')) (track_dup v new_fd s)
      })"

definition dup2_hook :: "int \<Rightarrow> int \<Rightarrow> int \<Rightarrow> lib_state \<Rightarrow> (int \<times> lib_state) option" where
  "dup2_hook rc oldfd newfd s =
     (if \<not> hooked s then Some (rc, s)
      else do {
        v_old \<leftarrow> find_vfd (fd_table s) oldfd;
        if rc < 0 \<or> v_old < 0 then Some (rc, s)
        else do {
          v_new \<leftarrow> find_vfd (fd_table s) newfd;
          T \<leftarrow> (if v_new \<ge> 0 then map_option snd (fd_free (fd_table s) v_new) else Some (fd_table s));
          map_option (\<lambda>s'. (rc, s')) (track_dup v_old newfd (s\<lparr>fd_table := T\<rparr>))
        }
      })"

definition dup3_hook :: "int \<Rightarrow> int \<Rightarrow> int \<Rightarrow> int \<Rightarrow> lib_state \<Rightarrow> (int \<times> lib_state) option" where
  "dup3_hook rc oldfd newfd flags s =
     (if \<not> hooked s then Some (rc, s)
      else do {
        v_old \<leftarrow> find_vfd (fd_table s) oldfd;
        if rc < 0 then Some (rc, s)
        else if v_old < 0 then Some (rc, s)
        else do {
          v_new \<leftarrow> find_vfd (fd_table s) newfd;
          T \<leftarrow> (if v_new \<ge> 0 then map_option snd (fd_free (fd_table s) v_new) else Some (fd_table s));
          map_option (\<lambda>s'. (rc, s')) (track_dup v_old newfd (s\<lparr>fd_table := T\<rparr>))
        }
      })"

definition F_DUPFD :: int where
  "F_DUPFD = 0"

definition fcntl_hook :: "int \<Rightarrow> int \<Rightarrow> int \<Rightarrow> lib_state \<Rightarrow> (int \<times> lib_state) option" where
  "fcntl_hook rc fd cmd s =
     (if rc \<ge> 0 \<and> hooked s \<and> cmd = F_DUPFD
      then do {
        v \<leftarrow> find_vfd (fd_table s) fd;
        if v \<ge> 0 then map_option (\<lambda>s'. (rc, s')) (track_dup v rc s) else Some (rc, s)
      }
      else Some (rc, s))"


section \<open>Totals\<close>

text \<open>The bytes sent by the process: those of closed connections and those of live ones.\<close>

definition total_of :: "(lib_state \<Rightarrow> u64) \<Rightarrow> (ShmConn \<Rightarrow> u64) \<Rightarrow> lib_state \<Rightarrow> u64" where
  "total_of closed_part part s = closed_part s + sum_list (map (\<lambda>(_, p). part (heap s p)) (registry s))"

lemma sum_erase:
  fixes f :: "nat \<Rightarrow> u64"
  assumes "map_ok R" "map_find R fd = Some p"
  shows "sum_list (map (\<lambda>(_, q). f q) R) = f p + sum_list (map (\<lambda>(_, q). f q) (map_erase fd R :: (int, nat) std_map))"
  using assms
proof (induction R)
  case (Cons kv R)
  obtain k q where kv: "kv = (k, q)" by (cases kv)
  show ?case
  proof (cases "k = fd")
    case True
    have "map_erase fd R = R" using Cons.prems(1) True by (auto simp: kv map_ok_Cons map_erase_def intro!: filter_True)
    then show ?thesis using Cons.prems(2) True by (simp add: kv map_erase_def)
  next
    case False
    then show ?thesis using Cons by (simp add: kv map_ok_Cons map_erase_def add.left_commute)
  qed
qed simp

lemma release_ref_parts:
  assumes "release_ref p s W = (s', W')"
  shows "registry s' = registry s" "c_bytes_sent (heap s' q) = c_bytes_sent (heap s q)" "c_bytes_recv (heap s' q) = c_bytes_recv (heap s q)"
    "shm_bytes_sent_closed s' = shm_bytes_sent_closed s" "shm_bytes_recv_closed s' = shm_bytes_recv_closed s"
    "fd_table s' = fd_table s"
  using assms by (auto simp: release_ref_def set_conn_def Let_def split: if_splits prod.splits)

text \<open>
  C22. Closing loses no traffic from the statistics. Whatever a call of \<^verbatim>\<open>close\<close> does, pass on, keep the descriptor for
  another holder, or drop a connection, the process totals of bytes sent and received, over closed and
  live connections, stay the same.
\<close>

theorem close_keeps_totals:
  assumes "map_ok (registry s)" "close_hook rc fd s W = Some (r, called, s', W')"
  shows "total_of shm_bytes_sent_closed c_bytes_sent s' = total_of shm_bytes_sent_closed c_bytes_sent s
    \<and> total_of shm_bytes_recv_closed c_bytes_recv s' = total_of shm_bytes_recv_closed c_bytes_recv s"
proof -
  consider "registry s' = registry s" "heap s' = heap s" "shm_bytes_sent_closed s' = shm_bytes_sent_closed s"
      "shm_bytes_recv_closed s' = shm_bytes_recv_closed s"
    | T p where "map_find (registry s) fd = Some p"
      "release_ref p (fold_closed (heap s p) (s\<lparr>fd_table := T, m_close_total := m_close_total s + 1, registry := map_erase fd (registry s)\<rparr>)) W = (s', W')"
    using assms(2)
    by (auto simp: close_hook_def reg_remove_def Let_def split: if_splits Option.bind_splits option.splits prod.splits)
  then show ?thesis
  proof cases
    case 1
    then show ?thesis by (simp add: total_of_def)
  next
    case (2 T p)
    note e = sum_erase [OF assms(1) 2(1), of "\<lambda>q. c_bytes_sent (heap s q)"]
      sum_erase [OF assms(1) 2(1), of "\<lambda>q. c_bytes_recv (heap s q)"]
    show ?thesis
      unfolding total_of_def release_ref_parts [OF 2(2)] e
      by (simp add: fold_closed_def add.assoc release_ref_parts [OF 2(2)] case_prod_beta)
  qed
qed

section \<open>Tracking through dup and close\<close>

lemma find_vfd_socket:
  assumes "table_inv T" "0 \<le> r" "tab T v = \<lparr>m_type = kSocket, m_real_fd = r\<rparr>"
  shows "\<exists>w. find_vfd T r = Some w \<and> 0 \<le> w \<and> tab T w = \<lparr>m_type = kSocket, m_real_fd = r\<rparr>"
proof -
  obtain w where "reverse_lookup T kSocket r = Some w" "0 \<le> w" "tab T w = \<lparr>m_type = kSocket, m_real_fd = r\<rparr>"
    using fd_tab.find_some [OF assms(1) _ assms(2,3)] by auto
  then show ?thesis by (simp add: find_vfd_def)
qed

lemma close_hook_last:
  assumes "hooked s" "find_vfd (fd_table s) fd = Some v" "0 \<le> v" "fd_free (fd_table s) v = Some (0, T)"
  shows "map_find (registry s) fd = None \<Longrightarrow>
      close_hook rc fd s W = Some (rc, True, s\<lparr>fd_table := T, m_close_total := m_close_total s + 1\<rparr>, W)"
    and "map_find (registry s) fd = Some p \<Longrightarrow>
      close_hook rc fd s W = (case release_ref p (fold_closed (heap s p)
        (s\<lparr>fd_table := T, m_close_total := m_close_total s + 1, registry := map_erase fd (registry s)\<rparr>)) W of
          (s', W') \<Rightarrow> Some (rc, True, s', W'))"
  using assms by (simp_all add: close_hook_def reg_remove_def Let_def)

text \<open>
  C23. A duplicate of a tracked socket is tracked as a socket of its own and closing it is closing exactly it:
  \<^verbatim>\<open>dup\<close> adds one holder for the new descriptor, the following \<^verbatim>\<open>close\<close> of the new descriptor calls the C library's
  \<^verbatim>\<open>close\<close>, hands on its result, and leaves every holder as it was before the \<^verbatim>\<open>dup\<close>, the
  original included.
\<close>

theorem dup_then_close:
  assumes "hooked s" "table_inv (fd_table s)" "0 \<le> fd" "tab (fd_table s) v = \<lparr>m_type = kSocket, m_real_fd = fd\<rparr>"
    "0 \<le> nf" "holders (tab (fd_table s)) \<lparr>m_type = kSocket, m_real_fd = nf\<rparr> = {}" "map_find (registry s) nf = None"
  shows "\<exists>u sa sb. dup_hook nf fd s = Some (nf, sa) \<and> find_vfd (fd_table sa) nf = Some u
    \<and> holders (tab (fd_table sa)) \<lparr>m_type = kSocket, m_real_fd = nf\<rparr> = {u}
    \<and> close_hook rc nf sa W = Some (rc, True, sb, W) \<and> table_inv (fd_table sb)
    \<and> (\<forall>m. m \<noteq> unbound \<longrightarrow> holders (tab (fd_table sb)) m = holders (tab (fd_table s)) m)
    \<and> m_dup_total sb = m_dup_total s + 1 \<and> m_close_total sb = m_close_total s + 1"
proof -
  let ?m = "\<lparr>m_type = kSocket, m_real_fd = nf\<rparr>"
  obtain w where w: "find_vfd (fd_table s) fd = Some w" "0 \<le> w" "tab (fd_table s) w = \<lparr>m_type = kSocket, m_real_fd = fd\<rparr>"
    using find_vfd_socket [OF assms(2,3,4)] by blast
  obtain u T where a: "fd_alloc (fd_table s) kSocket nf = Some (u, T)" "table_inv T" "reverse_lookup T kSocket nf = Some u"
    "0 \<le> u" "holders (tab T) ?m = {u}"
    "\<forall>m. m \<noteq> ?m \<longrightarrow> m \<noteq> unbound \<longrightarrow> holders (tab T) m = holders (tab (fd_table s)) m"
    using fd_tab.allocate_first [OF assms(2,5) _ assms(6)] by auto
  define sa where "sa = s\<lparr>fd_table := T, m_dup_total := m_dup_total s + 1\<rparr>"
  have d: "dup_hook nf fd s = Some (nf, sa)"
    using assms(1,5) w a(1) by (simp add: dup_hook_def track_dup_def fd_lookup_tab sa_def)
  obtain T' where f: "fd_free T u = Some (0, T')" "table_inv T'" "holders (tab T') ?m = {}"
    "\<forall>m. m \<noteq> ?m \<longrightarrow> m \<noteq> unbound \<longrightarrow> holders (tab T') m = holders (tab T) m"
    using fd_tab.release_sole [OF a(2) assms(5) _ a(5)] by auto
  define sb where "sb = sa\<lparr>fd_table := T', m_close_total := m_close_total sa + 1\<rparr>"
  have fu: "find_vfd (fd_table sa) nf = Some u" using a(3,4) by (simp add: find_vfd_def sa_def)
  have h: "hooked sa" using assms(1) by (simp add: hooked_def sa_def)
  have c: "close_hook rc nf sa W = Some (rc, True, sb, W)"
    unfolding sb_def by (rule close_hook_last(1) [OF h fu a(4)]) (use f(1) assms(7) in \<open>simp_all add: sa_def\<close>)
  have "holders (tab T') m = holders (tab (fd_table s)) m" if "m \<noteq> unbound" for m
    using that a(6) f(3,4) assms(6) by (cases "m = ?m") auto
  with d fu c a(5) f(2) show ?thesis
    by (intro exI [of _ u] exI [of _ sa] exI [of _ sb]) (simp add: sa_def sb_def)
qed


section \<open>Witnesses\<close>

definition lib_demo :: lib_state where
  "lib_demo = \<lparr>g_active = True, g_in_hook = False, s_env = (\<lambda>_. None), s_config = [], fd_table = shared_table,
     monitor_reachable = True, m_socket_total = 0, m_close_total = 0, m_dup_total = 0, m_unsupported_total = 0,
     m_passthrough_total = 0, m_shm_conns = 1, shm_bytes_sent_closed = 0, shm_bytes_recv_closed = 0, shm_ring_full_closed = 0,
     shm_ring_empty_closed = 0, shm_conns_total = 1, shm_conn_closed_total = 0, metrics_dir = [],
     registry = [(9, 0)], watched = [],
     heap = (\<lambda>_. (new_conn \<lparr>base = Some 0, seg_key = 7, seg_role = kRoleCreator, owned = True\<rparr> 7 9)\<lparr>c_bytes_sent := 3\<rparr>), next_ref = 1\<rparr>"

lemma shared_table_nine:
  "tab shared_table 2 = \<lparr>m_type = kSocket, m_real_fd = 9\<rparr>" "reverse_lookup shared_table kSocket 9 = Some 2"
  "reverse_lookup shared_table kSocket 11 = Some (-1)"
proof -
  show "tab shared_table 2 = \<lparr>m_type = kSocket, m_real_fd = 9\<rparr>" using shared_table_lookup by (simp add: fd_lookup_tab)
  show "reverse_lookup shared_table kSocket 9 = Some 2" by code_simp
  show "reverse_lookup shared_table kSocket 11 = Some (-1)" by code_simp
qed

theorem close_keeps_totals_witness:
  "case close_hook 0 9 lib_demo \<lparr>names = (\<lambda>_. None), objs = (\<lambda>_. zero_segment), next_obj = 1\<rparr> of
     None \<Rightarrow> False
   | Some (r, called, s', W') \<Rightarrow> registry s' = [] \<and> total_of shm_bytes_sent_closed c_bytes_sent s' = 3"
proof -
  let ?W = "\<lparr>names = (\<lambda>_. None), objs = (\<lambda>_. zero_segment), next_obj = 1\<rparr>"
  have v: "find_vfd (fd_table lib_demo) 9 = Some 2" by (simp add: find_vfd_def lib_demo_def shared_table_nine)
  obtain T where f: "fd_free (fd_table lib_demo) 2 = Some (0, T)"
  proof -
    have "map_option fst (fd_free shared_table 2) = Some 0" by code_simp
    then show ?thesis using that by (auto simp: lib_demo_def)
  qed
  have hk: "hooked lib_demo" and fnd: "map_find (registry lib_demo) 9 = Some 0" "map_erase 9 (registry lib_demo) = []"
    by (simp_all add: hooked_def lib_demo_def map_erase_def)
  obtain s' W' where rel: "release_ref 0 (fold_closed (heap lib_demo 0)
      (lib_demo\<lparr>fd_table := T, m_close_total := m_close_total lib_demo + 1, registry := []\<rparr>)) ?W = (s', W')"
    by (metis surj_pair)
  have c: "close_hook 0 9 lib_demo ?W = Some (0, True, s', W')"
    using close_hook_last(2) [OF hk v _ f fnd(1), of 0 ?W] rel by (simp add: fnd(2))
  have e: "registry s' = []" using release_ref_parts(1) [OF rel] by (simp add: fold_closed_def)
  have ok: "map_ok (registry lib_demo)" by (simp add: lib_demo_def map_ok_Cons)
  have "total_of shm_bytes_sent_closed c_bytes_sent lib_demo = 3" by (simp add: total_of_def lib_demo_def new_conn_def)
  with close_keeps_totals [OF ok c] e show ?thesis unfolding c by simp
qed

theorem dup_then_close_witness:
  "let W = \<lparr>names = (\<lambda>_. None), objs = (\<lambda>_. zero_segment), next_obj = 1\<rparr>
   in \<exists>u sa sb. dup_hook 11 9 lib_demo = Some (11, sa) \<and> find_vfd (fd_table sa) 11 = Some u
        \<and> close_hook 0 11 sa W = Some (0, True, sb, W) \<and> table_inv (fd_table sb)"
proof -
  have "holders (tab (fd_table lib_demo)) \<lparr>m_type = kSocket, m_real_fd = 11\<rparr> = {}"
    using fd_tab.find_law [OF shared_table_inv, of kSocket 11] shared_table_nine(3) by (auto simp: lib_demo_def split: if_splits)
  then show ?thesis
    using dup_then_close [of lib_demo 9 2 11 0 "\<lparr>names = (\<lambda>_. None), objs = (\<lambda>_. zero_segment), next_obj = 1\<rparr>"] shared_table_nine(1) shared_table_inv
    unfolding Let_def by (auto simp: lib_demo_def hooked_def)
qed

text \<open>
  \<^verbatim>\<open>dup2(fd, fd)\<close>, which POSIX defines as doing nothing, frees the fd's virtual fd and then
  allocates one of the freed type: the socket is no longer tracked.
\<close>

theorem dup2_same_fd_untracks:
  "case dup2_hook 9 9 9 lib_demo of
     Some (rc, s') \<Rightarrow> rc = 9 \<and> find_vfd (fd_table lib_demo) 9 = Some 2 \<and> find_vfd (fd_table s') 9 = Some (-1)
   | None \<Rightarrow> False"
  by code_simp

end
