(* ===== verification/Socket_Msg.thy ===== *)
theory Socket_Msg
  imports Socket_Api File_Api
begin

text \<open>
  Messages over several buffers on an upgraded connection: \<^verbatim>\<open>sendmsg\<close> and \<^verbatim>\<open>recvmsg\<close> of \<^verbatim>\<open>src/lib/socket_api.cpp\<close> behave as one
  send of the buffers' concatenation and one receive into it.
\<close>

section \<open>What a call leaves of the connection\<close>

text \<open>A call changes the statistics of the connection only, and uses up a prefix of the schedule.\<close>

definition same_conn :: "ShmConn \<Rightarrow> ShmConn \<Rightarrow> bool" where
  "same_conn c c' \<longleftrightarrow> c_segment c' = c_segment c \<and> c_nonblocking c' = c_nonblocking c"

definition uses_up :: "sched \<Rightarrow> sched \<Rightarrow> bool" where
  "uses_up es es' \<longleftrightarrow> (\<exists>used. es = used @ es')"

lemma same_conn_trans: "same_conn a b \<Longrightarrow> same_conn b c \<Longrightarrow> same_conn a c"
  by (simp add: same_conn_def)

lemma uses_up_Cons: "uses_up es es' \<Longrightarrow> uses_up (e # es) es'"
  unfolding uses_up_def by (metis append_Cons)

lemma uses_up_trans: "uses_up a b \<Longrightarrow> uses_up b c \<Longrightarrow> uses_up a c"
  unfolding uses_up_def by (metis append.assoc)

lemma uses_up_all: "uses_up es es' \<Longrightarrow> list_all P es \<Longrightarrow> list_all P es'"
  by (auto simp: uses_up_def)

lemma uses_up_refl [simp]: "uses_up es es"
  by (simp add: uses_up_def)

lemma same_conn_rings:
  assumes "same_conn c c'"
  shows "out_ring c' = out_ring c" "in_ring c' = in_ring c" "takes_only c' = takes_only c" "adds_only c' = adds_only c"
  using assms by (simp_all add: same_conn_def out_ring_def in_ring_def takes_only_def adds_only_def extends_def fun_eq_iff)

lemma send_loop_frame:
  "shm_send_loop nb i buf k c W es = Ret (r, c', W', es') \<Longrightarrow> same_conn c c' \<and> uses_up es es'"
proof (induction nb i buf k c W es rule: shm_send_loop.induct)
  case (1 nb i buf k c W es)
  note eq = "1.prems" [unfolded shm_send_loop.simps [of nb i buf k c W es]]
  show ?case
  proof (cases "length buf \<le> k")
    case True
    then show ?thesis using eq by (auto simp: same_conn_def)
  next
    case False
    obtain did r1 where s: "send_some (out_ring c i W) (drop k buf) = Some (did, r1)"
      using eq False by (cases "send_some (out_ring c i W) (drop k buf)") auto
    show ?thesis
    proof (cases "did > 0")
      case True
      then show ?thesis using eq False s "1.IH"(1) [OF False s refl True] by simp
    next
      case zero: False
      show ?thesis
      proof (cases "\<not> nb \<and> es \<noteq> []")
        case True
        then obtain e es1 where es: "es = e # es1" and nb: "\<not> nb" by (cases es) auto
        then show ?thesis using eq False s zero "1.IH"(2) [OF False s refl zero refl nb es]
          by (auto simp: Let_def same_conn_def uses_up_Cons)
      qed (use eq False s zero in \<open>auto simp: Let_def same_conn_def split: if_splits list.splits\<close>)
    qed
  qed
qed

lemma send_frame: "shm_send c buf flags W es = Ret (r, c', W', es') \<Longrightarrow> same_conn c c' \<and> uses_up es es'"
  by (auto simp: shm_send_def same_conn_def dest: send_loop_frame split: if_splits option.splits)

lemma park_frame: "park c i W es = Some (W', es') \<Longrightarrow> uses_up es es'"
  by (auto simp: park_def Let_def uses_up_Cons split: list.splits if_splits)

lemma recv_loop_frame:
  "shm_recv_loop nb i n spin hups c W es = Ret (r, c', W', es') \<Longrightarrow> same_conn c c' \<and> uses_up es es'"
proof (induction nb i n spin hups c W es rule: shm_recv_loop.induct)
  case (1 nb i n spin hups c W es)
  note eq = "1.prems" [unfolded shm_recv_loop.simps [of nb i n spin hups c W es]]
  obtain did bs r1 where s: "recv_some (in_ring c i W) n = Some (did, bs, r1)"
    using eq by (cases "recv_some (in_ring c i W) n") auto
  show ?case
  proof (cases "did > 0 \<or> (peer_closed (in_ring c i W) \<and> readable (in_ring c i W) = 0) \<or> nb")
    case True
    then show ?thesis using eq s by (auto simp: Let_def same_conn_def split: if_splits)
  next
    case go: False
    define c1 where "c1 = c\<lparr>c_ring_empty := c_ring_empty c + 1\<rparr>"
    have c1: "same_conn c c1" by (simp add: c1_def same_conn_def)
    have step: "same_conn c c' \<and> uses_up es es'" if "same_conn c1 c' \<and> uses_up es1 es'" "uses_up es es1" for es1
      using that same_conn_trans [OF c1] uses_up_trans by blast
    have g: "\<not> did > 0" "\<not> (peer_closed (in_ring c i W) \<and> readable (in_ring c i W) = 0)" "\<not> nb" using go by auto
    note ih = "1.IH" [OF s refl refl g(1,2) c1_def g(3)]
    show ?thesis
    proof (cases "hups \<noteq> [] \<and> hd hups")
      case True
      then show ?thesis using step [OF ih(1) [OF True]] eq s g by (simp add: Let_def c1_def)
    next
      case nh: False
      show ?thesis
      proof (cases "spin < 100")
        case True
        then obtain e es1 where es: "es = e # es1" using eq s g nh by (cases es) (auto simp: Let_def)
        then show ?thesis using step [OF ih(2) [OF nh True es]] eq s g nh True by (simp add: Let_def c1_def uses_up_Cons)
      next
        case slow: False
        obtain V es1 where p: "park c i W es = Some (V, es1)" using eq s g nh slow by (cases "park c i W es") (auto simp: Let_def)
        show ?thesis using step [OF ih(3) [OF nh slow p refl] park_frame [OF p]] eq s g nh slow p by (simp add: Let_def c1_def)
      qed
    qed
  qed
qed

lemma recv_frame: "shm_recv c n flags hups W es = Ret (r, c', W', es') \<Longrightarrow> same_conn c c' \<and> uses_up es es'"
  by (auto simp: shm_recv_def same_conn_def dest: recv_loop_frame split: if_splits option.splits)

section \<open>Gathering\<close>

lemma sendmsg_loop_ok:
  assumes "base (c_segment c) = Some i" "ring_wf (out_ring c i W)" "list_all (takes_only c i) es" "\<forall>v \<in> set iovs. length v < 2 ^ 64"
  shows "case sendmsg_loop iovs flags tot c W es of Fault \<Rightarrow> False | Blocked \<Rightarrow> \<not> (c_nonblocking c \<or> MSG_DONTWAIT_set flags)
    | Ret (r, c', W', es') \<Rightarrow>
        (\<exists>d n. contents (out_ring c i W) @ take n (concat iovs) = d @ contents (out_ring c i W')
           \<and> n \<le> length (concat iovs) \<and> ring_wf (out_ring c i W')
           \<and> (r = Inr (tot + n) \<or> r = Inl EAGAIN \<and> tot = 0 \<and> n = 0 \<and> (c_nonblocking c \<or> MSG_DONTWAIT_set flags))
           \<and> (\<not> (c_nonblocking c \<or> MSG_DONTWAIT_set flags) \<longrightarrow> r = Inr (tot + length (concat iovs))))"
  using assms
proof (induction iovs arbitrary: tot c W es)
  case Nil
  then show ?case by auto
next
  case (Cons v iovs)
  let ?nb = "c_nonblocking c \<or> MSG_DONTWAIT_set flags"
  have v: "length v < 2 ^ 64" using Cons.prems(4) by simp
  show ?case
  proof (cases "v = []")
    case True
    then have e: "concat (v # iovs) = concat iovs" "sendmsg_loop (v # iovs) flags tot c W es = sendmsg_loop iovs flags tot c W es" by simp_all
    show ?thesis unfolding e using Cons.IH [OF Cons.prems(1-3)] Cons.prems(4) by (meson list.set_intros(2))
  next
    case ne: False
    note S = shm_send_ok [OF Cons.prems(1-3) v, of flags]
    show ?thesis
    proof (cases "shm_send c v flags W es")
      case (Ret x)
      obtain r1 c1 W1 es1 where x: "x = (r1, c1, W1, es1)" by (cases x)
      obtain d1 n1 where s: "contents (out_ring c i W) @ take n1 v = d1 @ contents (out_ring c i W1)" "n1 \<le> length v" "ring_wf (out_ring c i W1)"
        "r1 = Inr n1 \<or> r1 = Inl EAGAIN \<and> n1 = 0 \<and> ?nb" "\<not> ?nb \<longrightarrow> r1 = Inr (length v)"
        using S unfolding Ret x by auto
      show ?thesis
      proof (cases "r1 = Inr (length v)")
        case True
        then have n1: "n1 = length v" using s(4) by auto
        have f: "same_conn c c1" "uses_up es es1" using send_frame [OF Ret [unfolded x]] by auto
        note c1 = same_conn_rings [OF f(1)]
        have nb: "c_nonblocking c1 = c_nonblocking c" "base (c_segment c1) = Some i" using f(1) Cons.prems(1) by (simp_all add: same_conn_def)
        have eq: "sendmsg_loop (v # iovs) flags tot c W es = sendmsg_loop iovs flags (tot + length v) c1 W1 es1"
          using ne Ret x True by simp
        have L: "list_all (takes_only c1 i) es1" using Cons.prems(3) uses_up_all [OF f(2)] unfolding c1 by blast
        have W: "ring_wf (out_ring c1 i W1)" "\<forall>v\<in>set iovs. length v < 2 ^ 64" using s(3) Cons.prems(4) unfolding c1 by auto
        have p: "tot + length v \<noteq> 0" using ne by simp
        show ?thesis
        proof (cases "sendmsg_loop iovs flags (tot + length v) c1 W1 es1")
          case r2: (Ret y)
          obtain r c2 W2 es2 where y: "y = (r, c2, W2, es2)" by (cases y)
          obtain d n where h: "contents (out_ring c i W1) @ take n (concat iovs) = d @ contents (out_ring c i W2)"
            "n \<le> length (concat iovs)" "ring_wf (out_ring c i W2)" "r = Inr (tot + length v + n)"
            "\<not> ?nb \<longrightarrow> r = Inr (tot + length v + length (concat iovs))"
            using Cons.IH [OF nb(2) W(1) L W(2), of "tot + length v"] p unfolding r2 y c1 nb(1) by auto
          have "contents (out_ring c i W) @ take (length v + n) (concat (v # iovs)) = (d1 @ d) @ contents (out_ring c i W2)"
            using s(1) h(1) n1 by simp (metis append.assoc)
          then show ?thesis unfolding eq r2 y using h(2-5) by (auto simp: add.assoc intro!: exI [of _ "d1 @ d"] exI [of _ "length v + n"])
        qed (use Cons.IH [OF nb(2) W(1) L W(2), of "tot + length v"] nb(1) in \<open>simp_all add: eq del: sendmsg_loop.simps recvmsg_loop.simps\<close>)
      next
        case False
        then have nb: ?nb using s(5) by blast
        have t: "take n1 (concat (v # iovs)) = take n1 v" "n1 \<le> length (concat (v # iovs))" using s(2) by simp_all
        have eq: "sendmsg_loop (v # iovs) flags tot c W es =
          Ret (case r1 of Inl e \<Rightarrow> if 0 < tot then Inr tot else Inl e | Inr k \<Rightarrow> Inr (tot + k), c1, W1, es1)"
          using ne Ret x False s(2,4) by (auto simp: le_less)
        have "(case r1 of Inl e \<Rightarrow> if 0 < tot then Inr tot else Inl e | Inr k \<Rightarrow> Inr (tot + k)) = Inr (tot + n1)
            \<or> (case r1 of Inl e \<Rightarrow> if 0 < tot then Inr tot else Inl e | Inr k \<Rightarrow> Inr (tot + k)) = Inl EAGAIN \<and> tot = 0 \<and> n1 = 0"
          using s(4) by (cases "tot = 0") auto
        with s(1,3) t nb show ?thesis unfolding eq io.case prod.case by metis
      qed
    qed (use S ne in auto)
  qed
qed

text \<open>
  C6. \<^verbatim>\<open>sendmsg\<close> on an upgraded fd sends the concatenation of its buffers as one send would: a call that returns \<open>n\<close> has appended exactly the
  first \<open>n\<close> bytes of the concatenation in order, whatever the peer takes meanwhile; a blocking call reports all of them,
  and \<^verbatim>\<open>EAGAIN\<close> is reported only by a non-blocking call that appended nothing. Ancillary data is refused.
\<close>

theorem sendmsg_gathers:
  assumes "hooked s" "open_conn s fd = Some p" "base (c_segment (heap s p)) = Some i"
    "ring_wf (out_ring (heap s p) i W)" "list_all (takes_only (heap s p) i) es" "\<forall>v \<in> set iovs. length v < 2 ^ 64"
  shows "sendmsg_hook fd (Some (iovs, Suc k)) flags s W es = Ret (Some (Inl EOPNOTSUPP), s, W, es)
    \<and> (case sendmsg_hook fd (Some (iovs, 0)) flags s W es of Fault \<Rightarrow> False
       | Blocked \<Rightarrow> \<not> (c_nonblocking (heap s p) \<or> MSG_DONTWAIT_set flags)
       | Ret (r, s', W', es') \<Rightarrow>
        (\<exists>d n. contents (out_ring (heap s p) i W) @ take n (concat iovs) = d @ contents (out_ring (heap s p) i W')
           \<and> n \<le> length (concat iovs) \<and> ring_wf (out_ring (heap s p) i W')
           \<and> (r = Some (Inr n) \<or> r = Some (Inl EAGAIN) \<and> n = 0 \<and> (c_nonblocking (heap s p) \<or> MSG_DONTWAIT_set flags))
           \<and> (\<not> (c_nonblocking (heap s p) \<or> MSG_DONTWAIT_set flags) \<longrightarrow> r = Some (Inr (length (concat iovs))))))"
proof -
  note S = sendmsg_loop_ok [OF assms(3-6), where flags = flags and tot = 0]
  show ?thesis using assms(1,2) S
    by (cases "sendmsg_loop iovs flags 0 (heap s p) W es") (auto simp: sendmsg_hook_def store_result_def)
qed

lemma lib_demo_conn:
  "hooked lib_demo" "open_conn lib_demo 9 = Some 0" "base (c_segment (heap lib_demo 0)) = Some 0"
  "out_ring (heap lib_demo 0) = out_ring demo_conn" "in_ring (heap lib_demo 0) = in_ring demo_conn" "c_nonblocking (heap lib_demo 0) = False"
  by (simp_all add: hooked_def open_conn_def lib_demo_def reg_lookup_def is_open_def new_conn_def out_ring_def in_ring_def demo_conn_def fun_eq_iff)

theorem sendmsg_gathers_witness:
  "case sendmsg_hook 9 (Some ([[1], [], [2]], 0)) 64 lib_demo demo_world [] of Fault \<Rightarrow> False | Blocked \<Rightarrow> False
   | Ret (r, s', W', es') \<Rightarrow> (\<exists>d n. [7, 7, 7, 7] @ take n [1, 2] = d @ contents (out_ring demo_conn 0 W')
       \<and> (r = Some (Inr n) \<or> r = Some (Inl EAGAIN) \<and> n = 0))"
  using sendmsg_gathers [of lib_demo 9 0 0 demo_world "[]" "[[1], [], [2]]" 0 64]
  by (auto simp: lib_demo_conn demo_facts wrapped_ring_facts split: io.splits)


section \<open>Scattering\<close>

lemma recvmsg_loop_ok:
  assumes "base (c_segment c) = Some i" "ring_wf (in_ring c i W)" "list_all (adds_only c i) es" "\<not> MSG_PEEK_set flags"
  shows "case recvmsg_loop iovs flags got c W es of Fault \<Rightarrow> False | Blocked \<Rightarrow> \<not> (c_nonblocking c \<or> MSG_DONTWAIT_set flags)
    | Ret ((r, fin), c', W', es') \<Rightarrow> ring_wf (in_ring c i W')
        \<and> (case r of
             Inr bs \<Rightarrow> (\<exists>new a. bs = got @ new \<and> length new \<le> sum_list (map (unat \<circ> fst) iovs)
               \<and> contents (in_ring c i W) @ a = new @ contents (in_ring c i W'))
           | Inl e \<Rightarrow> e = EAGAIN \<and> got = [] \<and> (c_nonblocking c \<or> MSG_DONTWAIT_set flags) \<and> contents (in_ring c i W') = [])"
  using assms
proof (induction iovs arbitrary: got c W es)
  case Nil
  then show ?case by auto
next
  case (Cons v iovs)
  obtain n hups where v: "v = (n, hups)" by (cases v)
  show ?case
  proof (cases "n = 0")
    case True
    then have e: "sum_list (map (unat \<circ> fst) (v # iovs)) = sum_list (map (unat \<circ> fst) iovs)"
      "recvmsg_loop (v # iovs) flags got c W es = recvmsg_loop iovs flags got c W es" using v by simp_all
    show ?thesis unfolding e by (rule Cons.IH [OF Cons.prems])
  next
    case ne: False
    note S = shm_recv_ok [OF Cons.prems(1,2) ne Cons.prems(4,3), of hups]
    show ?thesis
    proof (cases "shm_recv c n flags hups W es")
      case (Ret x)
      obtain r1 c1 W1 es1 where x: "x = (r1, c1, W1, es1)" by (cases x)
      show ?thesis
      proof (cases "\<exists>bs. r1 = Inr bs \<and> bs \<noteq> [] \<and> \<not> length bs < unat n")
        case True
        then obtain bs where b: "r1 = Inr bs" "bs \<noteq> []" "\<not> length bs < unat n" by blast
        obtain a where s: "ring_wf (in_ring c i W1)" "length bs \<le> unat n" "contents (in_ring c i W) @ a = bs @ contents (in_ring c i W1)"
          using S unfolding Ret x b(1) by auto
        have f: "same_conn c c1" "uses_up es es1" using recv_frame [OF Ret [unfolded x]] by auto
        note c1 = same_conn_rings [OF f(1)]
        have nb: "c_nonblocking c1 = c_nonblocking c" "base (c_segment c1) = Some i" using f(1) Cons.prems(1) by (simp_all add: same_conn_def)
        have eq: "recvmsg_loop (v # iovs) flags got c W es = recvmsg_loop iovs flags (got @ bs) c1 W1 es1"
          using ne Ret x b v by simp
        have L: "list_all (adds_only c1 i) es1" "ring_wf (in_ring c1 i W1)"
          using Cons.prems(3) uses_up_all [OF f(2)] s(1) unfolding c1 by blast+
        note IH = Cons.IH [OF nb(2) L(2,1) Cons.prems(4), of "got @ bs"]
        show ?thesis
        proof (cases "recvmsg_loop iovs flags (got @ bs) c1 W1 es1")
          case r2: (Ret y)
          obtain r fin c2 W2 es2 where y: "y = ((r, fin), c2, W2, es2)" by (cases y) auto
          obtain new a' where h: "ring_wf (in_ring c i W2)" "r = Inr (got @ bs @ new)" "length new \<le> sum_list (map (unat \<circ> fst) iovs)"
            "contents (in_ring c i W1) @ a' = new @ contents (in_ring c i W2)"
            using IH b(2) unfolding r2 y c1 by (cases r) auto
          have "contents (in_ring c i W) @ (a @ a') = (bs @ new) @ contents (in_ring c i W2)"
            using s(3) h(4) by (metis append.assoc)
          then show ?thesis unfolding eq r2 y using h(1-3) s(2) v by (auto intro!: exI [of _ "bs @ new"] exI [of _ "a @ a'"])
        qed (use IH nb(1) in \<open>simp_all add: eq del: sendmsg_loop.simps recvmsg_loop.simps\<close>)
      next
        case False
        then show ?thesis using S ne Ret x v
          by (cases r1) (auto simp: not_less intro: exI [of _ "[]"])
      qed
    qed (use S ne v in auto)
  qed
qed




section \<open>A receive that waits with data in hand\<close>

text \<open>An idle peer: the call waits for ever on an empty open ring.\<close>

lemma recv_waits:
  assumes "ring_wf (in_ring c i W)" "contents (in_ring c i W) = []" "\<not> peer_closed (in_ring c i W)" "n \<noteq> 0"
  shows "shm_recv_loop False i n spin [] c W (replicate k id) = Blocked"
  using assms
proof (induction k arbitrary: spin c rule: less_induct)
  case (less k)
  obtain did r1 where s: "recv_some (in_ring c i W) n = Some (did, take (unat did) (contents (in_ring c i W)), r1)" "did = 0"
    using recv_step [OF less.prems(1,4)] less.prems(2) by metis
  have rd: "readable (in_ring c i W) = 0" using unat_readable [of "in_ring c i W"] less.prems(2) by (simp add: unat_eq_zero)
  have IH: "shm_recv_loop False i n spin' [] (c\<lparr>c_ring_empty := c_ring_empty c + 1\<rparr>) W (replicate j id) = Blocked" if "j < k" for spin' j
    by (rule less.IH [OF that]) (use less.prems in simp_all)
  show ?case
  proof (cases "spin < 100")
    case True
    then show ?thesis using s less.prems(2,3) IH by (subst shm_recv_loop.simps) (cases k; simp add: Let_def)
  next
    case False
    consider "k = 0" | "k = 1" | "k = 2" | j where "k = Suc (Suc (Suc j))" by (metis One_nat_def Suc_1 old.nat.exhaust)
    then have "park c i W (replicate k id) = None \<or> (\<exists>j<k. park c i W (replicate k id) = Some (W, replicate j id))"
      using rd less.prems(3) by cases (auto simp: park_def Let_def numeral_2_eq_2)
    then show ?thesis using s less.prems(2,3) IH False by (subst shm_recv_loop.simps) (auto simp: Let_def)
  qed
qed

text \<open>
  A blocking \<^verbatim>\<open>recvmsg\<close> that fills its first buffer exactly goes on to wait for the second one: with an idle peer it never returns, although it
  has taken the bytes from the ring. The kernel's \<^verbatim>\<open>recvmsg\<close> would return them.
\<close>

theorem recvmsg_waits_with_data:
  assumes "base (c_segment c) = Some i" "ring_wf (in_ring c i W)" "length (contents (in_ring c i W)) = unat n" "n \<noteq> 0" "n2 \<noteq> 0"
    "\<not> peer_closed (in_ring c i W)" "\<not> c_nonblocking c" "\<not> MSG_DONTWAIT_set flags" "\<not> MSG_PEEK_set flags"
  shows "recvmsg_loop ((n, []) # (n2, []) # iovs) flags [] c W (replicate k id) = Blocked"
proof -
  let ?r = "in_ring c i W"
  obtain did r1 where s: "recv_some ?r n = Some (did, take (unat did) (contents ?r), r1)" "ring_wf r1"
    "unat did = min (unat n) (length (contents ?r))" "contents r1 = drop (unat did) (contents ?r)" "r_closed r1 = r_closed ?r"
    by (rule recv_some_spec [OF assms(2)]) blast
  have d: "did = n" "did > 0" using s(3) assms(3,4) by (simp_all add: word_greater_zero_iff word_unat_eq_iff)
  have ne: "contents ?r \<noteq> []" using assms(3,4) by (auto simp: unat_eq_zero)
  have e: "contents r1 = []" "ring_wf r1" using s d assms(3) by simp_all
  have pc: "\<not> peer_closed r1" using s(5) assms(6) by (simp add: peer_closed_def)
  let ?c = "c\<lparr>c_bytes_recv := c_bytes_recv c + n\<rparr>" and ?W = "put_in c i r1 W"
  have c: "in_ring ?c = in_ring c" by (simp add: in_ring_def fun_eq_iff)
  have 1: "shm_recv c n flags [] W (replicate k id) = Ret (Inr (contents ?r), ?c, ?W, replicate k id)"
    using assms d s(1) by (simp add: shm_recv_def, subst shm_recv_loop.simps) simp
  have 2: "shm_recv ?c n2 flags [] ?W (replicate k id) = Blocked"
    using assms recv_waits [of ?c i ?W n2 0 k] e pc by (simp add: shm_recv_def c)
  show ?thesis using 1 2 assms(3-5) ne by simp
qed

end
