(* ===== verification/Poll_Api.thy ===== *)
theory Poll_Api
  imports File_Api
begin

text \<open>
  The epoll hooks of \<^verbatim>\<open>src/lib/poll_api.cpp\<close>. The poller watches connections through references of its own and
  writes to their eventfds; an eventfd is its 64-bit counter. The calls of the C library's functions are
  recorded with their arguments and their results are arguments. \<^verbatim>\<open>epoll_create\<close> and \<^verbatim>\<open>epoll_create1\<close> only
  forward.
\<close>

section \<open>The poller\<close>

definition watch :: "int \<Rightarrow> nat \<Rightarrow> lib_state \<Rightarrow> lib_state" where
  "watch fd p s = s\<lparr>watched := map_put fd p (watched s)\<rparr>"

definition unwatch :: "int \<Rightarrow> lib_state \<Rightarrow> lib_state" where
  "unwatch fd s = s\<lparr>watched := map_erase fd (watched s)\<rparr>"

definition watched_count :: "lib_state \<Rightarrow> nat" where
  "watched_count s = length (watched s)"

text \<open>A write of 1 to a non-blocking eventfd fails when the counter would overflow.\<close>

definition eventfd_signal :: "int \<Rightarrow> (int \<Rightarrow> u64) \<Rightarrow> int \<Rightarrow> u64" where
  "eventfd_signal nfd ev = (if ev nfd = 0xFFFFFFFFFFFFFFFE then ev else ev(nfd := ev nfd + 1))"

definition poll_conn :: "shm_world \<Rightarrow> ShmConn \<Rightarrow> (int \<Rightarrow> u64) \<Rightarrow> int \<Rightarrow> u64" where
  "poll_conn W c ev =
     (case base (c_segment c) of None \<Rightarrow> ev
      | Some i \<Rightarrow>
          (let r = ring_inbound (seg_role (c_segment c)) (objs W i)
           in if readable r > 0 \<or> peer_closed r
              then (if c_notify_fd c \<ge> 0 then eventfd_signal (c_notify_fd c) ev else ev) else ev))"

text \<open>One round of the poller thread.\<close>

definition poll_round :: "lib_state \<Rightarrow> shm_world \<Rightarrow> (int \<Rightarrow> u64) \<Rightarrow> int \<Rightarrow> u64" where
  "poll_round s W ev = fold (\<lambda>(_, p). poll_conn W (heap s p)) (watched s) ev"


section \<open>Hooks\<close>

datatype epoll_op = Ctl_add | Ctl_del | Ctl_mod | Ctl_other int

text \<open>A call of the real \<^verbatim>\<open>epoll_ctl\<close>: operation, fd and the event's user data, \<open>None\<close> for a null event.\<close>

type_synonym real_ctl = "epoll_op \<times> int \<times> u64 option"

text \<open>Storing the \<^verbatim>\<open>fd\<close> member of the 64-bit union \<^verbatim>\<open>epoll_data\<close> replaces its low 32 bits.\<close>

definition set_data_fd :: "int \<Rightarrow> u64 \<Rightarrow> u64" where
  "set_data_fd fd data = or (push_bit 32 (drop_bit 32 data)) (ucast (of_int fd :: 32 word))"

definition data_fd :: "u64 \<Rightarrow> int" where
  "data_fd data = sint (ucast data :: 32 word)"

text \<open>The hooks that create epoll sets forward.\<close>

definition epoll_create_hook :: "(errno + int) \<Rightarrow> lib_state \<Rightarrow> (errno + int) \<times> lib_state" where
  "epoll_create_hook r s = (r, s)"

definition epoll_create1_hook :: "(errno + int) \<Rightarrow> lib_state \<Rightarrow> (errno + int) \<times> lib_state" where
  "epoll_create1_hook r s = (r, s)"

text \<open>
  \<open>nfd\<close> is what \<^verbatim>\<open>eventfd\<close> returns if it is called, \<open>rc\<close> what the real \<^verbatim>\<open>epoll_ctl\<close> returns. The result: the
  hook's return value, the real call if one is made, an fd that is closed, the state.
\<close>

definition epoll_ctl_hook :: "int \<Rightarrow> int \<Rightarrow> epoll_op \<Rightarrow> int \<Rightarrow> u64 option \<Rightarrow> lib_state
    \<Rightarrow> int \<times> real_ctl option \<times> int option \<times> lib_state" where
  "epoll_ctl_hook nfd rc opn fd ev s =
     (case (if hooked s then open_conn s fd else None) of
        None \<Rightarrow> (rc, Some (opn, fd, ev), None, s)
      | Some p \<Rightarrow>
          (let c = heap s p in
           if opn = Ctl_add \<or> opn = Ctl_mod then
             (if c_notify_fd c < 0 \<and> nfd < 0 then (-1, None, None, s)
              else let c' = (if c_notify_fd c < 0 then c\<lparr>c_notify_fd := nfd\<rparr> else c);
                       s' = watch fd p (set_conn p c' s)
                   in (rc, Some (opn, c_notify_fd c', Some (case ev of None \<Rightarrow> 0 | Some d \<Rightarrow> set_data_fd fd d)), None, s'))
           else if opn = Ctl_del \<and> c_notify_fd c \<ge> 0 then
             (rc, Some (Ctl_del, c_notify_fd c, None), Some (c_notify_fd c),
              set_conn p (c\<lparr>c_notify_fd := -1\<rparr>) (unwatch fd s))
           else (rc, Some (opn, fd, ev), None, s)))"

text \<open>Reading an eventfd sets its counter to 0.\<close>

definition drain_event :: "lib_state \<Rightarrow> u64 \<Rightarrow> (int \<Rightarrow> u64) \<Rightarrow> int \<Rightarrow> u64" where
  "drain_event s data ev =
     (case reg_lookup (registry s) (data_fd data) of None \<Rightarrow> ev
      | Some p \<Rightarrow> if c_notify_fd (heap s p) \<ge> 0 then ev(c_notify_fd (heap s p) := 0) else ev)"

text \<open>\<^verbatim>\<open>epoll_wait\<close> and \<^verbatim>\<open>epoll_pwait\<close> on the user data of the events the C library reports.\<close>

definition epoll_wait_hook :: "u64 list \<Rightarrow> lib_state \<Rightarrow> (int \<Rightarrow> u64) \<Rightarrow> u64 list \<times> (int \<Rightarrow> u64)" where
  "epoll_wait_hook events s ev =
     (if events = [] \<or> \<not> hooked s then (events, ev) else (events, fold (drain_event s) events ev))"


section \<open>Readiness\<close>

lemma map_find_mem: "map_find m k = Some v \<Longrightarrow> (k, v) \<in> set m"
  by (induction m k rule: map_find.induct) (auto split: if_splits)

text \<open>An eventfd's counter never reaches the largest 64-bit value.\<close>

definition ev_ok :: "(int \<Rightarrow> u64) \<Rightarrow> bool" where
  "ev_ok ev \<longleftrightarrow> (\<forall>n. ev n \<noteq> - 1)"

lemma signal_ok: "ev_ok ev \<Longrightarrow> ev_ok (eventfd_signal n ev)"
proof -
  assume h: "ev_ok ev"
  have "ev n + 1 \<noteq> - 1" if "ev n \<noteq> 0xFFFFFFFFFFFFFFFE"
  proof
    assume "ev n + 1 = - 1"
    then have "ev n = - 1 - 1" by (metis add_diff_cancel_right')
    then show False using that by simp
  qed
  then show ?thesis using h by (simp add: ev_ok_def eventfd_signal_def)
qed

lemma signal_nonzero: "ev_ok ev \<Longrightarrow> eventfd_signal n ev n \<noteq> 0"
proof -
  assume "ev_ok ev"
  then have "ev n + 1 \<noteq> 0" by (simp add: ev_ok_def add_eq_0_iff2)
  then show ?thesis by (simp add: eventfd_signal_def)
qed

lemma signal_mono: "ev_ok ev \<Longrightarrow> ev m \<noteq> 0 \<Longrightarrow> eventfd_signal n ev m \<noteq> 0"
  using signal_nonzero [of ev n] by (cases "m = n") (simp_all add: eventfd_signal_def)

definition ready :: "shm_world \<Rightarrow> ShmConn \<Rightarrow> bool" where
  "ready W c \<longleftrightarrow> (\<exists>i. base (c_segment c) = Some i
     \<and> (let r = ring_inbound (seg_role (c_segment c)) (objs W i) in contents r \<noteq> [] \<or> peer_closed r))"

lemma poll_conn_ready:
  "poll_conn W c ev = (if ready W c \<and> 0 \<le> c_notify_fd c then eventfd_signal (c_notify_fd c) ev else ev)"
proof -
  have "readable r > 0 \<longleftrightarrow> contents r \<noteq> []" for r
    using unat_readable [of r] by (metis length_0_conv unat_eq_zero word_greater_zero_iff)
  then show ?thesis by (auto simp: poll_conn_def ready_def Let_def split: option.splits)
qed

lemma poll_fold:
  assumes "ev_ok ev"
  shows "ev_ok (fold (\<lambda>(_, p). poll_conn W (h p)) ws ev)
    \<and> (ev n \<noteq> 0 \<longrightarrow> fold (\<lambda>(_, p). poll_conn W (h p)) ws ev n \<noteq> 0)
    \<and> ((\<exists>(fd, p)\<in>set ws. ready W (h p) \<and> c_notify_fd (h p) = n \<and> 0 \<le> n) \<longrightarrow> fold (\<lambda>(_, p). poll_conn W (h p)) ws ev n \<noteq> 0)
    \<and> ((\<forall>(fd, p)\<in>set ws. c_notify_fd (h p) = n \<longrightarrow> \<not> ready W (h p)) \<longrightarrow> fold (\<lambda>(_, p). poll_conn W (h p)) ws ev n = ev n)"
  using assms
proof (induction ws arbitrary: ev)
  case (Cons w ws)
  obtain fd p where w: "w = (fd, p)" by (cases w)
  have ok: "ev_ok (poll_conn W (h p) ev)" using Cons.prems signal_ok by (simp add: poll_conn_ready)
  have mono: "ev n \<noteq> 0 \<Longrightarrow> poll_conn W (h p) ev n \<noteq> 0" using signal_mono [OF Cons.prems] by (simp add: poll_conn_ready)
  have hit: "ready W (h p) \<Longrightarrow> c_notify_fd (h p) = n \<Longrightarrow> 0 \<le> n \<Longrightarrow> poll_conn W (h p) ev n \<noteq> 0"
    using signal_nonzero [OF Cons.prems, of n] by (simp add: poll_conn_ready)
  have same: "\<not> (c_notify_fd (h p) = n \<and> ready W (h p)) \<Longrightarrow> poll_conn W (h p) ev n = ev n"
    by (auto simp: poll_conn_ready eventfd_signal_def)
  show ?case using Cons.IH [OF ok] mono hit same by (auto simp: w)
qed simp

lemma data_fd_set: "- (2 ^ 31) \<le> fd \<Longrightarrow> fd < 2 ^ 31 \<Longrightarrow> data_fd (set_data_fd fd data) = fd"
proof -
  assume h: "- (2 ^ 31) \<le> fd" "fd < 2 ^ 31"
  have "(ucast (or (push_bit 32 (drop_bit 32 data)) (ucast (of_int fd :: 32 word))) :: 32 word) = of_int fd"
    by (rule bit_word_eqI) (auto simp: bit_simps)
  then show ?thesis using h by (simp add: data_fd_def set_data_fd_def signed_of_int signed_take_bit_int_eq_self)
qed

text \<open>
  C20. Epoll reports shared-memory readiness. Registering an fd with an open connection puts the
  connection's eventfd into the kernel's set with the fd as user data, and one round of the poller makes that
  eventfd readable if the connection has bytes to read or its peer closed it. An eventfd that is already
  readable stays so, and one none of whose connections is ready is not touched.
\<close>

theorem epoll_reports_ready:
  assumes "hooked s" "open_conn s fd = Some p" "- (2 ^ 31) \<le> fd" "fd < 2 ^ 31" "0 \<le> c_notify_fd (heap s p) \<or> 0 \<le> nfd"
    "epoll_ctl_hook nfd rc Ctl_add fd (Some data) s = (res, call, closed_fd, s')" "ev_ok ev"
  shows "\<exists>e d. call = Some (Ctl_add, e, Some d) \<and> data_fd d = fd \<and> res = rc \<and> 0 \<le> e \<and> c_notify_fd (heap s' p) = e
    \<and> (ready W (heap s' p) \<longrightarrow> poll_round s' W ev e \<noteq> 0)
    \<and> (\<forall>n. (ev n \<noteq> 0 \<longrightarrow> poll_round s' W ev n \<noteq> 0)
        \<and> ((\<forall>(_, q)\<in>set (watched s'). c_notify_fd (heap s' q) = n \<longrightarrow> \<not> ready W (heap s' q)) \<longrightarrow> poll_round s' W ev n = ev n))"
proof -
  define c' where "c' = (if c_notify_fd (heap s p) < 0 then (heap s p)\<lparr>c_notify_fd := nfd\<rparr> else heap s p)"
  have n: "0 \<le> c_notify_fd c'" using assms(5) by (auto simp: c'_def)
  have s': "s' = watch fd p (set_conn p c' s)" and call: "call = Some (Ctl_add, c_notify_fd c', Some (set_data_fd fd data))" "res = rc"
    using assms(1,2,5,6) by (auto simp: epoll_ctl_hook_def Let_def c'_def split: if_splits)
  have hp: "heap s' p = c'" by (simp add: s' watch_def set_conn_def)
  have "map_find (watched s') fd = Some p" by (simp add: s' watch_def set_conn_def map_find_put)
  then have w: "(fd, p) \<in> set (watched s')" by (rule map_find_mem)
  note f = poll_fold [OF assms(7), of W "heap s'" "watched s'"]
  have "ready W (heap s' p) \<longrightarrow> poll_round s' W ev (c_notify_fd c') \<noteq> 0"
    using f [of "c_notify_fd c'"] w hp n unfolding poll_round_def by auto
  then show ?thesis
    using call n hp data_fd_set [OF assms(3,4)] f unfolding poll_round_def
    by (intro exI [of _ "c_notify_fd c'"] exI [of _ "set_data_fd fd data"]) auto
qed

definition ready_world :: shm_world where
  "ready_world = \<lparr>names = (\<lambda>_. None), objs = (\<lambda>_. zero_segment\<lparr>ring_j2c := mark_closed (ring_j2c zero_segment), h_refcount := 2\<rparr>), next_obj = 1\<rparr>"

theorem epoll_reports_ready_witness:
  "case epoll_ctl_hook 20 0 Ctl_add 9 (Some 9) lib_demo of
     (res, call, _, s') \<Rightarrow> res = 0 \<and> (\<exists>e d. call = Some (Ctl_add, e, Some d) \<and> data_fd d = 9
       \<and> poll_round s' ready_world (\<lambda>_. 0) e \<noteq> 0)"
proof -
  obtain res call cl s' where e: "epoll_ctl_hook 20 0 Ctl_add 9 (Some 9) lib_demo = (res, call, cl, s')"
    by (cases "epoll_ctl_hook 20 0 Ctl_add 9 (Some 9) lib_demo")
  have o: "hooked lib_demo" "open_conn lib_demo 9 = Some 0"
    by (simp_all add: hooked_def open_conn_def reg_lookup_def lib_demo_def new_conn_def is_open_def)
  have "heap s' 0 = (heap lib_demo 0)\<lparr>c_notify_fd := 20\<rparr>"
    using e o by (auto simp: epoll_ctl_hook_def Let_def watch_def set_conn_def lib_demo_def new_conn_def split: if_splits)
  then have "ready ready_world (heap s' 0)"
    by (simp add: ready_def lib_demo_def new_conn_def ready_world_def ring_inbound_def mark_closed_contents)
  with epoll_reports_ready [OF o _ _ _ e, of "\<lambda>_. 0" ready_world] show ?thesis
    by (auto simp: e ev_ok_def)
qed

text \<open>
  An event's user data does not survive the registration: the application gets back its fd in the low
  half, also where it had stored a pointer.
\<close>

theorem epoll_user_data_lost:
  "case epoll_ctl_hook 20 0 Ctl_add 9 (Some 0x7F0012345678) lib_demo of
     (_, call, _, s') \<Rightarrow> (case call of Some (_, _, Some d) \<Rightarrow> d = 0x7F0000000009 \<and> fst (epoll_wait_hook [d] s' (\<lambda>_. 0)) = [d]
       | _ \<Rightarrow> False)"
  by code_simp

text \<open>
  Closing an fd that the poller watches leaves its segment open: the poller's reference keeps the
  connection alive, so the peer's ring is never marked closed.
\<close>

theorem close_watched_keeps_segment:
  "case epoll_ctl_hook 20 0 Ctl_add 9 (Some 9) lib_demo of
     (_, _, _, s) \<Rightarrow>
       (case close_hook 0 9 s ready_world of
          Some (rc, called, s', W') \<Rightarrow> rc = 0 \<and> called \<and> registry s' = [] \<and> is_open (c_segment (heap s' 0))
            \<and> \<not> peer_closed (ring_c2j (objs W' 0)) \<and> h_refcount (objs W' 0) = 2
        | None \<Rightarrow> False)"
proof -
  define s where "s = watch 9 0 (set_conn 0 ((heap lib_demo 0)\<lparr>c_notify_fd := 20\<rparr>) lib_demo)"
  have o: "hooked lib_demo" "open_conn lib_demo 9 = Some 0"
    by (simp_all add: hooked_def open_conn_def reg_lookup_def lib_demo_def new_conn_def is_open_def)
  have e: "\<exists>res call cl. epoll_ctl_hook 20 0 Ctl_add 9 (Some 9) lib_demo = (res, call, cl, s)"
    using o by (simp add: epoll_ctl_hook_def Let_def s_def lib_demo_def new_conn_def)
  have s: "hooked s" "fd_table s = shared_table" "map_find (registry s) 9 = Some 0" "watched s = [(9, 0)]"
    "map_erase 9 (registry s) = []" "is_open (c_segment (heap s 0))"
    by (simp_all add: s_def watch_def set_conn_def lib_demo_def hooked_def map_erase_def new_conn_def is_open_def)
  have v: "find_vfd (fd_table s) 9 = Some 2" by (simp add: find_vfd_def s(2) shared_table_nine)
  have "map_option fst (fd_free shared_table 2) = Some 0" by code_simp
  then obtain T where f: "fd_free (fd_table s) 2 = Some (0, T)" by (auto simp: s(2))
  let ?s = "fold_closed (heap s 0) (s\<lparr>fd_table := T, m_close_total := m_close_total s + 1, registry := map_erase 9 (registry s)\<rparr>)"
  have "release_ref 0 ?s ready_world = (?s, ready_world)" by (simp add: release_ref_def referenced_def fold_closed_def s(4))
  then have c: "close_hook 0 9 s ready_world = Some (0, True, ?s, ready_world)"
    using close_hook_last(2) [OF s(1) v _ f s(3), of 0 ready_world] by simp
  have "\<not> peer_closed (ring_c2j zero_segment)" by (simp add: zero_segment_def zero_ring_def peer_closed_def)
  then have "\<not> peer_closed (ring_c2j (objs ready_world 0))" "h_refcount (objs ready_world 0) = 2"
    by (simp_all add: ready_world_def)
  with e s(5,6) show ?thesis by (auto simp: c fold_closed_def)
qed

end
