(* ===== verification/Zc_Device.thy ===== *)
theory Zc_Device
  imports SD_Prelude "HOL-Library.Multiset"
begin

text \<open>
  The zero-copy device, \<^verbatim>\<open>src/kernel/socksdirect_dev.c\<close> with its header. The kernel's own functions are
  arguments: what \<^verbatim>\<open>alloc_pages\<close>, \<^verbatim>\<open>kzalloc\<close>, \<^verbatim>\<open>copy_from_user\<close>, \<^verbatim>\<open>copy_to_user\<close>, \<^verbatim>\<open>find_vma\<close>, \<^verbatim>\<open>get_user_pages_remote\<close>
  and \<^verbatim>\<open>vm_insert_page\<close> return. What the module does to the page allocator and to page tables is a list of
  events. A page is a number, its frame number. Every operation on an fd's list holds the fd's
  mutex and is one step.
\<close>

section \<open>Requests\<close>

record sd_version =
  v_major :: u16
  v_minor :: u16
  v_flags :: u32

record sd_alloc_phys =
  ap_num_pages :: u32
  ap_reserved :: u32
  ap_addr :: u64
  ap_cookie :: u64

record sd_free_phys =
  fp_cookie :: u64

record sd_virt2phys =
  vp_virt :: u64
  vp_cookie :: u64

record sd_virt2phys_vec =
  vv_virt :: u64
  vv_cookies :: u64
  vv_npages :: u32
  vv_flags :: u32

record sd_map_phys =
  mp_virt :: u64
  mp_cookie :: u64
  mp_old_cookie :: u64

record sd_map_phys_vec =
  mv_virt :: u64
  mv_cookies :: u64
  mv_old_cookies :: u64
  mv_npages :: u32
  mv_flags :: u32

record sd_echo =
  e_in :: u64
  e_out :: u64

definition ABI_MAJOR :: u16 where "ABI_MAJOR = 1"
definition ABI_MINOR :: u16 where "ABI_MINOR = 0"
definition MAX_ORDER :: nat where "MAX_ORDER = 11"
definition PAGE_SIZE :: u64 where "PAGE_SIZE = 4096"

definition bad_count :: "u32 \<Rightarrow> bool" where
  "bad_count n \<longleftrightarrow> n = 0 \<or> n > push_bit MAX_ORDER 1"


section \<open>Allocations\<close>

record sd_alloc_node =
  n_cookie :: u64
  n_user_addr :: u64
  n_num_pages :: u32
  n_pages :: nat

record sd_dev =
  cookie_counter :: u64
  allocations :: "sd_alloc_node list"

datatype page_event = Alloc_pages nat nat | Free_pages nat nat | Insert_page u64 nat

definition sd_next_cookie :: "sd_dev \<Rightarrow> u64 \<times> sd_dev" where
  "sd_next_cookie d = (cookie_counter d + 1, d\<lparr>cookie_counter := cookie_counter d + 1\<rparr>)"

text \<open>\<^verbatim>\<open>sd_open\<close>; the flag is whether \<^verbatim>\<open>kzalloc\<close> succeeds.\<close>

definition sd_open :: "bool \<Rightarrow> sd_dev \<Rightarrow> errno + sd_dev" where
  "sd_open mem d = (if \<not> mem then Inl ENOMEM else Inr (d\<lparr>allocations := []\<rparr>))"

text \<open>\<^verbatim>\<open>order_base_2\<close>, and \<^verbatim>\<open>get_order\<close> of a size in bytes.\<close>

function order_base_2 :: "nat \<Rightarrow> nat" where
  "order_base_2 n = (if n \<le> 1 then 0 else Suc (order_base_2 ((n + 1) div 2)))"
  by pat_completeness auto
termination by (relation "measure id") auto

declare order_base_2.simps [simp del]

definition get_order :: "u64 \<Rightarrow> nat" where
  "get_order bytes = order_base_2 ((unat bytes + 4095) div 4096)"

definition node_order :: "sd_alloc_node \<Rightarrow> nat" where
  "node_order n = get_order (ucast (n_num_pages n) * PAGE_SIZE)"

definition sd_release :: "sd_dev \<Rightarrow> sd_dev \<times> page_event list" where
  "sd_release d = (d\<lparr>allocations := []\<rparr>, map (\<lambda>n. Free_pages (n_pages n) (node_order n)) (allocations d))"

definition sd_ioctl_get_version :: "bool \<Rightarrow> errno + sd_version" where
  "sd_ioctl_get_version copy_out =
     (if \<not> copy_out then Inl EFAULT else Inr \<lparr>v_major = ABI_MAJOR, v_minor = ABI_MINOR, v_flags = 0\<rparr>)"

definition sd_ioctl_echo :: "bool \<Rightarrow> bool \<Rightarrow> sd_echo \<Rightarrow> errno + sd_echo" where
  "sd_ioctl_echo copy_in copy_out req =
     (if \<not> copy_in then Inl EFAULT
      else let req' = req\<lparr>e_out := e_in req\<rparr> in if \<not> copy_out then Inl EFAULT else Inr req')"

text \<open>\<open>page\<close> is what \<^verbatim>\<open>alloc_pages\<close> returns and \<open>mem\<close> whether \<^verbatim>\<open>kzalloc\<close> succeeds.\<close>

definition sd_ioctl_alloc_phys :: "bool \<Rightarrow> bool \<Rightarrow> nat option \<Rightarrow> bool \<Rightarrow> sd_dev \<Rightarrow> sd_alloc_phys
    \<Rightarrow> (errno + sd_alloc_phys) \<times> sd_dev \<times> page_event list" where
  "sd_ioctl_alloc_phys copy_in copy_out page mem d req =
     (if \<not> copy_in then (Inl EFAULT, d, [])
      else if bad_count (ap_num_pages req) then (Inl EINVAL, d, [])
      else let order = order_base_2 (unat (ap_num_pages req)) in
        case page of None \<Rightarrow> (Inl ENOMEM, d, [])
        | Some p \<Rightarrow>
            if \<not> mem then (Inl ENOMEM, d, [Alloc_pages p order, Free_pages p order])
            else let (ck, d1) = sd_next_cookie d;
                     node = \<lparr>n_cookie = ck, n_user_addr = 0, n_num_pages = push_bit order 1, n_pages = p\<rparr>;
                     d2 = d1\<lparr>allocations := node # allocations d1\<rparr>;
                     req' = req\<lparr>ap_addr := n_user_addr node, ap_cookie := n_cookie node\<rparr>
                 in (if \<not> copy_out then Inl EFAULT else Inr req', d2, [Alloc_pages p order]))"

text \<open>The search loop of \<^verbatim>\<open>sd_ioctl_free_phys\<close>: the first node with the cookie is unlinked and its pages freed.\<close>

fun free_loop :: "u64 \<Rightarrow> sd_alloc_node list \<Rightarrow> (sd_alloc_node list \<times> page_event list) option" where
  "free_loop ck [] = None"
| "free_loop ck (n # ns) =
     (if n_cookie n = ck then Some (ns, [Free_pages (n_pages n) (node_order n)])
      else map_option (\<lambda>(ns', ev). (n # ns', ev)) (free_loop ck ns))"

definition sd_ioctl_free_phys :: "bool \<Rightarrow> sd_dev \<Rightarrow> sd_free_phys \<Rightarrow> errno option \<times> sd_dev \<times> page_event list" where
  "sd_ioctl_free_phys copy_in d req =
     (if \<not> copy_in then (Some EFAULT, d, [])
      else case free_loop (fp_cookie req) (allocations d) of
          None \<Rightarrow> (Some EINVAL, d, [])
        | Some (ns, ev) \<Rightarrow> (None, d\<lparr>allocations := ns\<rparr>, ev))"


section \<open>Translation and mapping\<close>

text \<open>
  The caller's address space at one address: whether \<^verbatim>\<open>find_vma\<close> gives an area that contains it, the frame
  that \<^verbatim>\<open>get_user_pages_remote\<close> finds, and what \<^verbatim>\<open>vm_insert_page\<close> returns.
\<close>

record user_page =
  in_vma :: bool
  frame :: "nat option"
  insert_err :: "errno option"

definition misaligned :: "u64 \<Rightarrow> bool" where
  "misaligned virt \<longleftrightarrow> and virt (PAGE_SIZE - 1) \<noteq> 0"

definition sd_resolve_virt :: "bool \<Rightarrow> (u64 \<Rightarrow> user_page) \<Rightarrow> u64 \<Rightarrow> errno + u64" where
  "sd_resolve_virt has_mm as virt =
     (if misaligned virt then Inl EINVAL
      else if \<not> has_mm then Inl ESRCH
      else if \<not> in_vma (as virt) then Inl EFAULT
      else case frame (as virt) of None \<Rightarrow> Inl EFAULT | Some pfn \<Rightarrow> Inr (of_nat pfn))"

definition sd_ioctl_virt2phys :: "bool \<Rightarrow> bool \<Rightarrow> bool \<Rightarrow> (u64 \<Rightarrow> user_page) \<Rightarrow> sd_virt2phys \<Rightarrow> errno + sd_virt2phys" where
  "sd_ioctl_virt2phys copy_in copy_out has_mm as req =
     (if \<not> copy_in then Inl EFAULT
      else case sd_resolve_virt has_mm as (vp_virt req) of Inl e \<Rightarrow> Inl e
         | Inr ck \<Rightarrow> if \<not> copy_out then Inl EFAULT else Inr (req\<lparr>vp_cookie := ck\<rparr>))"

fun resolve_loop :: "bool \<Rightarrow> (u64 \<Rightarrow> user_page) \<Rightarrow> u64 \<Rightarrow> nat list \<Rightarrow> errno + u64 list" where
  "resolve_loop has_mm as virt [] = Inr []"
| "resolve_loop has_mm as virt (i # is) =
     (case sd_resolve_virt has_mm as (virt + of_nat i * PAGE_SIZE) of Inl e \<Rightarrow> Inl e
      | Inr ck \<Rightarrow> (case resolve_loop has_mm as virt is of Inl e \<Rightarrow> Inl e | Inr cks \<Rightarrow> Inr (ck # cks)))"

text \<open>The vector ioctls return what they write to the user's array.\<close>

definition sd_ioctl_virt2phys_vec :: "bool \<Rightarrow> bool \<Rightarrow> bool \<Rightarrow> bool \<Rightarrow> (u64 \<Rightarrow> user_page) \<Rightarrow> sd_virt2phys_vec \<Rightarrow> errno + u64 list" where
  "sd_ioctl_virt2phys_vec copy_in copy_out mem has_mm as req =
     (if \<not> copy_in then Inl EFAULT
      else if bad_count (vv_npages req) then Inl EINVAL
      else if \<not> mem then Inl ENOMEM
      else case resolve_loop has_mm as (vv_virt req) [0..<unat (vv_npages req)] of Inl e \<Rightarrow> Inl e
         | Inr cks \<Rightarrow> if \<not> copy_out then Inl EFAULT else Inr cks)"

definition sd_find_alloc_locked :: "sd_dev \<Rightarrow> u64 \<Rightarrow> sd_alloc_node option" where
  "sd_find_alloc_locked d ck = find (\<lambda>n. n_cookie n = ck) (allocations d)"

definition sd_map_one :: "bool \<Rightarrow> (u64 \<Rightarrow> user_page) \<Rightarrow> sd_dev \<Rightarrow> u64 \<Rightarrow> u64 \<Rightarrow> (errno + u64) \<times> page_event list" where
  "sd_map_one has_mm as d virt ck =
     (if misaligned virt then (Inl EINVAL, [])
      else if \<not> has_mm then (Inl ESRCH, [])
      else case sd_find_alloc_locked d ck of None \<Rightarrow> (Inl EINVAL, [])
         | Some node \<Rightarrow>
             if \<not> in_vma (as virt) then (Inl EFAULT, [])
             else let old = (case frame (as virt) of Some pfn \<Rightarrow> of_nat pfn | None \<Rightarrow> 0)
                  in case insert_err (as virt) of Some e \<Rightarrow> (Inl e, []) | None \<Rightarrow> (Inr old, [Insert_page virt (n_pages node)]))"

definition sd_ioctl_map_phys :: "bool \<Rightarrow> bool \<Rightarrow> bool \<Rightarrow> (u64 \<Rightarrow> user_page) \<Rightarrow> sd_dev \<Rightarrow> sd_map_phys
    \<Rightarrow> (errno + sd_map_phys) \<times> page_event list" where
  "sd_ioctl_map_phys copy_in copy_out has_mm as d req =
     (if \<not> copy_in then (Inl EFAULT, [])
      else case sd_map_one has_mm as d (mp_virt req) (mp_cookie req) of
          (Inl e, ev) \<Rightarrow> (Inl e, ev)
        | (Inr old, ev) \<Rightarrow> (if \<not> copy_out then Inl EFAULT else Inr (req\<lparr>mp_old_cookie := old\<rparr>), ev))"

fun map_loop :: "bool \<Rightarrow> (u64 \<Rightarrow> user_page) \<Rightarrow> sd_dev \<Rightarrow> u64 \<Rightarrow> nat \<Rightarrow> u64 list \<Rightarrow> (errno + u64 list) \<times> page_event list" where
  "map_loop has_mm as d virt i [] = (Inr [], [])"
| "map_loop has_mm as d virt i (ck # cks) =
     (case sd_map_one has_mm as d (virt + of_nat i * PAGE_SIZE) ck of
        (Inl e, ev) \<Rightarrow> (Inl e, ev)
      | (Inr old, ev) \<Rightarrow>
          (case map_loop has_mm as d virt (i + 1) cks of
             (Inl e, ev') \<Rightarrow> (Inl e, ev @ ev')
           | (Inr olds, ev') \<Rightarrow> (Inr (old # olds), ev @ ev')))"

text \<open>\<open>cookies\<close> is the user's array, \<open>None\<close> when it cannot be read.\<close>

definition sd_ioctl_map_phys_vec :: "bool \<Rightarrow> bool \<Rightarrow> bool \<Rightarrow> u64 list option \<Rightarrow> bool \<Rightarrow> (u64 \<Rightarrow> user_page) \<Rightarrow> sd_dev
    \<Rightarrow> sd_map_phys_vec \<Rightarrow> (errno + u64 list) \<times> page_event list" where
  "sd_ioctl_map_phys_vec copy_in copy_out mem cookies has_mm as d req =
     (if \<not> copy_in then (Inl EFAULT, [])
      else if bad_count (mv_npages req) then (Inl EINVAL, [])
      else if \<not> mem then (Inl ENOMEM, [])
      else case cookies of None \<Rightarrow> (Inl EFAULT, [])
         | Some cks \<Rightarrow>
             (case map_loop has_mm as d (mv_virt req) 0 (take (unat (mv_npages req)) cks) of
                (Inl e, ev) \<Rightarrow> (Inl e, ev)
              | (Inr olds, ev) \<Rightarrow> (if \<not> copy_out then Inl EFAULT else Inr olds, ev)))"

text \<open>\<^verbatim>\<open>sd_mmap\<close> on the bounds of the area; \<open>None\<close> is success, which marks the area for \<^verbatim>\<open>vm_insert_page\<close>.\<close>

definition sd_mmap :: "u64 \<Rightarrow> u64 \<Rightarrow> errno option" where
  "sd_mmap vm_start vm_end = (if vm_end - vm_start > push_bit (MAX_ORDER + 12) 1 then Some EINVAL else None)"


section \<open>The ioctl entry\<close>

text \<open>A call: the command with its request and what the kernel's functions return during the call.\<close>

datatype zc_call =
    Get_version bool
  | Echo bool bool sd_echo
  | Alloc_phys bool bool "nat option" bool sd_alloc_phys
  | Free_phys bool sd_free_phys
  | Virt2phys bool bool bool "u64 \<Rightarrow> user_page" sd_virt2phys
  | Virt2phys_vec bool bool bool bool "u64 \<Rightarrow> user_page" sd_virt2phys_vec
  | Map_phys bool bool bool "u64 \<Rightarrow> user_page" sd_map_phys
  | Map_phys_vec bool bool bool "u64 list option" bool "u64 \<Rightarrow> user_page" sd_map_phys_vec
  | Unknown_cmd u32

datatype zc_reply = R_version sd_version | R_echo sd_echo | R_alloc sd_alloc_phys | R_done | R_virt sd_virt2phys
  | R_cookies "u64 list" | R_map sd_map_phys

fun sd_unlocked_ioctl :: "zc_call \<Rightarrow> sd_dev \<Rightarrow> (errno + zc_reply) \<times> sd_dev \<times> page_event list" where
  "sd_unlocked_ioctl (Get_version o1) d = (map_sum id R_version (sd_ioctl_get_version o1), d, [])"
| "sd_unlocked_ioctl (Echo i1 o1 r) d = (map_sum id R_echo (sd_ioctl_echo i1 o1 r), d, [])"
| "sd_unlocked_ioctl (Alloc_phys i1 o1 p m r) d =
     (case sd_ioctl_alloc_phys i1 o1 p m d r of (res, d', ev) \<Rightarrow> (map_sum id R_alloc res, d', ev))"
| "sd_unlocked_ioctl (Free_phys i1 r) d =
     (case sd_ioctl_free_phys i1 d r of (e, d', ev) \<Rightarrow> (case e of Some x \<Rightarrow> Inl x | None \<Rightarrow> Inr R_done, d', ev))"
| "sd_unlocked_ioctl (Virt2phys i1 o1 mm as r) d = (map_sum id R_virt (sd_ioctl_virt2phys i1 o1 mm as r), d, [])"
| "sd_unlocked_ioctl (Virt2phys_vec i1 o1 m mm as r) d = (map_sum id R_cookies (sd_ioctl_virt2phys_vec i1 o1 m mm as r), d, [])"
| "sd_unlocked_ioctl (Map_phys i1 o1 mm as r) d =
     (case sd_ioctl_map_phys i1 o1 mm as d r of (res, ev) \<Rightarrow> (map_sum id R_map res, d, ev))"
| "sd_unlocked_ioctl (Map_phys_vec i1 o1 m cks mm as r) d =
     (case sd_ioctl_map_phys_vec i1 o1 m cks mm as d r of (res, ev) \<Rightarrow> (map_sum id R_cookies res, d, ev))"
| "sd_unlocked_ioctl (Unknown_cmd c) d = (Inl ENOTTY, d, [])"

fun zc_run :: "zc_call list \<Rightarrow> sd_dev \<Rightarrow> sd_dev \<times> page_event list" where
  "zc_run [] d = (d, [])"
| "zc_run (c # cs) d =
     (case sd_unlocked_ioctl c d of (_, d', ev) \<Rightarrow> (case zc_run cs d' of (d'', ev') \<Rightarrow> (d'', ev @ ev')))"


section \<open>Loading and unloading\<close>

datatype init_step = Region | Cdev | Class_created | Device | Undo_class | Undo_cdev | Undo_region | Undo_device

text \<open>The four steps of \<^verbatim>\<open>sd_init\<close> with their results; \<open>Inl\<close> is the error it returns.\<close>

definition sd_init :: "errno option \<Rightarrow> errno option \<Rightarrow> errno option \<Rightarrow> bool \<Rightarrow> (errno + unit) \<times> init_step list" where
  "sd_init region cdev cls device_ok =
     (case region of Some e \<Rightarrow> (Inl e, [])
      | None \<Rightarrow>
          (case cdev of Some e \<Rightarrow> (Inl e, [Region, Undo_region])
           | None \<Rightarrow>
               (case cls of Some e \<Rightarrow> (Inl e, [Region, Cdev, Undo_cdev, Undo_region])
                | None \<Rightarrow>
                    if \<not> device_ok
                    then (Inl (EOTHER 5), [Region, Cdev, Class_created, Undo_class, Undo_cdev, Undo_region])
                    else (Inr (), [Region, Cdev, Class_created, Device]))))"

definition sd_exit :: "init_step list" where
  "sd_exit = [Undo_device, Undo_class, Undo_cdev, Undo_region]"


section \<open>Orders\<close>

lemma order_upper: "n \<le> 2 ^ order_base_2 n"
proof (induction n rule: order_base_2.induct)
  case (1 n)
  show ?case
  proof (cases "n \<le> 1")
    case False
    then have "(n + 1) div 2 \<le> 2 ^ order_base_2 ((n + 1) div 2)" using 1 by simp
    then show ?thesis using False by (subst order_base_2.simps) simp
  qed (simp add: order_base_2.simps)
qed

lemma order_least: "n \<le> 2 ^ k \<Longrightarrow> order_base_2 n \<le> k"
proof (induction n arbitrary: k rule: order_base_2.induct)
  case (1 n)
  show ?case
  proof (cases "n \<le> 1")
    case False
    then obtain j where k: "k = Suc j" using "1.prems" by (cases k) auto
    have "n \<le> 2 * 2 ^ j" using "1.prems" unfolding k power_Suc .
    then have "(n + 1) div 2 \<le> 2 ^ j" by linarith
    then have "order_base_2 ((n + 1) div 2) \<le> j" by (rule "1.IH" [OF False])
    then show ?thesis using False k by (subst order_base_2.simps) simp
  qed (simp add: order_base_2.simps)
qed

lemma order_pow2: "order_base_2 (2 ^ k) = k"
  using order_upper [of "2 ^ k"] order_least [of "2 ^ k" k] by (simp add: le_antisym)

lemma good_count_order: "\<not> bad_count n \<Longrightarrow> order_base_2 (unat n) \<le> 11"
proof -
  assume "\<not> bad_count n"
  then have "n \<le> 2048" by (auto simp: bad_count_def MAX_ORDER_def)
  then have "unat n \<le> 2048" by (simp add: word_le_nat_alt)
  then show ?thesis by (intro order_least) simp
qed

text \<open>The order that a node's pages are freed with is the order they were allocated with.\<close>

lemma node_order_alloc: "k \<le> 11 \<Longrightarrow> n_num_pages n = push_bit k 1 \<Longrightarrow> node_order n = k"
proof -
  assume h: "k \<le> 11" "n_num_pages n = push_bit k 1"
  have p: "(2::nat) ^ k \<le> 2 ^ 11" using h(1) by (intro power_increasing) auto
  have "(push_bit k 1 :: u32) = of_nat (2 ^ k)" by (simp add: push_bit_eq_mult)
  moreover have "unat (of_nat (2 ^ k) :: u32) = 2 ^ k" using p by (intro unat_of_nat_small) simp
  ultimately have "unat (n_num_pages n) = 2 ^ k" using h(2) by simp
  then have u: "(ucast (n_num_pages n) * PAGE_SIZE :: u64) = of_nat (2 ^ k * 4096)"
  proof -
    have "(ucast (n_num_pages n) :: u64) = of_nat (unat (n_num_pages n))" by simp
    with \<open>unat (n_num_pages n) = 2 ^ k\<close> show ?thesis by (simp add: PAGE_SIZE_def)
  qed
  have "unat (ucast (n_num_pages n) * PAGE_SIZE :: u64) = 2 ^ k * 4096"
    unfolding u using p by (intro unat_of_nat_small) simp
  then have "get_order (ucast (n_num_pages n) * PAGE_SIZE) = order_base_2 (2 ^ k)"
    by (simp add: get_order_def)
  then show ?thesis by (simp add: node_order_def order_pow2)
qed


section \<open>Balance of the page allocator\<close>

fun got :: "page_event \<Rightarrow> (nat \<times> nat) multiset" where
  "got (Alloc_pages p k) = {#(p, k)#}" | "got _ = {#}"

fun returned :: "page_event \<Rightarrow> (nat \<times> nat) multiset" where
  "returned (Free_pages p k) = {#(p, k)#}" | "returned _ = {#}"

abbreviation tally :: "(page_event \<Rightarrow> (nat \<times> nat) multiset) \<Rightarrow> page_event list \<Rightarrow> (nat \<times> nat) multiset" where
  "tally f ev \<equiv> sum_list (map f ev)"

definition held_pages :: "sd_dev \<Rightarrow> (nat \<times> nat) multiset" where
  "held_pages d = mset (map (\<lambda>n. (n_pages n, node_order n)) (allocations d))"

lemma free_loop_balance:
  "free_loop ck ns = Some (ns', ev) \<Longrightarrow>
     mset (map (\<lambda>n. (n_pages n, node_order n)) ns) = mset (map (\<lambda>n. (n_pages n, node_order n)) ns') + tally returned ev \<and> tally got ev = {#}"
  by (induction ck ns arbitrary: ns' ev rule: free_loop.induct) (auto split: if_splits)

lemma map_one_balance: "sd_map_one mm as d v ck = (r, ev) \<Longrightarrow> tally got ev = {#} \<and> tally returned ev = {#}"
  by (auto simp: sd_map_one_def Let_def split: if_splits option.splits)

lemma map_loop_balance: "map_loop mm as d v i cks = (r, ev) \<Longrightarrow> tally got ev = {#} \<and> tally returned ev = {#}"
proof (induction mm as d v i cks arbitrary: r ev rule: map_loop.induct)
  case (2 mm as d v i ck cks)
  obtain r1 ev1 where one: "sd_map_one mm as d (v + of_nat i * PAGE_SIZE) ck = (r1, ev1)" by fastforce
  obtain r2 ev2 where rest: "map_loop mm as d v (i + 1) cks = (r2, ev2)" by fastforce
  note b = map_one_balance [OF one]
  show ?case
  proof (cases r1)
    case (Inr old)
    have "tally got ev2 = {#} \<and> tally returned ev2 = {#}" using "2.IH" [OF one [symmetric] Inr rest] .
    then show ?thesis using "2.prems" one rest Inr b by (cases r2) auto
  qed (use "2.prems" one b in auto)
qed simp

lemma alloc_balance:
  assumes "sd_ioctl_alloc_phys ci co p m d req = (r, d', ev)"
  shows "held_pages d' + tally returned ev = held_pages d + tally got ev"
proof (cases "ci \<and> \<not> bad_count (ap_num_pages req) \<and> p \<noteq> None \<and> m")
  case True
  then obtain q where q: "p = Some q" by auto
  let ?k = "order_base_2 (unat (ap_num_pages req))"
  have "node_order \<lparr>n_cookie = c, n_user_addr = 0, n_num_pages = push_bit ?k 1, n_pages = q\<rparr> = ?k" for c
    using True good_count_order by (intro node_order_alloc) auto
  with assms True q show ?thesis
    by (auto simp: sd_ioctl_alloc_phys_def Let_def sd_next_cookie_def held_pages_def)
next
  case False
  then show ?thesis using assms by (auto simp: sd_ioctl_alloc_phys_def Let_def split: if_splits option.splits)
qed

lemma ioctl_balance:
  assumes "sd_unlocked_ioctl c d = (r, d', ev)"
  shows "held_pages d' + tally returned ev = held_pages d + tally got ev"
proof (cases c)
  case (Alloc_phys ci co p m req)
  then show ?thesis using assms alloc_balance by (auto split: prod.splits)
next
  case (Free_phys ci req)
  then show ?thesis
    using assms free_loop_balance [of "fp_cookie req" "allocations d"]
    by (auto simp: sd_ioctl_free_phys_def held_pages_def split: if_splits option.splits)
next
  case (Map_phys ci co mm as req)
  then show ?thesis
    using assms map_one_balance [of mm as d "mp_virt req" "mp_cookie req"]
    by (auto simp: sd_ioctl_map_phys_def split: if_splits sum.splits prod.splits)
next
  case (Map_phys_vec ci co m cks mm as req)
  then show ?thesis
    using assms map_loop_balance [of mm as d "mv_virt req" 0]
    by (auto simp: sd_ioctl_map_phys_vec_def split: if_splits sum.splits prod.splits option.splits)
qed (use assms in auto)

lemma run_balance: "zc_run cs d = (d', ev) \<Longrightarrow> held_pages d' + tally returned ev = held_pages d + tally got ev"
proof (induction cs d arbitrary: d' ev rule: zc_run.induct)
  case (2 c cs d)
  obtain r d1 ev1 where one: "sd_unlocked_ioctl c d = (r, d1, ev1)" by (cases "sd_unlocked_ioctl c d")
  obtain d2 ev2 where rest: "zc_run cs d1 = (d2, ev2)" by fastforce
  have "held_pages d2 + tally returned ev2 = held_pages d1 + tally got ev2"
    using "2.IH" [OF one [symmetric] refl rest] .
  then have "held_pages d2 + (tally returned ev1 + tally returned ev2) = (held_pages d1 + tally returned ev1) + tally got ev2"
    by (metis add.assoc add.commute)
  also have "\<dots> = held_pages d + (tally got ev1 + tally got ev2)" unfolding ioctl_balance [OF one] by (rule add.assoc)
  finally show ?case using "2.prems" one rest by auto
qed simp

text \<open>
  C13. The device neither leaks nor double-frees pages. Whatever sequence of calls a process makes on an open
  device, with whatever failures of the kernel's functions, after the device is closed
  the pages returned to the allocator are exactly the pages taken from it, each as often and with the
  same order as it was taken.
\<close>

theorem zc_pages_balanced:
  assumes "sd_open True d0 = Inr d" "zc_run cs d = (d', ev)"
  shows "case sd_release d' of (d'', ev') \<Rightarrow> allocations d'' = [] \<and> tally returned (ev @ ev') = tally got (ev @ ev')"
proof -
  have "held_pages d = {#}" using assms(1) by (auto simp: sd_open_def held_pages_def)
  moreover have "tally got (map (\<lambda>n. Free_pages (n_pages n) (node_order n)) ns) = {#}"
    "tally returned (map (\<lambda>n. Free_pages (n_pages n) (node_order n)) ns) = mset (map (\<lambda>n. (n_pages n, node_order n)) ns)" for ns
    by (induction ns) simp_all
  ultimately show ?thesis using run_balance [OF assms(2)]
    by (simp add: sd_release_def held_pages_def add.commute)
qed

theorem zc_pages_balanced_witness:
  "case zc_run [Alloc_phys True True (Some 77) True \<lparr>ap_num_pages = 3, ap_reserved = 0, ap_addr = 0, ap_cookie = 0\<rparr>,
                Alloc_phys True True (Some 99) False \<lparr>ap_num_pages = 1, ap_reserved = 0, ap_addr = 0, ap_cookie = 0\<rparr>]
           \<lparr>cookie_counter = 0, allocations = []\<rparr> of
     (d', ev) \<Rightarrow> (case sd_release d' of (d'', ev') \<Rightarrow> allocations d'' = [] \<and> tally returned (ev @ ev') = tally got (ev @ ev'))"
proof -
  have o: "sd_open True \<lparr>cookie_counter = 0, allocations = []\<rparr> = Inr \<lparr>cookie_counter = 0, allocations = []\<rparr>"
    by (simp add: sd_open_def)
  show ?thesis
  proof (rule case_prodI2)
    fix d' ev assume r: "zc_run [Alloc_phys True True (Some 77) True \<lparr>ap_num_pages = 3, ap_reserved = 0, ap_addr = 0, ap_cookie = 0\<rparr>,
        Alloc_phys True True (Some 99) False \<lparr>ap_num_pages = 1, ap_reserved = 0, ap_addr = 0, ap_cookie = 0\<rparr>]
      \<lparr>cookie_counter = 0, allocations = []\<rparr> = (d', ev)"
    show "case sd_release d' of (d'', ev') \<Rightarrow> allocations d'' = [] \<and> tally returned (ev @ ev') = tally got (ev @ ev')"
      by (rule zc_pages_balanced [OF o r])
  qed
qed


section \<open>Cookies\<close>

text \<open>The cookies of an fd's allocations are distinct and were handed out by the counter.\<close>

definition dev_ok :: "sd_dev \<Rightarrow> bool" where
  "dev_ok d \<longleftrightarrow> distinct (map n_cookie (allocations d))
     \<and> (\<forall>n\<in>set (allocations d). 0 < n_cookie n \<and> n_cookie n \<le> cookie_counter d
          \<and> (\<exists>k\<le>11. n_num_pages n = push_bit k 1))"

lemma free_loop_subset:
  "free_loop ck ns = Some (ns', ev) \<Longrightarrow> set ns' \<subseteq> set ns \<and> (distinct (map n_cookie ns) \<longrightarrow> distinct (map n_cookie ns'))"
proof (induction ck ns arbitrary: ns' ev rule: free_loop.induct)
  case (2 ck n ns)
  show ?case
  proof (cases "n_cookie n = ck")
    case False
    then obtain ms where m: "free_loop ck ns = Some (ms, ev)" "ns' = n # ms" using "2.prems" by auto
    then show ?thesis using "2.IH" [OF False m(1)] by auto
  qed (use "2.prems" in auto)
qed simp

lemma free_loop_all:
  assumes "distinct (map n_cookie ns)"
  shows "free_loop ck ns = (case find (\<lambda>n. n_cookie n = ck) ns of None \<Rightarrow> None
     | Some n \<Rightarrow> Some (filter (\<lambda>m. n_cookie m \<noteq> ck) ns, [Free_pages (n_pages n) (node_order n)]))"
  using assms
proof (induction ns)
  case (Cons n ns)
  have "filter (\<lambda>m. n_cookie m \<noteq> n_cookie n) ns = ns" using Cons.prems by (intro filter_True) (auto simp: image_iff)
  then show ?case using Cons by (auto split: option.splits)
qed simp

lemma counter_up: "(c::u64) \<noteq> - 1 \<Longrightarrow> c < c + 1"
proof -
  have m1: "unat (- 1 :: u64) = 2 ^ 64 - 1" by (simp add: unsigned_minus_1_eq_mask mask_eq_exp_minus_1)
  assume "c \<noteq> - 1"
  then have "unat c \<noteq> 2 ^ 64 - 1" by (metis m1 unsigned_word_eqI)
  then have "unat c + 1 < 2 ^ 64" using unsigned_less [of c, where 'a = nat] by simp
  then have "unat (c + 1) = unat c + 1" by (simp add: unat_word_ariths)
  then show ?thesis by (simp add: word_less_nat_alt)
qed

lemma alloc_dev_ok:
  assumes "dev_ok d" "cookie_counter d \<noteq> - 1" "sd_ioctl_alloc_phys ci co p m d req = (r, d', ev)"
  shows "dev_ok d' \<and> (cookie_counter d' = cookie_counter d \<or> cookie_counter d' = cookie_counter d + 1)"
proof (cases "ci \<and> \<not> bad_count (ap_num_pages req) \<and> p \<noteq> None \<and> m")
  case True
  then obtain q where q: "p = Some q" by auto
  let ?c = "cookie_counter d + 1" and ?k = "order_base_2 (unat (ap_num_pages req))"
  have "cookie_counter d < ?c" using assms(2) by (rule counter_up)
  then have up: "x \<le> cookie_counter d \<Longrightarrow> x < ?c" "0 < ?c" for x by (auto intro: le_less_trans word_coorder.extremum_strict)
  have k: "?k \<le> 11" using True good_count_order by blast
  have d': "allocations d' = \<lparr>n_cookie = ?c, n_user_addr = 0, n_num_pages = push_bit ?k 1, n_pages = q\<rparr> # allocations d"
    "cookie_counter d' = ?c"
    using assms(3) True q by (auto simp: sd_ioctl_alloc_phys_def Let_def sd_next_cookie_def)
  have "?c \<noteq> n_cookie n \<and> n_cookie n \<le> ?c" if "n \<in> set (allocations d)" for n
    using up(1) [of "n_cookie n"] that assms(1) by (auto simp: dev_ok_def)
  then have "\<forall>n\<in>set (allocations d). ?c \<noteq> n_cookie n \<and> n_cookie n \<le> ?c" by blast
  then show ?thesis using assms(1) up(2) k unfolding dev_ok_def d' by auto
next
  case False
  then show ?thesis using assms by (auto simp: sd_ioctl_alloc_phys_def Let_def split: if_splits option.splits)
qed

lemma free_dev_ok:
  assumes "dev_ok d" "sd_ioctl_free_phys ci d req = (e, d', ev)"
  shows "dev_ok d' \<and> cookie_counter d' = cookie_counter d"
proof (cases "ci \<and> free_loop (fp_cookie req) (allocations d) \<noteq> None")
  case True
  then obtain ns ev' where f: "free_loop (fp_cookie req) (allocations d) = Some (ns, ev')" by auto
  have "d' = d\<lparr>allocations := ns\<rparr>" using True f assms(2) by (auto simp: sd_ioctl_free_phys_def)
  then show ?thesis using free_loop_subset [OF f] assms(1) by (auto simp: dev_ok_def)
next
  case False
  then show ?thesis using assms by (auto simp: sd_ioctl_free_phys_def split: if_splits option.splits)
qed

lemma find_filtered: "find P (filter (\<lambda>x. \<not> P x) xs) = None"
  by (induction xs) auto

text \<open>
  C27. The device state stays well-formed and cookies name allocations. As long as the 64-bit cookie counter has
  not reached its end, every ioctl keeps the cookies of an fd distinct, non-zero and at most the counter, and
  page counts powers of two up to \<open>2\<^sup>1\<^sup>1\<close>. A successful allocation returns a cookie that no allocation of the
  fd has and under which the new pages are found; a successful free removes the allocation of its cookie.
\<close>

theorem zc_device_typed:
  assumes "dev_ok d" "cookie_counter d \<noteq> - 1" "sd_unlocked_ioctl c d = (r, d', ev)"
  shows "dev_ok d'
    \<and> (\<forall>ci co p m req a. c = Alloc_phys ci co (Some p) m req \<and> r = Inr (R_alloc a) \<longrightarrow>
         sd_find_alloc_locked d (ap_cookie a) = None
         \<and> map_option n_pages (sd_find_alloc_locked d' (ap_cookie a)) = Some p)
    \<and> (\<forall>ci req. c = Free_phys ci req \<and> r = Inr R_done \<longrightarrow>
         sd_find_alloc_locked d (fp_cookie req) \<noteq> None \<and> sd_find_alloc_locked d' (fp_cookie req) = None)"
proof (intro conjI allI impI)
  show "dev_ok d'"
  proof (cases c)
    case (Alloc_phys ci co p m req)
    then show ?thesis using assms(3) alloc_dev_ok [OF assms(1,2)] by (auto split: prod.splits)
  next
    case (Free_phys ci req)
    then show ?thesis using assms(3) free_dev_ok [OF assms(1)] by (auto split: prod.splits)
  qed (use assms(1,3) in \<open>auto split: prod.splits\<close>)
next
  fix ci co p m req a assume h: "c = Alloc_phys ci co (Some p) m req \<and> r = Inr (R_alloc a)"
  have new: "find (\<lambda>n. n_cookie n = cookie_counter d + 1) (allocations d) = None"
    using assms(1,2) by (auto simp: find_None_iff dev_ok_def) (metis counter_up leD)
  have "ap_cookie a = cookie_counter d + 1" "\<exists>n ns. allocations d' = n # allocations d \<and> n_cookie n = cookie_counter d + 1 \<and> n_pages n = p"
    using h assms(3) by (auto simp: sd_ioctl_alloc_phys_def Let_def sd_next_cookie_def split: if_splits)
  then show "sd_find_alloc_locked d (ap_cookie a) = None" "map_option n_pages (sd_find_alloc_locked d' (ap_cookie a)) = Some p"
    using new by (auto simp: sd_find_alloc_locked_def)
next
  fix ci req assume h: "c = Free_phys ci req \<and> r = Inr R_done"
  have dist: "distinct (map n_cookie (allocations d))" using assms(1) by (simp add: dev_ok_def)
  have "\<exists>n. find (\<lambda>n. n_cookie n = fp_cookie req) (allocations d) = Some n
      \<and> allocations d' = filter (\<lambda>m. n_cookie m \<noteq> fp_cookie req) (allocations d)"
    using h assms(3) free_loop_all [OF dist, of "fp_cookie req"]
    by (auto simp: sd_ioctl_free_phys_def split: if_splits option.splits)
  then show "sd_find_alloc_locked d (fp_cookie req) \<noteq> None" "sd_find_alloc_locked d' (fp_cookie req) = None"
    by (auto simp: sd_find_alloc_locked_def find_filtered)
qed

theorem zc_device_typed_witness:
  "case sd_unlocked_ioctl (Alloc_phys True True (Some 77) True \<lparr>ap_num_pages = 3, ap_reserved = 0, ap_addr = 0, ap_cookie = 0\<rparr>)
          \<lparr>cookie_counter = 4, allocations = []\<rparr> of (r, d', ev) \<Rightarrow> dev_ok d'"
proof -
  let ?d = "\<lparr>cookie_counter = 4, allocations = []\<rparr>"
  let ?c = "Alloc_phys True True (Some 77) True \<lparr>ap_num_pages = 3, ap_reserved = 0, ap_addr = 0, ap_cookie = 0\<rparr>"
  have ok: "dev_ok ?d" "cookie_counter ?d \<noteq> - 1" by (simp_all add: dev_ok_def)
  obtain r d' ev where e: "sd_unlocked_ioctl ?c ?d = (r, d', ev)" by (cases "sd_unlocked_ioctl ?c ?d") 
  show ?thesis unfolding e prod.case using zc_device_typed [OF ok e] by (rule conjunct1)
qed

text \<open>
  The cookie that a mapping reports as the previous one is a frame number, not an allocation's cookie: mapping it
  back is refused. A vector of mappings that fails half-way has changed the pages before the failure.
\<close>

definition plain_page :: "u64 \<Rightarrow> user_page" where
  "plain_page virt = \<lparr>in_vma = True, frame = Some 500, insert_err = None\<rparr>"

definition one_alloc :: sd_dev where
  "one_alloc = \<lparr>cookie_counter = 1, allocations = [\<lparr>n_cookie = 1, n_user_addr = 0, n_num_pages = 1, n_pages = 77\<rparr>]\<rparr>"

theorem old_cookie_not_mappable:
  "sd_map_one True plain_page one_alloc 0x1000 1 = (Inr 500, [Insert_page 0x1000 77])
   \<and> sd_map_one True plain_page one_alloc 0x1000 500 = (Inl EINVAL, [])"
  by code_simp

theorem map_vec_partial:
  "sd_ioctl_map_phys_vec True True True (Some [1, 9]) True plain_page one_alloc
     \<lparr>mv_virt = 0x1000, mv_cookies = 0, mv_old_cookies = 0, mv_npages = 2, mv_flags = 0\<rparr>
   = (Inl EINVAL, [Insert_page 0x1000 77])"
  by code_simp


section \<open>Loading\<close>

fun undo :: "init_step \<Rightarrow> init_step" where
  "undo Region = Undo_region" | "undo Cdev = Undo_cdev" | "undo Class_created = Undo_class" | "undo Device = Undo_device"
| "undo s = s"

text \<open>A failing initialisation undoes what it did, in the opposite order; unloading undoes a successful one.\<close>

lemma init_all_or_nothing:
  "case sd_init r c k dev of (Inl e, ev) \<Rightarrow> (\<exists>n. ev = take n [Region, Cdev, Class_created] @ map undo (rev (take n [Region, Cdev, Class_created])))
   | (Inr _, ev) \<Rightarrow> sd_exit = map undo (rev ev)"
proof -
  have "\<exists>n. [] = take n [Region, Cdev, Class_created] @ map undo (rev (take n [Region, Cdev, Class_created]))" by (rule exI [of _ 0]) simp
  moreover have "\<exists>n. [Region, Undo_region] = take n [Region, Cdev, Class_created] @ map undo (rev (take n [Region, Cdev, Class_created]))"
    by (rule exI [of _ 1]) simp
  moreover have "\<exists>n. [Region, Cdev, Undo_cdev, Undo_region] = take n [Region, Cdev, Class_created] @ map undo (rev (take n [Region, Cdev, Class_created]))"
    by (rule exI [of _ 2]) simp
  moreover have "\<exists>n. [Region, Cdev, Class_created, Undo_class, Undo_cdev, Undo_region]
      = take n [Region, Cdev, Class_created] @ map undo (rev (take n [Region, Cdev, Class_created]))"
    by (rule exI [of _ 3]) simp
  ultimately show ?thesis by (auto simp: sd_init_def sd_exit_def split: option.splits)
qed

end
