(* ===== verification/Zc_Client.thy ===== *)
theory Zc_Client
  imports Zc_Device Std_Map
begin

text \<open>
  The user-space side of zero copy: the client \<^verbatim>\<open>include/socksdirect/zerocopy_client.hpp\<close>, whose calls go to the
  module's \<^verbatim>\<open>ioctl\<close> entry, and the test double \<^verbatim>\<open>zerocopy_mock.hpp\<close> of the module.
\<close>

section \<open>The client\<close>

datatype zc_status = kReady | kCopyFallback | kAbiMismatch

record ZeroCopyClient =
  z_fd :: int
  z_status :: zc_status
  z_errno :: "errno option"
  z_major :: u16
  z_minor :: u16

definition new_client :: ZeroCopyClient where
  "new_client = \<lparr>z_fd = -1, z_status = kCopyFallback, z_errno = None, z_major = 0, z_minor = 0\<rparr>"

definition close_list :: "int \<Rightarrow> int list" where
  "close_list fd = (if fd \<ge> 0 then [fd] else [])"

text \<open>
  \<^verbatim>\<open>open\<close> on the results of opening the device and of \<^verbatim>\<open>SD_IOC_GET_VERSION\<close>; the list is the descriptors closed.
\<close>

definition zc_open :: "errno + int \<Rightarrow> errno + sd_version \<Rightarrow> ZeroCopyClient \<Rightarrow> ZeroCopyClient \<times> int list" where
  "zc_open opened ver c =
     (case opened of
        Inl e \<Rightarrow> (c\<lparr>z_fd := -1, z_status := kCopyFallback, z_errno := Some e\<rparr>, close_list (z_fd c))
      | Inr fd \<Rightarrow>
          (case ver of
             Inl e \<Rightarrow> (c\<lparr>z_fd := -1, z_status := kCopyFallback, z_errno := Some e\<rparr>, close_list (z_fd c) @ [fd])
           | Inr v \<Rightarrow>
               if v_major v \<noteq> ABI_MAJOR
               then (c\<lparr>z_fd := -1, z_status := kAbiMismatch\<rparr>, close_list (z_fd c) @ [fd])
               else (c\<lparr>z_fd := fd, z_major := v_major v, z_minor := v_minor v, z_status := kReady\<rparr>, close_list (z_fd c))))"

definition zc_destroy :: "ZeroCopyClient \<Rightarrow> int list" where
  "zc_destroy c = close_list (z_fd c)"

text \<open>Move assignment: the target, the source left behind and the descriptors closed.\<close>

definition zc_move :: "ZeroCopyClient \<Rightarrow> ZeroCopyClient \<Rightarrow> ZeroCopyClient \<times> ZeroCopyClient \<times> int list" where
  "zc_move target source =
     (target\<lparr>z_fd := z_fd source, z_status := z_status source\<rparr>, source\<lparr>z_fd := -1, z_status := kCopyFallback\<rparr>,
      close_list (z_fd target))"

definition zc_fail :: "errno \<Rightarrow> ZeroCopyClient \<Rightarrow> ZeroCopyClient" where
  "zc_fail e c = c\<lparr>z_errno := Some e\<rparr>"

text \<open>
  An operation: in any state but ready it fails with \<^verbatim>\<open>ENOSYS\<close>; otherwise the call goes to the device, and an error of
  the call is recorded.
\<close>

definition zc_ioctl :: "zc_call \<Rightarrow> ZeroCopyClient \<Rightarrow> sd_dev
    \<Rightarrow> (errno + zc_reply) \<times> ZeroCopyClient \<times> sd_dev \<times> page_event list" where
  "zc_ioctl call c d =
     (if z_status c \<noteq> kReady then (Inl ENOSYS, zc_fail ENOSYS c, d, [])
      else case sd_unlocked_ioctl call d of
          (Inl e, d', ev) \<Rightarrow> (Inl e, zc_fail e c, d', ev)
        | (Inr r, d', ev) \<Rightarrow> (Inr r, c, d', ev))"

text \<open>The arguments \<open>i1\<close>, \<open>o1\<close>, \<open>p\<close>, \<open>m\<close>, \<open>mm\<close> and \<open>as\<close> are what the kernel's functions return during the call.\<close>

definition zc_alloc_phys :: "bool \<Rightarrow> bool \<Rightarrow> nat option \<Rightarrow> bool \<Rightarrow> u32 \<Rightarrow> ZeroCopyClient \<Rightarrow> sd_dev
    \<Rightarrow> (errno + u64 \<times> u64) \<times> ZeroCopyClient \<times> sd_dev \<times> page_event list" where
  "zc_alloc_phys i1 o1 p m num_pages c d =
     (case zc_ioctl (Alloc_phys i1 o1 p m \<lparr>ap_num_pages = num_pages, ap_reserved = 0, ap_addr = 0, ap_cookie = 0\<rparr>) c d of
        (Inr (R_alloc a), rest) \<Rightarrow> (Inr (ap_addr a, ap_cookie a), rest)
      | (Inr _, rest) \<Rightarrow> (Inr (0, 0), rest)
      | (Inl e, rest) \<Rightarrow> (Inl e, rest))"

definition zc_free_phys :: "bool \<Rightarrow> u64 \<Rightarrow> ZeroCopyClient \<Rightarrow> sd_dev
    \<Rightarrow> errno option \<times> ZeroCopyClient \<times> sd_dev \<times> page_event list" where
  "zc_free_phys i1 cookie c d =
     (case zc_ioctl (Free_phys i1 \<lparr>fp_cookie = cookie\<rparr>) c d of (Inr _, rest) \<Rightarrow> (None, rest) | (Inl e, rest) \<Rightarrow> (Some e, rest))"

definition zc_virt2phys :: "bool \<Rightarrow> bool \<Rightarrow> bool \<Rightarrow> (u64 \<Rightarrow> user_page) \<Rightarrow> u64 \<Rightarrow> ZeroCopyClient \<Rightarrow> sd_dev
    \<Rightarrow> (errno + u64) \<times> ZeroCopyClient \<times> sd_dev \<times> page_event list" where
  "zc_virt2phys i1 o1 mm as virt c d =
     (case zc_ioctl (Virt2phys i1 o1 mm as \<lparr>vp_virt = virt, vp_cookie = 0\<rparr>) c d of
        (Inr (R_virt v), rest) \<Rightarrow> (Inr (vp_cookie v), rest)
      | (Inr _, rest) \<Rightarrow> (Inr 0, rest)
      | (Inl e, rest) \<Rightarrow> (Inl e, rest))"

definition zc_virt2phys_vec :: "bool \<Rightarrow> bool \<Rightarrow> bool \<Rightarrow> bool \<Rightarrow> bool \<Rightarrow> (u64 \<Rightarrow> user_page) \<Rightarrow> u64 \<Rightarrow> u32 \<Rightarrow> u64 \<Rightarrow> ZeroCopyClient \<Rightarrow> sd_dev
    \<Rightarrow> (errno + u64 list) \<times> ZeroCopyClient \<times> sd_dev \<times> page_event list" where
  "zc_virt2phys_vec out i1 o1 m mm as virt npages buffer c d =
     (if z_status c = kReady \<and> \<not> out then (Inl EFAULT, zc_fail EFAULT c, d, [])
      else case zc_ioctl (Virt2phys_vec i1 o1 m mm as \<lparr>vv_virt = virt, vv_cookies = buffer, vv_npages = npages, vv_flags = 0\<rparr>) c d of
        (Inr (R_cookies cks), rest) \<Rightarrow> (Inr cks, rest)
      | (Inr _, rest) \<Rightarrow> (Inr [], rest)
      | (Inl e, rest) \<Rightarrow> (Inl e, rest))"

definition zc_map_phys :: "bool \<Rightarrow> bool \<Rightarrow> bool \<Rightarrow> (u64 \<Rightarrow> user_page) \<Rightarrow> u64 \<Rightarrow> u64 \<Rightarrow> ZeroCopyClient \<Rightarrow> sd_dev
    \<Rightarrow> (errno + u64) \<times> ZeroCopyClient \<times> sd_dev \<times> page_event list" where
  "zc_map_phys i1 o1 mm as virt cookie c d =
     (case zc_ioctl (Map_phys i1 o1 mm as \<lparr>mp_virt = virt, mp_cookie = cookie, mp_old_cookie = 0\<rparr>) c d of
        (Inr (R_map r), rest) \<Rightarrow> (Inr (mp_old_cookie r), rest)
      | (Inr _, rest) \<Rightarrow> (Inr 0, rest)
      | (Inl e, rest) \<Rightarrow> (Inl e, rest))"

text \<open>\<open>cookies\<close> is the caller's vector; the size sent is its length in 32 bits. \<open>out\<close> is whether the output vector is given.\<close>

definition zc_map_phys_vec :: "bool \<Rightarrow> bool \<Rightarrow> bool \<Rightarrow> bool \<Rightarrow> bool \<Rightarrow> bool \<Rightarrow> (u64 \<Rightarrow> user_page) \<Rightarrow> u64 \<Rightarrow> u64 list \<Rightarrow> u64 \<Rightarrow> u64
    \<Rightarrow> ZeroCopyClient \<Rightarrow> sd_dev \<Rightarrow> (errno + u64 list) \<times> ZeroCopyClient \<times> sd_dev \<times> page_event list" where
  "zc_map_phys_vec out i1 o1 m rd mm as virt cookies buffer olds c d =
     (if z_status c = kReady \<and> \<not> out then (Inl EFAULT, zc_fail EFAULT c, d, [])
      else case zc_ioctl (Map_phys_vec i1 o1 m (if rd then Some cookies else None) mm as
          \<lparr>mv_virt = virt, mv_cookies = buffer, mv_old_cookies = olds, mv_npages = of_nat (length cookies), mv_flags = 0\<rparr>) c d of
        (Inr (R_cookies cks), rest) \<Rightarrow> (Inr cks, rest)
      | (Inr _, rest) \<Rightarrow> (Inr [], rest)
      | (Inl e, rest) \<Rightarrow> (Inl e, rest))"

definition zc_echo :: "bool \<Rightarrow> bool \<Rightarrow> u64 \<Rightarrow> ZeroCopyClient \<Rightarrow> sd_dev
    \<Rightarrow> (errno + u64) \<times> ZeroCopyClient \<times> sd_dev \<times> page_event list" where
  "zc_echo i1 o1 v c d =
     (case zc_ioctl (Echo i1 o1 \<lparr>e_in = v, e_out = 0\<rparr>) c d of
        (Inr (R_echo e), rest) \<Rightarrow> (Inr (e_out e), rest)
      | (Inr _, rest) \<Rightarrow> (Inr 0, rest)
      | (Inl e, rest) \<Rightarrow> (Inl e, rest))"


section \<open>The mock\<close>

record zc_allocation =
  za_cookie :: u64
  za_num_pages :: u32
  za_backing :: "u8 list"

record ZeroCopyMock =
  allocs :: "(u64, zc_allocation) std_map"
  mock_counter :: u64
  live :: nat

definition new_mock :: ZeroCopyMock where
  "new_mock = \<lparr>allocs = [], mock_counter = 0, live = 0\<rparr>"

definition handle_get_version :: sd_version where
  "handle_get_version = \<lparr>v_major = ABI_MAJOR, v_minor = ABI_MINOR, v_flags = 0\<rparr>"

definition handle_echo :: "sd_echo \<Rightarrow> sd_echo" where
  "handle_echo e = e\<lparr>e_out := e_in e\<rparr>"

partial_function (option) round_pages :: "u32 \<Rightarrow> u32 \<Rightarrow> u32 option" where
  "round_pages n pages = (if pages < n then round_pages n (push_bit 1 pages) else Some pages)"

definition handle_alloc_phys :: "sd_alloc_phys \<Rightarrow> ZeroCopyMock \<Rightarrow> ((errno + sd_alloc_phys) \<times> ZeroCopyMock) option" where
  "handle_alloc_phys a M =
     (if bad_count (ap_num_pages a) then Some (Inl EINVAL, M)
      else let ck = mock_counter M + 1 in
        (case round_pages (ap_num_pages a) 1 of None \<Rightarrow> None
         | Some pages \<Rightarrow>
             (let alloc = \<lparr>za_cookie = ck, za_num_pages = ap_num_pages a, za_backing = replicate (unat pages * 4096) 0\<rparr>
              in Some (Inr (a\<lparr>ap_cookie := ck, ap_addr := or 0xdead000000000000 ck\<rparr>),
                       M\<lparr>allocs := map_put ck alloc (allocs M), mock_counter := ck, live := live M + 1\<rparr>))))"

definition handle_free_phys :: "sd_free_phys \<Rightarrow> ZeroCopyMock \<Rightarrow> errno option \<times> ZeroCopyMock" where
  "handle_free_phys f M =
     (case map_find (allocs M) (fp_cookie f) of None \<Rightarrow> (Some EINVAL, M)
      | Some _ \<Rightarrow> (None, M\<lparr>allocs := map_erase (fp_cookie f) (allocs M), live := live M - 1\<rparr>))"

definition handle_virt2phys :: "sd_virt2phys \<Rightarrow> sd_virt2phys" where
  "handle_virt2phys v = v\<lparr>vp_cookie := and (vp_virt v) 0xffffffffffff\<rparr>"

definition handle_unsupported :: errno where
  "handle_unsupported = ENOSYS"

definition live_allocations :: "ZeroCopyMock \<Rightarrow> nat" where
  "live_allocations M = live M"


section \<open>Allocations through the client\<close>

lemma find_new_cookie:
  assumes "dev_ok d" "cookie_counter d \<noteq> - 1"
  shows "find (\<lambda>n. n_cookie n = cookie_counter d + 1) (allocations d) = None"
  using assms counter_up [OF assms(2)] by (auto simp: find_None_iff dev_ok_def)

lemma alloc_succeeds:
  assumes "\<not> bad_count (ap_num_pages req)"
  defines "k \<equiv> order_base_2 (unat (ap_num_pages req))"
  shows "sd_unlocked_ioctl (Alloc_phys True True (Some p) True req) d
    = (Inr (R_alloc (req\<lparr>ap_addr := 0, ap_cookie := cookie_counter d + 1\<rparr>)),
       d\<lparr>cookie_counter := cookie_counter d + 1,
         allocations := \<lparr>n_cookie = cookie_counter d + 1, n_user_addr = 0, n_num_pages = push_bit k 1, n_pages = p\<rparr> # allocations d\<rparr>,
       [Alloc_pages p k])"
  using assms(1) by (simp add: sd_ioctl_alloc_phys_def sd_next_cookie_def Let_def k_def)

lemma absent_free:
  "find (\<lambda>n. n_cookie n = ck) ns = None \<Longrightarrow> free_loop ck ns = None"
  by (induction ns) (auto split: if_splits)

text \<open>
  Zero-copy memory through the client, and its fallback. When the device could not be opened or has another major version, every
  operation fails with \<^verbatim>\<open>ENOSYS\<close> without touching the device. When the client is ready, an allocation
  within bounds that the kernel can serve returns a cookie that was not in use; freeing that cookie succeeds, returns exactly
  the allocated pages and leaves the allocations as they were, and freeing it again fails with \<^verbatim>\<open>EINVAL\<close>. An
  allocation of no page or of more than 2048 fails with \<^verbatim>\<open>EINVAL\<close> and allocates nothing.
\<close>

theorem zc_alloc_free_round_trip:
  "(z_status c \<noteq> kReady \<longrightarrow> zc_ioctl call c d = (Inl ENOSYS, c\<lparr>z_errno := Some ENOSYS\<rparr>, d, []))
   \<and> (z_status c = kReady \<and> dev_ok d \<and> cookie_counter d \<noteq> - 1 \<and> 0 < n \<and> n \<le> 2048 \<longrightarrow>
       (\<exists>ck d1 k. zc_alloc_phys True True (Some p) True n c d = (Inr (0, ck), c, d1, [Alloc_pages p k])
          \<and> sd_find_alloc_locked d ck = None \<and> unat n \<le> 2 ^ k
          \<and> (\<exists>d2. zc_free_phys True ck c d1 = (None, c, d2, [Free_pages p k]) \<and> allocations d2 = allocations d
               \<and> zc_free_phys True ck c d2 = (Some EINVAL, c\<lparr>z_errno := Some EINVAL\<rparr>, d2, []))))
   \<and> (z_status c = kReady \<and> (n = 0 \<or> 2048 < n) \<longrightarrow>
       zc_alloc_phys True True (Some p) True n c d = (Inl EINVAL, c\<lparr>z_errno := Some EINVAL\<rparr>, d, []))"
proof (intro conjI impI)
  assume "z_status c \<noteq> kReady"
  then show "zc_ioctl call c d = (Inl ENOSYS, c\<lparr>z_errno := Some ENOSYS\<rparr>, d, [])" by (simp add: zc_ioctl_def zc_fail_def)
next
  assume h: "z_status c = kReady \<and> dev_ok d \<and> cookie_counter d \<noteq> - 1 \<and> 0 < n \<and> n \<le> 2048"
  let ?ck = "cookie_counter d + 1" and ?k = "order_base_2 (unat n)"
  let ?node = "\<lparr>n_cookie = ?ck, n_user_addr = 0, n_num_pages = push_bit ?k 1, n_pages = p\<rparr>"
  let ?d1 = "d\<lparr>cookie_counter := ?ck, allocations := ?node # allocations d\<rparr>"
  let ?d2 = "d\<lparr>cookie_counter := ?ck\<rparr>"
  have good: "\<not> bad_count n" using h by (auto simp: bad_count_def MAX_ORDER_def)
  have new: "find (\<lambda>n. n_cookie n = ?ck) (allocations d) = None" using h find_new_cookie by blast
  have order: "node_order ?node = ?k" using good_count_order [OF good] by (intro node_order_alloc) auto
  have "zc_alloc_phys True True (Some p) True n c d = (Inr (0, ?ck), c, ?d1, [Alloc_pages p ?k])"
    using h good by (simp add: zc_alloc_phys_def zc_ioctl_def alloc_succeeds del: sd_unlocked_ioctl.simps)
  moreover have "zc_free_phys True ?ck c ?d1 = (None, c, ?d2, [Free_pages p ?k])"
    using h order by (simp add: zc_free_phys_def zc_ioctl_def sd_ioctl_free_phys_def)
  moreover have "zc_free_phys True ?ck c ?d2 = (Some EINVAL, c\<lparr>z_errno := Some EINVAL\<rparr>, ?d2, [])"
    using h absent_free [OF new] by (simp add: zc_free_phys_def zc_ioctl_def sd_ioctl_free_phys_def zc_fail_def)
  moreover have "sd_find_alloc_locked d ?ck = None" using new by (simp add: sd_find_alloc_locked_def)
  moreover have "allocations ?d2 = allocations d" by simp
  ultimately show "\<exists>ck d1 k. zc_alloc_phys True True (Some p) True n c d = (Inr (0, ck), c, d1, [Alloc_pages p k])
      \<and> sd_find_alloc_locked d ck = None \<and> unat n \<le> 2 ^ k
      \<and> (\<exists>d2. zc_free_phys True ck c d1 = (None, c, d2, [Free_pages p k]) \<and> allocations d2 = allocations d
           \<and> zc_free_phys True ck c d2 = (Some EINVAL, c\<lparr>z_errno := Some EINVAL\<rparr>, d2, []))"
    using order_upper by blast
next
  assume h: "z_status c = kReady \<and> (n = 0 \<or> 2048 < n)"
  then have "bad_count n" by (auto simp: bad_count_def MAX_ORDER_def)
  then show "zc_alloc_phys True True (Some p) True n c d = (Inl EINVAL, c\<lparr>z_errno := Some EINVAL\<rparr>, d, [])"
    using h by (simp add: zc_alloc_phys_def zc_ioctl_def sd_ioctl_alloc_phys_def zc_fail_def)
qed

theorem zc_alloc_free_round_trip_witness:
  "\<exists>ck d1 k. zc_alloc_phys True True (Some 77) True 3 (new_client\<lparr>z_status := kReady, z_fd := 4\<rparr>) \<lparr>cookie_counter = 0, allocations = []\<rparr>
       = (Inr (0, ck), new_client\<lparr>z_status := kReady, z_fd := 4\<rparr>, d1, [Alloc_pages 77 k]) \<and> (3::nat) \<le> 2 ^ k"
proof -
  let ?c = "new_client\<lparr>z_status := kReady, z_fd := 4\<rparr>" and ?d = "\<lparr>cookie_counter = 0, allocations = []\<rparr>"
  have h: "z_status ?c = kReady \<and> dev_ok ?d \<and> cookie_counter ?d \<noteq> - 1 \<and> 0 < (3 :: u32) \<and> 3 \<le> (2048 :: u32)"
    by (simp add: dev_ok_def)
  note r = conjunct1 [OF conjunct2 [OF zc_alloc_free_round_trip [of ?c "Get_version True" ?d 3 77]]]
  from mp [OF r h] show ?thesis by auto
qed


section \<open>The mock follows the module\<close>

text \<open>The calls of the control path, with a kernel that serves them, on the mock.\<close>

fun mock_call :: "zc_call \<Rightarrow> ZeroCopyMock \<Rightarrow> ((errno + zc_reply) \<times> ZeroCopyMock) option" where
  "mock_call (Get_version o1) M = Some (Inr (R_version handle_get_version), M)"
| "mock_call (Echo i1 o1 r) M = Some (Inr (R_echo (handle_echo r)), M)"
| "mock_call (Alloc_phys i1 o1 p m r) M = map_option (\<lambda>(res, M'). (map_sum id R_alloc res, M')) (handle_alloc_phys r M)"
| "mock_call (Free_phys i1 r) M =
     (case handle_free_phys r M of (e, M') \<Rightarrow> Some (case e of Some x \<Rightarrow> Inl x | None \<Rightarrow> Inr R_done, M'))"
| "mock_call c M = Some (Inl handle_unsupported, M)"

fun served :: "zc_call \<Rightarrow> bool" where
  "served (Get_version o1) = o1"
| "served (Echo i1 o1 r) = (i1 \<and> o1)"
| "served (Alloc_phys i1 o1 p m r) = (i1 \<and> o1 \<and> p \<noteq> None \<and> m)"
| "served (Free_phys i1 r) = i1"
| "served c = False"

text \<open>The address of an allocation, which the module leaves 0, is the only difference.\<close>

fun no_addr :: "errno + zc_reply \<Rightarrow> errno + zc_reply" where
  "no_addr (Inr (R_alloc a)) = Inr (R_alloc (a\<lparr>ap_addr := 0\<rparr>))"
| "no_addr r = r"

fun mock_run :: "zc_call list \<Rightarrow> ZeroCopyMock \<Rightarrow> ((errno + zc_reply) list \<times> ZeroCopyMock) option" where
  "mock_run [] M = Some ([], M)"
| "mock_run (c # cs) M =
     (case mock_call c M of None \<Rightarrow> None
      | Some (r, M') \<Rightarrow> map_option (\<lambda>(rs, M''). (r # rs, M'')) (mock_run cs M'))"

fun device_run :: "zc_call list \<Rightarrow> sd_dev \<Rightarrow> (errno + zc_reply) list \<times> sd_dev" where
  "device_run [] d = ([], d)"
| "device_run (c # cs) d =
     (case sd_unlocked_ioctl c d of (r, d', _) \<Rightarrow> (case device_run cs d' of (rs, d'') \<Rightarrow> (r # rs, d'')))"

definition mock_rel :: "ZeroCopyMock \<Rightarrow> sd_dev \<Rightarrow> bool" where
  "mock_rel M d \<longleftrightarrow> mock_counter M = cookie_counter d \<and> dev_ok d \<and> map_ok (allocs M)
     \<and> fst ` set (allocs M) = n_cookie ` set (allocations d) \<and> live M = length (allocs M)"

text \<open>The rounding loop of the mock ends, at the module's power of two.\<close>

lemma pow2_u32: "k \<le> 11 \<Longrightarrow> unat (2 ^ k :: u32) = 2 ^ k"
proof -
  assume "k \<le> 11"
  then have "(2::nat) ^ k \<le> 2 ^ 11" by (intro power_increasing) auto
  then show ?thesis using unat_of_nat_small [of "2 ^ k", where 'a = 32] by simp
qed

lemma round_pages_from:
  assumes "\<not> bad_count n" "k \<le> order_base_2 (unat n)"
  shows "round_pages n (2 ^ k) = Some (2 ^ order_base_2 (unat n))"
  using assms(2)
proof (induction "order_base_2 (unat n) - k" arbitrary: k)
  case 0
  then have k: "k = order_base_2 (unat n)" by simp
  have "unat n \<le> unat (2 ^ k :: u32)" using order_upper [of "unat n"] pow2_u32 good_count_order [OF assms(1)] k by simp
  then show ?case unfolding k by (subst round_pages.simps) (simp add: word_less_nat_alt k)
next
  case (Suc x)
  then have lt: "k < order_base_2 (unat n)" by simp
  then have "\<not> unat n \<le> 2 ^ k" using order_least [of "unat n" k] by auto
  then have "2 ^ k < n" using pow2_u32 [of k] lt good_count_order [OF assms(1)] by (simp add: word_less_nat_alt)
  moreover have "round_pages n (2 ^ Suc k) = Some (2 ^ order_base_2 (unat n))" using Suc lt by (intro Suc.hyps(1)) simp_all
  moreover have "push_bit 1 (2 ^ k) = (2 ^ Suc k :: u32)" by (simp add: push_bit_eq_mult)
  ultimately show ?case by (subst round_pages.simps) (simp only: if_True)
qed

lemma round_pages_one: "\<not> bad_count n \<Longrightarrow> round_pages n 1 = Some (2 ^ order_base_2 (unat n))"
  using round_pages_from [of n 0] by simp

lemma mock_step:
  assumes "mock_rel M d" "served c" "cookie_counter d \<noteq> - 1" "sd_unlocked_ioctl c d = (r, d', ev)"
  shows "\<exists>r' M'. mock_call c M = Some (r', M') \<and> no_addr r' = no_addr r \<and> mock_rel M' d'
    \<and> (cookie_counter d' = cookie_counter d \<or> cookie_counter d' = cookie_counter d + 1)"
proof (cases c)
  case (Alloc_phys i1 o1 p m req)
  then obtain q where q: "i1" "o1" "p = Some q" "m" using assms(2) by auto
  show ?thesis
  proof (cases "bad_count (ap_num_pages req)")
    case True
    then show ?thesis using assms Alloc_phys q by (auto simp: sd_ioctl_alloc_phys_def handle_alloc_phys_def)
  next
    case False
    let ?ck = "cookie_counter d + 1"
    have r: "r = Inr (R_alloc (req\<lparr>ap_addr := 0, ap_cookie := ?ck\<rparr>))" "cookie_counter d' = ?ck"
      "\<exists>n. allocations d' = n # allocations d \<and> n_cookie n = ?ck"
      using assms(4) alloc_succeeds [OF False, of q d] unfolding Alloc_phys q(3) using q by auto
    have dev: "dev_ok d'" using assms(1,3,4) alloc_dev_ok [of d] unfolding Alloc_phys mock_rel_def
      by (auto split: prod.splits)
    have new: "?ck \<notin> fst ` set (allocs M)"
      using find_new_cookie [of d] assms(1,3) by (auto simp: mock_rel_def find_None_iff)
    obtain al where al: "handle_alloc_phys req M = Some (Inr (req\<lparr>ap_cookie := ?ck, ap_addr := or 0xdead000000000000 ?ck\<rparr>),
        M\<lparr>allocs := map_put ?ck al (allocs M), mock_counter := ?ck, live := live M + 1\<rparr>)"
      using False assms(1) round_pages_one [OF False] by (auto simp: handle_alloc_phys_def Let_def mock_rel_def)
    have "length (map_put ?ck al (allocs M)) = length (allocs M) + 1"
      using assms(1) new by (intro std_map.size_put_fresh) (auto simp: mock_rel_def map_find_None)
    then have "mock_rel (M\<lparr>allocs := map_put ?ck al (allocs M), mock_counter := ?ck, live := live M + 1\<rparr>) d'"
      using assms(1) r(2,3) dev new by (auto simp: mock_rel_def map_put_ok map_put_keys)
    then show ?thesis using al r Alloc_phys by simp
  qed
next
  case (Free_phys i1 req)
  have dist: "distinct (map n_cookie (allocations d))" using assms(1) by (simp add: mock_rel_def dev_ok_def)
  have dev: "dev_ok d' \<and> cookie_counter d' = cookie_counter d"
    using assms(1,4) free_dev_ok [of d] unfolding Free_phys mock_rel_def by (auto split: prod.splits)
  show ?thesis
  proof (cases "map_find (allocs M) (fp_cookie req)")
    case None
    then have "fp_cookie req \<notin> n_cookie ` set (allocations d)"
      using assms(1) map_find_None [of "allocs M" "fp_cookie req"] by (auto simp: mock_rel_def)
    then have "find (\<lambda>n. n_cookie n = fp_cookie req) (allocations d) = None"
      by (auto simp: find_None_iff) (metis imageI)
    then show ?thesis using assms None Free_phys absent_free by (auto simp: sd_ioctl_free_phys_def handle_free_phys_def)
  next
    case (Some al)
    then have "fp_cookie req \<in> fst ` set (allocs M)" using map_find_None [of "allocs M" "fp_cookie req"] by auto
    then have "fp_cookie req \<in> n_cookie ` set (allocations d)" using assms(1) by (simp add: mock_rel_def)
    then obtain n where n: "find (\<lambda>n. n_cookie n = fp_cookie req) (allocations d) = Some n"
      by (cases "find (\<lambda>n. n_cookie n = fp_cookie req) (allocations d)") (auto simp: find_None_iff)
    have d': "r = Inr R_done" "allocations d' = filter (\<lambda>m. n_cookie m \<noteq> fp_cookie req) (allocations d)"
      using assms(2,4) Free_phys free_loop_all [OF dist, of "fp_cookie req"] n by (auto simp: sd_ioctl_free_phys_def)
    have "length (map_erase (fp_cookie req) (allocs M)) = length (allocs M) - 1"
      using assms(1) Some std_map.size_erase [of "allocs M" "fp_cookie req"] by (simp add: mock_rel_def)
    moreover have "fst ` set (map_erase (fp_cookie req) (allocs M)) = fst ` set (allocs M) - {fp_cookie req}"
      by (auto simp: map_erase_def image_iff)
    ultimately have "mock_rel (M\<lparr>allocs := map_erase (fp_cookie req) (allocs M), live := live M - 1\<rparr>) d'"
      using assms(1) dev d'(2) by (auto simp: mock_rel_def map_erase_ok)
    then show ?thesis using Some Free_phys d'(1) dev by (simp add: handle_free_phys_def)
  qed
qed (use assms in \<open>auto simp: sd_ioctl_get_version_def sd_ioctl_echo_def handle_get_version_def handle_echo_def\<close>)

lemma mock_run_follows:
  assumes "mock_rel M d" "list_all served cs" "unat (cookie_counter d) + length cs < 2 ^ 64" "device_run cs d = (rs, d')"
  shows "\<exists>rs' M'. mock_run cs M = Some (rs', M') \<and> map no_addr rs' = map no_addr rs \<and> mock_rel M' d'"
  using assms
proof (induction cs arbitrary: M d rs d')
  case (Cons c cs)
  obtain r d1 ev where one: "sd_unlocked_ioctl c d = (r, d1, ev)" by (cases "sd_unlocked_ioctl c d")
  obtain rs1 d2 where rest: "device_run cs d1 = (rs1, d2)" by fastforce
  have out: "rs = r # rs1" "d' = d2" using Cons.prems(4) one rest by auto
  have "unat (cookie_counter d) < 2 ^ 64 - 1" using Cons.prems(3) by simp
  then have nm: "cookie_counter d \<noteq> - 1" by (auto simp: unsigned_minus_1_eq_mask mask_eq_exp_minus_1)
  have s: "served c" "list_all served cs" using Cons.prems(2) by simp_all
  obtain r' M1 where m: "mock_call c M = Some (r', M1)" "no_addr r' = no_addr r" "mock_rel M1 d1"
    "cookie_counter d1 = cookie_counter d \<or> cookie_counter d1 = cookie_counter d + 1"
    using mock_step [OF Cons.prems(1) s(1) nm one] by blast
  have "unat (cookie_counter d + 1) \<le> unat (cookie_counter d) + 1" by (simp add: unat_word_ariths)
  then have "unat (cookie_counter d1) + length cs < 2 ^ 64" using m(4) Cons.prems(3) by auto
  from Cons.IH [OF m(3) s(2) this rest] obtain rs' M' where
    "mock_run cs M1 = Some (rs', M')" "map no_addr rs' = map no_addr rs1" "mock_rel M' d2" by blast
  then show ?case using m out by simp
qed simp

text \<open>
  C28. The mock is a faithful stand-in for the module's control path. On every sequence of version, echo, allocation and free
  calls that the kernel serves, shorter than \<open>2 ^ 64\<close>, the mock started empty returns the replies of the module started empty, error
  codes and cookies included, but for the address of an allocation; its loop that rounds page counts ends, and
  its count of live allocations is the number of allocations the module holds.
\<close>

theorem mock_control_path:
  assumes "list_all served cs" "length cs < 2 ^ 64" "device_run cs \<lparr>cookie_counter = 0, allocations = []\<rparr> = (rs, d)"
  shows "\<exists>rs' M. mock_run cs new_mock = Some (rs', M) \<and> map no_addr rs' = map no_addr rs
    \<and> live_allocations M = length (allocations d)"
proof -
  have "mock_rel new_mock \<lparr>cookie_counter = 0, allocations = []\<rparr>" by (simp add: mock_rel_def new_mock_def dev_ok_def)
  from mock_run_follows [OF this assms(1) _ assms(3)] assms(2) obtain rs' M where
    m: "mock_run cs new_mock = Some (rs', M)" "map no_addr rs' = map no_addr rs" "mock_rel M d" by auto
  have "length (allocs M) = card (fst ` set (allocs M))"
    using m(3) map_ok_distinct [of "allocs M"] by (metis distinct_card length_map list.set_map mock_rel_def)
  also have "\<dots> = card (n_cookie ` set (allocations d))" using m(3) by (simp add: mock_rel_def)
  also have "\<dots> = length (allocations d)"
    using m(3) by (metis distinct_card length_map list.set_map mock_rel_def dev_ok_def)
  finally show ?thesis using m by (simp add: live_allocations_def mock_rel_def)
qed

theorem mock_control_path_witness:
  "\<exists>rs' M. mock_run [Alloc_phys True True (Some 9) True \<lparr>ap_num_pages = 3, ap_reserved = 0, ap_addr = 0, ap_cookie = 0\<rparr>,
        Free_phys True \<lparr>fp_cookie = 1\<rparr>, Free_phys True \<lparr>fp_cookie = 1\<rparr>] new_mock = Some (rs', M)
     \<and> live_allocations M = 0"
proof -
  let ?cs = "[Alloc_phys True True (Some 9) True \<lparr>ap_num_pages = 3, ap_reserved = 0, ap_addr = 0, ap_cookie = 0\<rparr>,
        Free_phys True \<lparr>fp_cookie = 1\<rparr>, Free_phys True \<lparr>fp_cookie = 1\<rparr>]"
  obtain rs d where r: "device_run ?cs \<lparr>cookie_counter = 0, allocations = []\<rparr> = (rs, d)" by fastforce
  have "allocations d = []"
    using r by (simp add: sd_ioctl_alloc_phys_def bad_count_def MAX_ORDER_def sd_next_cookie_def Let_def sd_ioctl_free_phys_def split: prod.splits) auto
  then show ?thesis using mock_control_path [OF _ _ r] by auto
qed

text \<open>The mock translates any address, where the module refuses one that is not page-aligned.\<close>

theorem mock_ignores_alignment:
  "vp_cookie (handle_virt2phys \<lparr>vp_virt = 0x1001, vp_cookie = 0\<rparr>) = 0x1001
   \<and> sd_ioctl_virt2phys True True True plain_page \<lparr>vp_virt = 0x1001, vp_cookie = 0\<rparr> = Inl EINVAL"
  by code_simp

end
