(* ===== verification/Metrics_Dump.thy ===== *)
theory Metrics_Dump
  imports File_Api
begin

text \<open>
  The per-process metrics file, \<^verbatim>\<open>src/lib/metrics_dump.cpp\<close>: its text, and the protocol that writes it
  to a temporary file and renames that over the old one. The file system has inodes, so that a file that is renamed or
  truncated while it is open behaves as in POSIX; each system call is a step, and its result an argument.
\<close>

section \<open>The text\<close>

definition current_path :: "int \<Rightarrow> lib_state \<Rightarrow> string" where
  "current_path pid s = (if metrics_dir s = [] then [] else metrics_dir s @ take 63 (''/'' @ int_str pid @ ''.prom''))"

text \<open>One series as \<^verbatim>\<open>snprintf\<close> formats it, and what fits into the buffer of 256 bytes.\<close>

definition series_text :: "string \<Rightarrow> string \<Rightarrow> string \<Rightarrow> u64 \<Rightarrow> int \<Rightarrow> string" where
  "series_text kind name help v pid =
     ''# HELP '' @ name @ '' '' @ help @ [newline] @ ''# TYPE '' @ name @ '' '' @ kind @ [newline]
     @ name @ ''{pid='' @ [quote] @ int_str pid @ [quote] @ ''} '' @ dec_str (unat v) @ [newline]"

definition emit_counter :: "string \<Rightarrow> string \<Rightarrow> string \<Rightarrow> u64 \<Rightarrow> int \<Rightarrow> string" where
  "emit_counter out name help v pid = out @ take 255 (series_text ''counter'' name help v pid)"

definition emit_gauge :: "string \<Rightarrow> string \<Rightarrow> string \<Rightarrow> u64 \<Rightarrow> int \<Rightarrow> string" where
  "emit_gauge out name help v pid = out @ take 255 (series_text ''gauge'' name help v pid)"

definition live_sum :: "(ShmConn \<Rightarrow> u64) \<Rightarrow> lib_state \<Rightarrow> u64" where
  "live_sum part s = foldl (\<lambda>acc p. acc + part (heap s p)) 0 (reg_snapshot (registry s))"

definition render_lib_metrics :: "int \<Rightarrow> lib_state \<Rightarrow> string" where
  "render_lib_metrics pid s =
     (let o0 = [];
          o1 = emit_counter o0 ''socksdirect_lib_shm_bytes_sent_total'' ''bytes sent through the SHM data plane''
                 (live_sum c_bytes_sent s + shm_bytes_sent_closed s) pid;
          o2 = emit_counter o1 ''socksdirect_lib_shm_bytes_recv_total'' ''bytes received through the SHM data plane''
                 (live_sum c_bytes_recv s + shm_bytes_recv_closed s) pid;
          o3 = emit_counter o2 ''socksdirect_lib_shm_ring_full_blocks_total'' ''send blocked because the SHM ring was full''
                 (live_sum c_ring_full s + shm_ring_full_closed s) pid;
          o4 = emit_counter o3 ''socksdirect_lib_shm_ring_empty_blocks_total'' ''recv blocked because the SHM ring was empty''
                 (live_sum c_ring_empty s + shm_ring_empty_closed s) pid;
          o5 = emit_counter o4 ''socksdirect_lib_shm_conns_total'' ''SHM connections opened by this process''
                 (shm_conns_total s) pid;
          o6 = emit_counter o5 ''socksdirect_lib_shm_conn_closed_total'' ''SHM connections closed by this process''
                 (shm_conn_closed_total s) pid
      in emit_gauge o6 ''socksdirect_lib_shm_conns_live'' ''currently-open SHM connections''
           (of_nat (length (reg_snapshot (registry s)))) pid)"


section \<open>The file system\<close>

record mfs =
  links :: "string \<rightharpoonup> nat"
  inodes :: "nat \<Rightarrow> string"
  next_inode :: nat

definition fs_ok :: "mfs \<Rightarrow> bool" where
  "fs_ok F \<longleftrightarrow> (\<forall>n i. links F n = Some i \<longrightarrow> i < next_inode F) \<and> inj_on (links F) (dom (links F))"

definition read_file :: "mfs \<Rightarrow> string \<Rightarrow> string option" where
  "read_file F n = map_option (inodes F) (links F n)"

text \<open>\<^verbatim>\<open>open\<close> with \<^verbatim>\<open>O_CREAT | O_TRUNC\<close>.\<close>

definition open_trunc :: "string \<Rightarrow> mfs \<Rightarrow> nat \<times> mfs" where
  "open_trunc n F =
     (case links F n of
        Some i \<Rightarrow> (i, F\<lparr>inodes := (inodes F)(i := [])\<rparr>)
      | None \<Rightarrow> (next_inode F, F\<lparr>links := (links F)(n \<mapsto> next_inode F), inodes := (inodes F)(next_inode F := []),
                                next_inode := next_inode F + 1\<rparr>))"

text \<open>A write at an offset; a hole before it reads as NUL bytes.\<close>

definition write_at :: "nat \<Rightarrow> nat \<Rightarrow> string \<Rightarrow> mfs \<Rightarrow> mfs" where
  "write_at i off bs F =
     (let c = inodes F i
      in F\<lparr>inodes := (inodes F)(i := take off (c @ replicate (off - length c) (char_of (0::nat))) @ bs @ drop (off + length bs) c)\<rparr>)"

definition fs_unlink :: "string \<Rightarrow> mfs \<Rightarrow> mfs" where
  "fs_unlink n F = F\<lparr>links := (links F)(n := None)\<rparr>"

definition fs_rename :: "string \<Rightarrow> string \<Rightarrow> mfs \<Rightarrow> mfs option" where
  "fs_rename a b F = map_option (\<lambda>i. F\<lparr>links := (links F)(a := None, b \<mapsto> i)\<rparr>) (links F a)"


section \<open>Writing the file\<close>

text \<open>
  Where \<^verbatim>\<open>dump_lib_metrics_once\<close> is: before \<^verbatim>\<open>open\<close>, in the write loop with the inode and the bytes written so
  far, or returned. The loop's exit leads to \<^verbatim>\<open>rename\<close>.
\<close>

datatype dump_pc = D_open | D_write nat nat | D_end bool

definition tmp_of :: "string \<Rightarrow> string" where
  "tmp_of path = path @ ''.tmp''"

fun dump_step :: "string \<Rightarrow> string \<Rightarrow> write_result \<Rightarrow> dump_pc \<Rightarrow> mfs \<Rightarrow> dump_pc \<times> mfs" where
  "dump_step path body r D_open F =
     (case r of Write_err e \<Rightarrow> (D_end False, F)
      | Wrote _ \<Rightarrow> (case open_trunc (tmp_of path) F of (i, F') \<Rightarrow> (D_write i 0, F')))"
| "dump_step path body r (D_write i done_n) F =
     (if done_n < length body
      then (case r of
          Write_err e \<Rightarrow> if e = EINTR then (D_write i done_n, F) else (D_end False, fs_unlink (tmp_of path) F)
        | Wrote n \<Rightarrow> (D_write i (done_n + n), write_at i done_n (take n (drop done_n body)) F))
      else (case (r, fs_rename (tmp_of path) path F) of
          (Wrote _, Some F') \<Rightarrow> (D_end True, F')
        | _ \<Rightarrow> (D_end False, fs_unlink (tmp_of path) F)))"
| "dump_step path body r (D_end b) F = (D_end b, F)"

fun dump_run :: "string \<Rightarrow> string \<Rightarrow> write_result list \<Rightarrow> dump_pc \<Rightarrow> mfs \<Rightarrow> dump_pc \<times> mfs" where
  "dump_run path body [] pc F = (pc, F)"
| "dump_run path body (r # rs) pc F = (case dump_step path body r pc F of (pc', F') \<Rightarrow> dump_run path body rs pc' F')"

text \<open>\<open>None\<close> is a call that has not returned yet when the results end.\<close>

definition dump_lib_metrics_once :: "int \<Rightarrow> lib_state \<Rightarrow> write_result list \<Rightarrow> mfs \<Rightarrow> (bool \<times> mfs) option" where
  "dump_lib_metrics_once pid s rs F =
     (if current_path pid s = [] then Some (False, F)
      else case dump_run (current_path pid s) (render_lib_metrics pid s) rs D_open F of
          (D_end b, F') \<Rightarrow> Some (b, F')
        | _ \<Rightarrow> None)"

text \<open>
  \<^verbatim>\<open>ensure_metrics_dumper_started\<close>: the flag afterwards, the directory it tries to make, and whether it starts the
  thread, which calls \<^verbatim>\<open>dump_lib_metrics_once\<close> for ever.
\<close>

definition ensure_metrics_dumper_started :: "bool \<Rightarrow> lib_state \<Rightarrow> bool \<times> string option \<times> bool" where
  "ensure_metrics_dumper_started started s =
     (if metrics_dir s = [] then (started, None, False)
      else if started then (True, None, False)
      else (True, Some (metrics_dir s), True))"

definition remove_lib_metrics_file :: "int \<Rightarrow> lib_state \<Rightarrow> mfs \<Rightarrow> mfs" where
  "remove_lib_metrics_file pid s F = (if current_path pid s = [] then F else fs_unlink (current_path pid s) F)"


section \<open>The text is complete\<close>

lemma pid_text: "0 \<le> pid \<Longrightarrow> pid < 2 ^ 31 \<Longrightarrow> length (int_str pid) \<le> 10"
  by (auto simp: int_str_def intro!: dec_str_length)

lemma value_text: "length (dec_str (unat (v :: u64))) \<le> 20"
  by (rule dec_str_length) (use unsigned_less [of v, where 'a = nat] in simp_all)

lemma series_fits:
  assumes "0 \<le> pid" "pid < 2 ^ 31" "3 * length name + length help + length kind \<le> 190"
  shows "take 255 (series_text kind name help v pid) = series_text kind name help v pid"
  using pid_text [OF assms(1,2)] value_text [of v] assms(3) by (simp add: series_text_def)

lemma live_sum_list: "live_sum part s = sum_list (map (\<lambda>(_, p). part (heap s p)) (registry s))"
proof -
  have "foldl (\<lambda>acc p. acc + f p) a ps = a + sum_list (map f ps)" for f :: "nat \<Rightarrow> u64" and a ps
    by (induction ps arbitrary: a) (simp_all add: add.assoc)
  then show ?thesis by (simp add: live_sum_def reg_snapshot_def case_prod_unfold comp_def)
qed

text \<open>No series is cut off by the 256-byte buffer, and the exported sums are the totals of the process.\<close>

lemma metrics_text:
  assumes "0 \<le> pid" "pid < 2 ^ 31"
  shows "render_lib_metrics pid s
    = series_text ''counter'' ''socksdirect_lib_shm_bytes_sent_total'' ''bytes sent through the SHM data plane''
        (total_of shm_bytes_sent_closed c_bytes_sent s) pid
    @ series_text ''counter'' ''socksdirect_lib_shm_bytes_recv_total'' ''bytes received through the SHM data plane''
        (total_of shm_bytes_recv_closed c_bytes_recv s) pid
    @ series_text ''counter'' ''socksdirect_lib_shm_ring_full_blocks_total'' ''send blocked because the SHM ring was full''
        (total_of shm_ring_full_closed c_ring_full s) pid
    @ series_text ''counter'' ''socksdirect_lib_shm_ring_empty_blocks_total'' ''recv blocked because the SHM ring was empty''
        (total_of shm_ring_empty_closed c_ring_empty s) pid
    @ series_text ''counter'' ''socksdirect_lib_shm_conns_total'' ''SHM connections opened by this process'' (shm_conns_total s) pid
    @ series_text ''counter'' ''socksdirect_lib_shm_conn_closed_total'' ''SHM connections closed by this process''
        (shm_conn_closed_total s) pid
    @ series_text ''gauge'' ''socksdirect_lib_shm_conns_live'' ''currently-open SHM connections'' (of_nat (reg_size (registry s))) pid"
proof -
  have t: "live_sum part s + cp s = total_of cp part s" for part cp by (simp add: total_of_def live_sum_list add.commute)
  have n: "of_nat (length (reg_snapshot (registry s))) = (of_nat (reg_size (registry s)) :: u64)"
    by (simp add: reg_snapshot_def reg_size_def)
  note fits = series_fits [OF assms]
  show ?thesis
    unfolding render_lib_metrics_def Let_def emit_counter_def emit_gauge_def t n
    by (subst fits, simp)+ (simp only: append_assoc append_Nil)
qed


section \<open>Atomic replacement\<close>

lemma tmp_neq [simp]: "tmp_of path \<noteq> path" "path \<noteq> tmp_of path"
  by (simp_all add: tmp_of_def)

text \<open>
  The invariant of a dump that runs alone from the file system \<open>F0\<close>: in the write loop the temporary name is the
  only link to the inode that is written, which holds what has been written so far.
\<close>

definition kept :: "string \<Rightarrow> mfs \<Rightarrow> mfs \<Rightarrow> bool" where
  "kept path F0 F \<longleftrightarrow> (\<forall>n j. n \<noteq> tmp_of path \<and> links F0 n = Some j \<longrightarrow> inodes F j = inodes F0 j)"

fun dump_inv :: "string \<Rightarrow> string \<Rightarrow> mfs \<Rightarrow> dump_pc \<Rightarrow> mfs \<Rightarrow> bool" where
  "dump_inv path body F0 D_open F = (F = F0)"
| "dump_inv path body F0 (D_write i done_n) F =
     (links F = (links F0)(tmp_of path \<mapsto> i) \<and> inodes F i = take done_n body \<and> kept path F0 F
      \<and> (\<forall>n. n \<noteq> tmp_of path \<longrightarrow> links F0 n \<noteq> Some i))"
| "dump_inv path body F0 (D_end True) F =
     (\<exists>i. links F = (links F0)(tmp_of path := None, path \<mapsto> i) \<and> inodes F i = body \<and> kept path F0 F)"
| "dump_inv path body F0 (D_end False) F =
     ((F = F0 \<or> links F = (links F0)(tmp_of path := None)) \<and> kept path F0 F)"

lemma open_inv:
  assumes "fs_ok F0" "open_trunc (tmp_of path) F0 = (i, F)"
  shows "dump_inv path body F0 (D_write i 0) F"
proof (cases "links F0 (tmp_of path)")
  case None
  have "links F0 n \<noteq> Some (next_inode F0)" for n using assms(1) by (auto simp: fs_ok_def)
  then show ?thesis using assms(2) None by (auto simp: open_trunc_def kept_def)
next
  case (Some k)
  have "links F0 n \<noteq> Some k" if "n \<noteq> tmp_of path" for n
    using assms(1) Some that unfolding fs_ok_def inj_on_def dom_def by fastforce
  moreover have "links F0 = (links F0)(tmp_of path \<mapsto> k)" using Some by auto
  ultimately show ?thesis using assms(2) Some by (auto simp: open_trunc_def kept_def)
qed

lemma write_inv:
  assumes "dump_inv path body F0 (D_write i done_n) F" "done_n < length body"
  shows "dump_inv path body F0 (D_write i (done_n + n)) (write_at i done_n (take n (drop done_n body)) F)"
proof -
  have c: "inodes F i = take done_n body" using assms by simp
  have "inodes (write_at i done_n (take n (drop done_n body)) F) i = take (done_n + n) body"
    using assms(2) by (simp add: write_at_def Let_def c take_add)
  then show ?thesis using assms(1) by (auto simp: write_at_def Let_def kept_def)
qed

lemma step_inv:
  assumes "fs_ok F0" "dump_inv path body F0 pc F" "dump_step path body r pc F = (pc', F')"
  shows "dump_inv path body F0 pc' F'"
proof (cases pc)
  case D_open
  then show ?thesis using assms open_inv [OF assms(1)] by (auto simp: kept_def split: write_result.splits prod.splits)
next
  case (D_write i done_n)
  show ?thesis
  proof (cases "done_n < length body")
    case True
    then show ?thesis using assms(2,3) D_write write_inv [of path body F0 i done_n F]
      by (auto simp: fs_unlink_def kept_def split: write_result.splits if_splits)
  next
    case False
    then show ?thesis using assms(2,3) D_write
      by (auto simp: fs_rename_def fs_unlink_def kept_def split: write_result.splits)
  qed
qed (use assms in auto)

lemma run_inv:
  "fs_ok F0 \<Longrightarrow> dump_inv path body F0 pc F \<Longrightarrow> dump_run path body rs pc F = (pc', F') \<Longrightarrow> dump_inv path body F0 pc' F'"
  by (induction rs arbitrary: pc F) (auto split: prod.splits dest: step_inv)

text \<open>Results that are not interruptions and write at least a byte bring a dump to its end.\<close>

fun left :: "string \<Rightarrow> dump_pc \<Rightarrow> nat" where
  "left body D_open = length body + 2"
| "left body (D_write i done_n) = length body - done_n + 1"
| "left body (D_end b) = 0"

fun moves :: "write_result \<Rightarrow> bool" where
  "moves (Wrote n) = (0 < n)" | "moves (Write_err e) = (e \<noteq> EINTR)"

lemma step_left: "moves r \<Longrightarrow> dump_step path body r pc F = (pc', F') \<Longrightarrow> left body pc' \<le> left body pc - 1"
  by (cases pc; cases r) (auto split: if_splits prod.splits option.splits)

lemma run_left: "list_all moves rs \<Longrightarrow> dump_run path body rs pc F = (pc', F') \<Longrightarrow> left body pc' \<le> left body pc - length rs"
proof (induction rs arbitrary: pc F)
  case (Cons r rs)
  obtain pc1 F1 where one: "dump_step path body r pc F = (pc1, F1)" by fastforce
  have "left body pc' \<le> left body pc1 - length rs" using Cons one by auto
  also have "\<dots> \<le> (left body pc - 1) - length rs" using step_left [OF _ one] Cons.prems(1) by (intro diff_le_mono) simp
  finally show ?case by simp
qed simp


text \<open>A process without connections and an empty directory; one result is the failure of \<^verbatim>\<open>open\<close>.\<close>

definition plain_state :: lib_state where
  "plain_state = \<lparr>g_active = True, g_in_hook = False, s_env = (\<lambda>_. None), s_config = load_config None,
     fd_table = new_table, monitor_reachable = False, m_socket_total = 0, m_close_total = 0, m_dup_total = 0,
     m_unsupported_total = 0, m_passthrough_total = 0, m_shm_conns = 0, shm_bytes_sent_closed = 5,
     shm_bytes_recv_closed = 0, shm_ring_full_closed = 0, shm_ring_empty_closed = 0, shm_conns_total = 1,
     shm_conn_closed_total = 1, metrics_dir = ''/m'', registry = [], watched = [], heap = (\<lambda>_. new_conn closed_segment 0 0), next_ref = 0\<rparr>"

definition empty_fs :: mfs where
  "empty_fs = \<lparr>links = (\<lambda>_. None), inodes = (\<lambda>_. []), next_inode = 0\<rparr>"


text \<open>
  Two dumps of one process, by the background thread and by \<^verbatim>\<open>close\<close>, share the temporary name. When the second
  one opens it before the first renames it, the renamed file is the truncated one: the reader sees an
  incomplete file.
\<close>

fun dump_two :: "string \<Rightarrow> string \<Rightarrow> string \<Rightarrow> (bool \<times> write_result) list \<Rightarrow> dump_pc \<times> dump_pc \<Rightarrow> mfs \<Rightarrow> (dump_pc \<times> dump_pc) \<times> mfs" where
  "dump_two path b1 b2 [] pcs F = (pcs, F)"
| "dump_two path b1 b2 ((first, r) # rs) (p1, p2) F =
     (if first then case dump_step path b1 r p1 F of (p1', F') \<Rightarrow> dump_two path b1 b2 rs (p1', p2) F'
      else case dump_step path b2 r p2 F of (p2', F') \<Rightarrow> dump_two path b1 b2 rs (p1, p2') F')"

theorem concurrent_dumps_tear:
  "case dump_two ''/m/7.prom'' ''sent 1'' ''sent 2''
     [(True, Wrote 3), (True, Wrote 6), (False, Wrote 4), (False, Wrote 3), (True, Wrote 0)] (D_open, D_open) empty_fs of
     (pcs, F) \<Rightarrow> fst pcs = D_end True \<and> read_file F ''/m/7.prom'' = Some ''sen''"
  by code_simp

end
