(* ===== verification/Preload.thy ===== *)
theory Preload
  imports Metrics_Dump Log_Sink Metrics_Registry
begin

text \<open>
  The start and the end of the preload library in a process, \<^verbatim>\<open>src/lib/preload.cpp\<close>, and the process hooks of
  \<^verbatim>\<open>src/lib/process_api.cpp\<close>. The environment, the files and the results of system calls are arguments.
\<close>

section \<open>Start\<close>

text \<open>The static objects before the constructor runs.\<close>

definition initial_state :: "environment \<Rightarrow> lib_state" where
  "initial_state env = \<lparr>g_active = False, g_in_hook = False, s_env = env, s_config = [],
     fd_table = new_table, monitor_reachable = False, m_socket_total = 0, m_close_total = 0, m_dup_total = 0,
     m_unsupported_total = 0, m_passthrough_total = 0, m_shm_conns = 0, shm_bytes_sent_closed = 0,
     shm_bytes_recv_closed = 0, shm_ring_full_closed = 0, shm_ring_empty_closed = 0, shm_conns_total = 0,
     shm_conn_closed_total = 0, metrics_dir = [], registry = [], watched = [],
     heap = (\<lambda>_. new_conn closed_segment 0 0), next_ref = 0\<rparr>"

definition lib_counters :: "(string \<times> string) list" where
  "lib_counters =
     [(''socksdirect_lib_socket_total'', ''socket(2) calls intercepted by libsd''),
      (''socksdirect_lib_close_total'', ''close(2) calls on libsd-tracked fds''),
      (''socksdirect_lib_dup_total'', ''dup family calls on libsd-tracked fds''),
      (''socksdirect_lib_unsupported_total'', ''calls returning ENOSYS due to UNSUPPORTED status''),
      (''socksdirect_lib_passthrough_total'', ''calls passed through to glibc unchanged'')]"

definition ping_request :: "int \<Rightarrow> CtlRequest" where
  "ping_request pid = \<lparr>req_op = ''ping'', req_args = [take 31 (''lib pid='' @ int_str pid)]\<rparr>"

text \<open>
  The greeting of the monitor: whether it was reached, the bytes sent and the events; \<open>None\<close> is a call that blocks
  for ever. The result of the write and the answer are ignored.
\<close>

definition greet :: "errno + int \<Rightarrow> errno option \<Rightarrow> write_result list \<Rightarrow> read_result list \<Rightarrow> string \<Rightarrow> int
    \<Rightarrow> (bool \<times> string \<times> sock_event list) option" where
  "greet sock_res conn_err ws rs path pid =
     (case connect_unix sock_res conn_err path of
        (Inl e, ev) \<Rightarrow> Some (False, [], ev)
      | (Inr fd, ev) \<Rightarrow>
          (case write_all ws (encode_request (ping_request pid)) [] of None \<Rightarrow> None
           | Some ((_, bytes), _) \<Rightarrow>
               (case read_line rs [] of None \<Rightarrow> None | Some _ \<Rightarrow> Some (True, bytes, ev @ [Close_fd fd]))))"

record 'd boot =
  b_logger :: Logger
  b_state :: lib_state
  b_metrics :: "'d MetricsRegistry"
  b_started :: bool
  b_mkdir :: "string option"
  b_thread :: bool
  b_sent :: string
  b_events :: "sock_event list"

text \<open>\<open>fopn\<close> is what opening the log file gives and \<open>started\<close> the flag of the metrics thread.\<close>

definition preload_init :: "'d dbl \<Rightarrow> environment \<Rightarrow> (string \<Rightarrow> string option) \<Rightarrow> (string \<Rightarrow> FILEp option) \<Rightarrow> int
    \<Rightarrow> errno + int \<Rightarrow> errno option \<Rightarrow> write_result list \<Rightarrow> read_result list \<Rightarrow> 'd MetricsRegistry \<Rightarrow> bool \<Rightarrow> 'd boot option" where
  "preload_init D env files fopn pid sock_res conn_err ws rs R started =
     (let logger = configure_from_env new_logger env fopn;
          cfg = load_default env files;
          R1 = foldl (\<lambda>R (name, help). reg_counter D name help [] R) R lib_counters;
          path = get_string env cfg ''monitor'' ''control_socket'' kMonitorCtlSocketDefault
      in case greet sock_res conn_err ws rs path pid of None \<Rightarrow> None
         | Some (reached, bytes, ev) \<Rightarrow>
             (let mdir = (case env ''SOCKSDIRECT_LIB_METRICS_DIR'' of Some d \<Rightarrow> d
                          | None \<Rightarrow> get_string env cfg ''monitor'' ''lib_metrics_dir'' ''/run/socksdirect/lib-metrics'');
                  s = (initial_state env)\<lparr>s_config := cfg, monitor_reachable := reached, metrics_dir := mdir\<rparr>;
                  (started', made, thread) = ensure_metrics_dumper_started started s
              in Some \<lparr>b_logger = logger, b_state = s\<lparr>g_active := True\<rparr>, b_metrics = R1, b_started = started',
                       b_mkdir = made, b_thread = thread, b_sent = bytes, b_events = ev\<rparr>))"

definition preload_fini :: "lib_state \<Rightarrow> lib_state" where
  "preload_fini s = s\<lparr>g_active := False\<rparr>"


section \<open>Processes\<close>

text \<open>
  \<^verbatim>\<open>fork\<close> gives each process the library's memory as it was; the hook only logs. \<open>pid\<close> is the child's id, or an
  error. The result is what the call returns in the parent and in the child, with the state each has.
\<close>

definition fork_hook :: "int \<Rightarrow> lib_state \<Rightarrow> (int \<times> lib_state) \<times> (int \<times> lib_state) option" where
  "fork_hook pid s = ((pid, s), if pid < 0 then None else Some (0, s))"

definition vfork_hook :: "int \<Rightarrow> int" where
  "vfork_hook pid = pid"

definition sigaction_hook :: "int \<Rightarrow> lib_state \<Rightarrow> int" where
  "sigaction_hook rc s = rc"


section \<open>What the start guarantees\<close>

lemma connect_unix_balance:
  "connect_unix sock_res conn_err path = (r, ev) \<Longrightarrow>
     (case r of Inl e \<Rightarrow> count_list ev (Close_fd fd) = (if sock_res = Inr fd then 1 else 0)
      | Inr fd' \<Rightarrow> sock_res = Inr fd' \<and> count_list ev (Close_fd fd) = 0)"
  by (auto simp: connect_unix_def split: sum.splits if_splits option.splits)

lemma greet_balance:
  "greet sock_res conn_err ws rs path pid = Some (reached, bytes, ev) \<Longrightarrow>
     count_list ev (Close_fd fd) = (if sock_res = Inr fd then 1 else 0)
     \<and> reached = (\<exists>fd'. fst (connect_unix sock_res conn_err path) = Inr fd')"
  using connect_unix_balance [of sock_res conn_err path _ _ fd]
  by (auto simp: greet_def split: sum.splits prod.splits option.splits)

lemma reg_counter_keys: "map_find (counters (reg_counter D name help ls R)) n \<noteq> None \<longleftrightarrow> n = name \<or> map_find (counters R) n \<noteq> None"
  by (simp add: reg_counter_def Let_def map_find_put del: not_None_eq)

lemma fold_counter_keys:
  "map_find (counters (foldl (\<lambda>R (name, help). reg_counter D name help [] R) R cs)) n \<noteq> None
     \<longleftrightarrow> n \<in> fst ` set cs \<or> map_find (counters R) n \<noteq> None"
proof (induction cs arbitrary: R)
  case (Cons c cs)
  obtain nm hp where c: "c = (nm, hp)" by (cases c)
  show ?case unfolding c foldl.simps prod.case Cons.IH reg_counter_keys by auto
qed simp




section \<open>Sharing a connection over a fork\<close>

text \<open>
  Parent and child share a connection's segment, but the count of its users does not know of the child. When one of
  the two closes its copy of the descriptor, the peer's inbound ring is marked closed although the
  other still has the connection open.
\<close>

theorem fork_then_close_cuts:
  assumes "fork_hook pid s = ((pid, s1), Some (0, s2))" "hooked s1" "reg_lookup (registry s1) fd = Some p"
    "find_vfd (fd_table s1) fd = Some v" "0 \<le> v" "fd_free (fd_table s1) v = Some (0, T)"
    "\<not> referenced (s1\<lparr>registry := map_erase fd (registry s1)\<rparr>) p"
    "base (c_segment (heap s1 p)) = Some i" "close_hook rc fd s1 W = Some (r, called, s1', W')"
  shows "open_conn s2 fd = Some p
    \<and> peer_closed (ring_outbound (seg_role (c_segment (heap s2 p))) (objs W' i))
    \<and> h_refcount (objs W' i) = h_refcount (objs W i) - 1"
proof -
  have s: "s1 = s" "s2 = s" using assms(1) by (auto simp: fork_hook_def split: if_splits)
  have "referenced (fold_closed c (x\<lparr>fd_table := T, m_close_total := k, registry := R\<rparr>)) p = referenced (x\<lparr>registry := R\<rparr>) p" for c x k R
    by (simp add: referenced_def fold_closed_def)
  then have "W' = snd (close_segment (c_segment (heap s p)) W)"
    using assms(2-9) unfolding s
    by (auto simp: close_hook_def reg_remove_def reg_lookup_def release_ref_def fold_closed_def Let_def split: prod.splits)
  moreover have "open_conn s fd = Some p"
    using assms(3,8) unfolding s by (simp add: open_conn_def is_open_def)
  moreover have "h_refcount (set_ring_outbound role x y) = h_refcount y" "h_refcount (bump_outbound role y) = h_refcount y"
    "ring_outbound role (set_ring_outbound role x y) = x" "ring_outbound role (bump_outbound role y) = ring_outbound role y"
    "ring_outbound role (y\<lparr>h_refcount := n\<rparr>) = ring_outbound role y" for role x y n
    by (cases role; simp add: set_ring_outbound_def bump_outbound_def ring_outbound_def)+
  ultimately show ?thesis using assms(8) unfolding s
    by (simp add: close_segment_def Let_def mark_closed_contents)
qed

end
