(* ===== verification/Ctl_Tool.thy ===== *)
theory Ctl_Tool
  imports Monitor_Ipc Config_File
begin

text \<open>
  The command-line tool \<^verbatim>\<open>tools/socksdirect-ctl.cpp\<close>: its argument parser, and the exchange of one request and
  one answer. Its result is the exit code and the text it prints, in order. The text of an error number
  (\<^verbatim>\<open>strerror\<close>) is an argument.
\<close>

datatype ctl_out = Stdout string | Stderr string

definition usage_text :: string where
  "usage_text = concat (map (\<lambda>l. l @ [newline])
     [''usage: socksdirect-ctl [--socket PATH] <op> [args...]'',
      '''',
      ''Common ops:'',
      ''  status                 monitor pid, uptime, transport summary'',
      ''  connections            list active intercepted connections'',
      ''  dump-state             verbose internal state'',
      ''  reload                 re-read /etc/socksdirect/socksdirect.conf'',
      ''  drain                  stop accepting new clients'',
      '''',
      ''Options:'',
      ''  --socket PATH          override default control socket path'',
      ''  --help                 show this help''])"

text \<open>The loop over the arguments: an exit with its output, or the socket path and the request.\<close>

fun parse_ctl :: "string list \<Rightarrow> string \<Rightarrow> CtlRequest \<Rightarrow> (nat \<times> ctl_out list) + (string \<times> CtlRequest)" where
  "parse_ctl [] path req =
     (if req_op req = [] then Inl (2, [Stderr usage_text]) else Inr (path, req))"
| "parse_ctl (a # as) path req =
     (if a = ''--help'' \<or> a = ''-h'' then Inl (0, [Stdout usage_text])
      else if a = ''--socket''
      then (case as of [] \<Rightarrow> Inl (2, [Stderr (''socksdirect-ctl: --socket needs an argument'' @ [newline])])
            | p # as' \<Rightarrow> parse_ctl as' p req)
      else if a \<noteq> [] \<and> hd a = CHR ''-''
      then Inl (2, [Stderr (''socksdirect-ctl: unknown flag: '' @ a @ [newline]), Stderr usage_text])
      else if req_op req = [] then parse_ctl as path (req\<lparr>req_op := a\<rparr>)
      else parse_ctl as path (req\<lparr>req_args := req_args req @ [a]\<rparr>))"

definition exit_4 :: "string \<Rightarrow> nat \<times> ctl_out list" where
  "exit_4 text = (4, [Stderr (''socksdirect-ctl: '' @ text @ [newline])])"

text \<open>
  \<^verbatim>\<open>run_request\<close>: exit code and output, the bytes sent and the socket events. \<open>None\<close> is a call that blocks for ever;
  \<open>write_text\<close> is the error text of a failed write.
\<close>

definition run_request :: "(errno \<Rightarrow> string) \<Rightarrow> string \<Rightarrow> errno + int \<Rightarrow> errno option \<Rightarrow> write_result list \<Rightarrow> read_result list
    \<Rightarrow> string \<Rightarrow> CtlRequest \<Rightarrow> ((nat \<times> ctl_out list) \<times> string \<times> sock_event list) option" where
  "run_request strerror write_text sock_res conn_err ws rs path req =
     (case connect_unix sock_res conn_err path of
        (Inl e, ev) \<Rightarrow> Some ((3, [Stderr (''socksdirect-ctl: cannot connect to '' @ c_str path @ '': '' @ strerror e @ [newline]),
           Stderr (''  Is socksdirect-monitor running?  Set SOCKSDIRECT_CTL_SOCKET'' @ [newline]
             @ ''  or pass --socket to point at the right path.'' @ [newline])]), [], ev)
      | (Inr fd, ev) \<Rightarrow>
          (case write_all ws (encode_request req) [] of None \<Rightarrow> None
           | Some ((ok, bytes), _) \<Rightarrow>
               if \<not> ok then Some (exit_4 (''write failed: '' @ write_text), bytes, ev @ [Close_fd fd])
               else (case read_line rs [] of None \<Rightarrow> None
                 | Some ((line, _), _) \<Rightarrow>
                     Some (if line = [] then exit_4 ''monitor closed the connection without responding''
                           else case decode_response line of
                               None \<Rightarrow> exit_4 (''malformed response from monitor: '' @ c_str line)
                             | Some resp \<Rightarrow>
                                 if \<not> resp_ok resp then (1, [Stderr (c_str (resp_error resp) @ [newline])])
                                 else (0, map (\<lambda>l. Stdout (c_str l @ [newline])) (resp_lines resp)),
                           bytes, ev @ [Close_fd fd]))))"

definition ctl_path :: "environment \<Rightarrow> string" where
  "ctl_path env = (case env ''SOCKSDIRECT_CTL_SOCKET'' of Some p \<Rightarrow> p | None \<Rightarrow> kMonitorCtlSocketDefault)"

definition ctl_main :: "(errno \<Rightarrow> string) \<Rightarrow> string \<Rightarrow> environment \<Rightarrow> errno + int \<Rightarrow> errno option \<Rightarrow> write_result list \<Rightarrow> read_result list
    \<Rightarrow> string list \<Rightarrow> ((nat \<times> ctl_out list) \<times> string \<times> sock_event list) option" where
  "ctl_main strerror write_text env sock_res conn_err ws rs argv =
     (case parse_ctl argv (ctl_path env) \<lparr>req_op = [], req_args = []\<rparr> of
        Inl out \<Rightarrow> Some (out, [], [])
      | Inr (path, req) \<Rightarrow> run_request strerror write_text sock_res conn_err ws rs path req)"


section \<open>Arguments\<close>

text \<open>An operation and its arguments, none of them a flag, are taken as they are, after an optional socket.\<close>

definition plain_arg :: "string \<Rightarrow> bool" where
  "plain_arg a \<longleftrightarrow> a = [] \<or> hd a \<noteq> CHR ''-''"

lemma plain_arg_flags: "plain_arg a \<Longrightarrow> a \<noteq> ''--help'' \<and> a \<noteq> ''-h'' \<and> a \<noteq> ''--socket'' \<and> \<not> (a \<noteq> [] \<and> hd a = CHR ''-'')"
  by (auto simp: plain_arg_def)

lemma parse_args_plain:
  "list_all plain_arg as \<Longrightarrow> o1 \<noteq> [] \<Longrightarrow>
     parse_ctl as path \<lparr>req_op = o1, req_args = xs\<rparr> = Inr (path, \<lparr>req_op = o1, req_args = xs @ as\<rparr>)"
proof (induction as arbitrary: xs)
  case (Cons a as)
  then show ?case using plain_arg_flags [of a] by (subst parse_ctl.simps) simp
qed simp

lemma parse_ctl_plain:
  assumes "plain_arg o1" "o1 \<noteq> []" "list_all plain_arg as"
  shows "parse_ctl (o1 # as) path \<lparr>req_op = [], req_args = []\<rparr> = Inr (path, \<lparr>req_op = o1, req_args = as\<rparr>)"
    and "parse_ctl (''--socket'' # p # o1 # as) path \<lparr>req_op = [], req_args = []\<rparr> = Inr (p, \<lparr>req_op = o1, req_args = as\<rparr>)"
  using plain_arg_flags [OF assms(1)] parse_args_plain [OF assms(3,2), of _ "[]"] assms(2)
  by (auto simp: parse_ctl.simps(2))

end
