(* ===== verification/Futex_Wait.thy ===== *)
theory Futex_Wait
  imports Shm_Segment
begin

text \<open>
  Sleeping and waking: the producer of a ring publishes bytes, bumps the direction's wake counter and wakes the futex
  (\<^verbatim>\<open>shm_send\<close>, and \<^verbatim>\<open>ShmSegment::close\<close> for the end of the stream); the consumer samples the counter, looks at the
  ring once more and waits (\<^verbatim>\<open>shm_recv\<close>). Every access is a step, the steps of the two processes interleave in any
  order, and the kernel's comparison of the counter with the sampled value is one step with falling
  asleep. The counter has 32 bits and wraps. A ghost field counts the bumps since the consumer's last sample.
\<close>

section \<open>The machine\<close>

datatype prod_wait = PW_run | PW_published | PW_bumped | PW_closing | PW_closing_bumped | PW_gone

datatype cons_wait = CW_run | CW_sampled u32 | CW_empty u32 | CW_checked u32 | CW_asleep

record waiting =
  w_seg :: segment
  w_ppc :: prod_wait
  w_cpc :: cons_wait
  since :: nat

fun other_role :: "SegRole \<Rightarrow> SegRole" where
  "other_role kRoleCreator = kRoleJoiner" | "other_role kRoleJoiner = kRoleCreator"

definition bump :: "SegRole \<Rightarrow> waiting \<Rightarrow> waiting" where
  "bump role s = s\<lparr>w_seg := bump_outbound role (w_seg s), since := since s + 1\<rparr>"

definition wake_up :: "waiting \<Rightarrow> waiting" where
  "wake_up s = (if w_cpc s = CW_asleep then s\<lparr>w_cpc := CW_run\<rparr> else s)"

text \<open>\<open>role\<close> is the producer's.\<close>

inductive wait_step :: "SegRole \<Rightarrow> waiting \<Rightarrow> waiting \<Rightarrow> bool" for role where
  w_publish: "w_ppc s = PW_run \<Longrightarrow> length buf < 2 ^ 64 \<Longrightarrow> send_some (ring_outbound role (w_seg s)) buf = Some (did, r) \<Longrightarrow> did > 0 \<Longrightarrow>
     wait_step role s (s\<lparr>w_seg := set_ring_outbound role r (w_seg s), w_ppc := PW_published\<rparr>)"
| w_bump: "w_ppc s = PW_published \<Longrightarrow> wait_step role s ((bump role s)\<lparr>w_ppc := PW_bumped\<rparr>)"
| w_wake: "w_ppc s = PW_bumped \<Longrightarrow> wait_step role s ((wake_up s)\<lparr>w_ppc := PW_run\<rparr>)"
| w_close: "w_ppc s = PW_run \<Longrightarrow>
     wait_step role s (s\<lparr>w_seg := set_ring_outbound role (mark_closed (ring_outbound role (w_seg s))) (w_seg s), w_ppc := PW_closing\<rparr>)"
| w_close_bump: "w_ppc s = PW_closing \<Longrightarrow> wait_step role s ((bump role s)\<lparr>w_ppc := PW_closing_bumped\<rparr>)"
| w_close_wake: "w_ppc s = PW_closing_bumped \<Longrightarrow> wait_step role s ((wake_up s)\<lparr>w_ppc := PW_gone\<rparr>)"
| w_recv: "w_cpc s = CW_run \<Longrightarrow> recv_some (ring_inbound (other_role role) (w_seg s)) n = Some (did, bytes, r) \<Longrightarrow>
     wait_step role s (s\<lparr>w_seg := set_ring_inbound (other_role role) r (w_seg s)\<rparr>)"
| w_sample: "w_cpc s = CW_run \<Longrightarrow>
     wait_step role s (s\<lparr>w_cpc := CW_sampled (wake_inbound (other_role role) (w_seg s)), since := 0\<rparr>)"
| w_look: "w_cpc s = CW_sampled v \<Longrightarrow>
     wait_step role s (s\<lparr>w_cpc := if readable (ring_inbound (other_role role) (w_seg s)) > 0 then CW_run else CW_empty v\<rparr>)"
| w_look_closed: "w_cpc s = CW_empty v \<Longrightarrow>
     wait_step role s (s\<lparr>w_cpc := if peer_closed (ring_inbound (other_role role) (w_seg s)) then CW_run else CW_checked v\<rparr>)"
| w_wait: "w_cpc s = CW_checked v \<Longrightarrow>
     wait_step role s (s\<lparr>w_cpc := if wake_inbound (other_role role) (w_seg s) = v then CW_asleep else CW_run\<rparr>)"
| w_timeout: "w_cpc s = CW_asleep \<Longrightarrow> wait_step role s (s\<lparr>w_cpc := CW_run\<rparr>)"

text \<open>A segment whose ring is well-formed, empty and not closed, with any value of the counter.\<close>

definition wait_init :: "SegRole \<Rightarrow> segment \<Rightarrow> waiting" where
  "wait_init role g = \<lparr>w_seg = g, w_ppc = PW_run, w_cpc = CW_run, since = 0\<rparr>"

definition fresh_ring :: "shm_ring \<Rightarrow> bool" where
  "fresh_ring r \<longleftrightarrow> ring_wf r \<and> contents r = [] \<and> \<not> peer_closed r \<and> capacity r < 2 ^ 31"


section \<open>The invariant\<close>

lemma role_frame [simp]:
  "ring_inbound (other_role role) g = ring_outbound role g"
  "wake_inbound (other_role role) g = wake_outbound role g"
  "set_ring_inbound (other_role role) r g = set_ring_outbound role r g"
  "ring_outbound role (set_ring_outbound role r g) = r"
  "wake_outbound role (set_ring_outbound role r g) = wake_outbound role g"
  "ring_outbound role (bump_outbound role g) = ring_outbound role g"
  "wake_outbound role (bump_outbound role g) = wake_outbound role g + 1"
  by (cases role; simp add: ring_inbound_def ring_outbound_def wake_inbound_def wake_outbound_def
      set_ring_inbound_def set_ring_outbound_def bump_outbound_def)+

abbreviation w_ring :: "SegRole \<Rightarrow> waiting \<Rightarrow> shm_ring" where
  "w_ring role s \<equiv> ring_outbound role (w_seg s)"

text \<open>There is something for the consumer to see.\<close>

definition news :: "SegRole \<Rightarrow> waiting \<Rightarrow> bool" where
  "news role s \<longleftrightarrow> contents (w_ring role s) \<noteq> [] \<or> peer_closed (w_ring role s)"

fun pending_bump :: "prod_wait \<Rightarrow> nat" where
  "pending_bump PW_published = 1" | "pending_bump PW_closing = 1" | "pending_bump _ = 0"

fun wake_coming :: "prod_wait \<Rightarrow> bool" where
  "wake_coming PW_run = False" | "wake_coming PW_gone = False" | "wake_coming _ = True"

fun closing :: "prod_wait \<Rightarrow> bool" where
  "closing PW_closing = True" | "closing PW_closing_bumped = True" | "closing PW_gone = True" | "closing _ = False"

text \<open>
  Between its sample and its sleep the consumer takes nothing out of the ring, so that the producer can publish, and hence
  bump the counter, at most once per free byte: the counter cannot come round to the sampled value.
\<close>

definition sampled_ok :: "SegRole \<Rightarrow> u32 \<Rightarrow> waiting \<Rightarrow> bool" where
  "sampled_ok role v s \<longleftrightarrow> wake_outbound role (w_seg s) = v + of_nat (since s)
     \<and> since s + pending_bump (w_ppc s)
         \<le> length (contents (w_ring role s)) + 1 + (if peer_closed (w_ring role s) then 1 else 0)"

definition told :: "waiting \<Rightarrow> bool" where
  "told s \<longleftrightarrow> pending_bump (w_ppc s) = 1 \<or> 1 \<le> since s"

fun cons_wait_ok :: "SegRole \<Rightarrow> waiting \<Rightarrow> cons_wait \<Rightarrow> bool" where
  "cons_wait_ok role s CW_run = True"
| "cons_wait_ok role s (CW_sampled v) = sampled_ok role v s"
| "cons_wait_ok role s (CW_empty v) = (sampled_ok role v s \<and> (contents (w_ring role s) \<noteq> [] \<longrightarrow> told s))"
| "cons_wait_ok role s (CW_checked v) = (sampled_ok role v s \<and> (news role s \<longrightarrow> told s))"
| "cons_wait_ok role s CW_asleep = (news role s \<longrightarrow> wake_coming (w_ppc s))"

definition wait_inv :: "SegRole \<Rightarrow> waiting \<Rightarrow> bool" where
  "wait_inv role s \<longleftrightarrow> ring_wf (w_ring role s) \<and> capacity (w_ring role s) < 2 ^ 31
     \<and> (peer_closed (w_ring role s) \<longleftrightarrow> closing (w_ppc s)) \<and> cons_wait_ok role s (w_cpc s)"

lemma pending_wakes: "0 < pending_bump p \<Longrightarrow> wake_coming p"
  by (cases p) auto

lemma pending_le [simp]: "pending_bump p \<le> Suc n"
  by (cases p) auto

lemma waits_only_on_old_value:
  assumes "sampled_ok role v s" "ring_wf (w_ring role s)" "capacity (w_ring role s) < 2 ^ 31"
    "wake_outbound role (w_seg s) = v"
  shows "since s = 0"
proof -
  have "since s < 2 ^ 32"
    using assms(1,3) contents_bounded [OF assms(2)] by (auto simp: sampled_ok_def split: if_splits)
  moreover have "of_nat (since s) = (0 :: u32)" using assms(1,4) by (simp add: sampled_ok_def)
  ultimately show ?thesis using unat_of_nat_small [of "since s", where 'a = 32] by simp
qed

lemma publish_inv:
  assumes "wait_inv role s" "w_ppc s = PW_run" "length buf < 2 ^ 64" "send_some (w_ring role s) buf = Some (did, r)" "did > 0"
  shows "wait_inv role (s\<lparr>w_seg := set_ring_outbound role r (w_seg s), w_ppc := PW_published\<rparr>)"
proof -
  have wf: "ring_wf (w_ring role s)" using assms(1) by (simp add: wait_inv_def)
  obtain n r' where "send_some (w_ring role s) buf = Some (n, r')" "ring_wf r'"
    "unat n = min (length buf) (capacity (w_ring role s) - length (contents (w_ring role s)))"
    "contents r' = contents (w_ring role s) @ take (unat n) buf" "capacity r' = capacity (w_ring role s)"
    "r_closed r' = r_closed (w_ring role s)"
    by (rule send_some_spec [OF wf assms(3)]) blast
  then have r: "ring_wf r" "contents r = contents (w_ring role s) @ take (unat did) buf" "unat did \<le> length buf"
    "capacity r = capacity (w_ring role s)" "peer_closed r = peer_closed (w_ring role s)"
    using assms(4) by (auto simp: peer_closed_def)
  have "1 \<le> unat did" using assms(5) by (simp add: word_less_nat_alt)
  then have "length (contents (w_ring role s)) + 1 \<le> length (contents r)" using r(2,3) by simp
  with r assms(1,2) show ?thesis
    by (cases "w_cpc s") (auto simp: wait_inv_def sampled_ok_def told_def)
qed

lemma recv_inv:
  assumes "wait_inv role s" "w_cpc s = CW_run" "recv_some (w_ring role s) n = Some (did, bytes, r)"
  shows "wait_inv role (s\<lparr>w_seg := set_ring_outbound role r (w_seg s)\<rparr>)"
proof -
  have wf: "ring_wf (w_ring role s)" using assms(1) by (simp add: wait_inv_def)
  obtain m r' where "recv_some (w_ring role s) n = Some (m, take (unat m) (contents (w_ring role s)), r')" "ring_wf r'"
    "capacity r' = capacity (w_ring role s)" "r_closed r' = r_closed (w_ring role s)"
    by (rule recv_some_spec [OF wf, of n]) blast
  then show ?thesis using assms by (auto simp: wait_inv_def peer_closed_def)
qed

lemma wait_step_inv: "wait_step role s s' \<Longrightarrow> wait_inv role s \<Longrightarrow> wait_inv role s'"
proof (induction rule: wait_step.induct)
  case (w_publish s buf did r)
  then show ?case using publish_inv by blast
next
  case (w_recv s n did bytes r)
  then show ?case using recv_inv by simp
next
  case (w_wait s v)
  then show ?case using waits_only_on_old_value [of role v s] by (auto simp: wait_inv_def told_def news_def intro: pending_wakes)
next
  case (w_look s v)
  then show ?case using unat_readable [of "w_ring role s"]
    by (auto simp: wait_inv_def sampled_ok_def word_greater_zero_iff unat_eq_zero)
next
  case (w_bump s)
  then show ?case by (cases "w_cpc s") (auto simp: wait_inv_def bump_def sampled_ok_def told_def news_def)
next
  case (w_close_bump s)
  then show ?case by (cases "w_cpc s") (auto simp: wait_inv_def bump_def sampled_ok_def told_def news_def)
next
  case (w_wake s)
  then show ?case by (cases "w_cpc s") (auto simp: wait_inv_def wake_up_def sampled_ok_def told_def news_def)
next
  case (w_close_wake s)
  then show ?case by (cases "w_cpc s") (auto simp: wait_inv_def wake_up_def sampled_ok_def told_def news_def)
next
  case (w_close s)
  then show ?case by (cases "w_cpc s") (auto simp: wait_inv_def sampled_ok_def told_def news_def mark_closed_frame)
qed (auto simp: wait_inv_def sampled_ok_def news_def told_def split: prod_wait.splits)

text \<open>
  C5. No wake-up is lost. Whatever the interleaving of a producer that sends and finally closes and a consumer that receives
  and sleeps, on a ring of less than 2^31 bytes, a consumer is asleep while the ring holds bytes or is closed
  only for as long as the producer has not yet finished its send or close, whose next one or two steps
  wake the consumer: it never has to rely on its time-out, even though the 32-bit counter wraps.
\<close>

theorem no_lost_wakeup:
  assumes "fresh_ring (ring_outbound role g)" "(wait_step role)\<^sup>*\<^sup>* (wait_init role g) s"
    "w_cpc s = CW_asleep" "readable (ring_outbound role (w_seg s)) > 0 \<or> peer_closed (ring_outbound role (w_seg s))"
  shows "w_ppc s \<in> {PW_published, PW_bumped, PW_closing, PW_closing_bumped}
    \<and> (\<exists>s'. (wait_step role s s' \<or> (\<exists>s1. wait_step role s s1 \<and> w_cpc s1 = CW_asleep \<and> wait_step role s1 s'))
          \<and> w_cpc s' = CW_run \<and> w_ppc s' \<in> {PW_run, PW_gone}
          \<and> ring_outbound role (w_seg s') = ring_outbound role (w_seg s))"
proof -
  have "wait_inv role s"
    using assms(2)
  proof (induction rule: rtranclp_induct)
    case base
    then show ?case using assms(1) by (simp add: wait_inv_def wait_init_def fresh_ring_def)
  next
    case (step s1 s2)
    then show ?case using wait_step_inv by blast
  qed
  moreover have "news role s"
    using assms(4) unat_readable [of "w_ring role s"] by (auto simp: news_def word_less_nat_alt)
  ultimately have wc: "wake_coming (w_ppc s)" using assms(3) by (simp add: wait_inv_def)
  have one: "\<exists>s'. wait_step role t s' \<and> w_cpc s' = CW_run \<and> w_ppc s' \<in> {PW_run, PW_gone} \<and> w_ring role s' = w_ring role t"
    if "w_cpc t = CW_asleep" "w_ppc t \<in> {PW_bumped, PW_closing_bumped}" for t
    using that wait_step.w_wake [of t role] wait_step.w_close_wake [of t role] by (auto simp: wake_up_def)
  show ?thesis
  proof (cases "w_ppc s \<in> {PW_bumped, PW_closing_bumped}")
    case True
    then show ?thesis using one [OF assms(3)] by auto
  next
    case False
    then have p: "w_ppc s \<in> {PW_published, PW_closing}" using wc by (cases "w_ppc s") auto
    obtain s1 where s1: "wait_step role s s1" "w_cpc s1 = CW_asleep" "w_ppc s1 \<in> {PW_bumped, PW_closing_bumped}"
      "w_ring role s1 = w_ring role s"
      using p wait_step.w_bump [of s role] wait_step.w_close_bump [of s role] assms(3) by (auto simp: bump_def)
    show ?thesis using one [OF s1(2,3)] s1 p by auto
  qed
qed

text \<open>The consumer sleeps on an empty segment; the producer publishes a byte.\<close>

definition small_ring :: shm_ring where
  "small_ring = \<lparr>r_tail = 0, r_closed = 0, r_head = 0, r_data = replicate 4096 0\<rparr>"

definition small_segment :: segment where
  "small_segment = zero_segment\<lparr>ring_c2j := small_ring, h_wake_c2j := - 1\<rparr>"

lemma small_fresh: "fresh_ring (ring_outbound kRoleCreator small_segment)"
proof -
  have "ring_static_ok small_ring" by (simp add: ring_static_ok_def kCapacity_def small_ring_def)
  then have "ring_wf small_ring" by (simp add: ring_wf_def small_ring_def kCapacity_def)
  then show ?thesis
    by (simp add: fresh_ring_def ring_outbound_def small_segment_def contents_def peer_closed_def capacity_def small_ring_def)
qed

theorem no_lost_wakeup_witness:
  "\<exists>s (s' :: waiting). (wait_step kRoleCreator)\<^sup>*\<^sup>* (wait_init kRoleCreator small_segment) s \<and> w_cpc s = CW_asleep
     \<and> readable (ring_outbound kRoleCreator (w_seg s)) > 0 \<and> w_cpc s' = CW_run
     \<and> ring_outbound kRoleCreator (w_seg s') = ring_outbound kRoleCreator (w_seg s)"
proof -
  let ?R = "kRoleCreator" and ?g = "small_segment"
  let ?r = "ring_outbound ?R ?g" and ?v = "wake_outbound ?R ?g"
  let ?st = "\<lambda>c. \<lparr>w_seg = ?g, w_ppc = PW_run, w_cpc = c, since = 0\<rparr>"
  have wf: "ring_wf ?r" "contents ?r = []" "\<not> peer_closed ?r" using small_fresh by (simp_all add: fresh_ring_def)
  have e: "readable ?r = 0" using unat_readable [of ?r] wf(2) by (simp add: unat_eq_zero)
  have "wait_step ?R (wait_init ?R ?g) (?st (CW_sampled ?v))"
    using wait_step.w_sample [of "wait_init ?R ?g" ?R] by (simp add: wait_init_def del: other_role.simps)
  moreover have "wait_step ?R (?st (CW_sampled ?v)) (?st (CW_empty ?v))"
    using wait_step.w_look [of "?st (CW_sampled ?v)" ?v ?R] by (simp add: e del: other_role.simps)
  moreover have "wait_step ?R (?st (CW_empty ?v)) (?st (CW_checked ?v))"
    using wait_step.w_look_closed [of "?st (CW_empty ?v)" ?v ?R] wf(3) by (simp del: other_role.simps)
  moreover have "wait_step ?R (?st (CW_checked ?v)) (?st CW_asleep)"
    using wait_step.w_wait [of "?st (CW_checked ?v)" ?v ?R] by (simp del: other_role.simps)
  ultimately have run: "(wait_step ?R)\<^sup>*\<^sup>* (wait_init ?R ?g) (?st CW_asleep)"
    by (meson converse_rtranclp_into_rtranclp rtranclp.rtrancl_refl)
  have cap: "capacity ?r = 4096" by (simp add: ring_outbound_def small_segment_def capacity_def small_ring_def)
  have short: "length [7 :: u8] < 2 ^ 64" by simp
  obtain n r' where s: "send_some ?r [7] = Some (n, r')" "unat n = min (length [7 :: u8]) (capacity ?r - length (contents ?r))"
    "contents r' = contents ?r @ take (unat n) [7]"
    by (rule send_some_spec [OF wf(1) short]) blast
  then have n: "unat n = 1" using cap wf(2) by simp
  let ?s = "(?st CW_asleep)\<lparr>w_seg := set_ring_outbound ?R r' ?g, w_ppc := PW_published\<rparr>"
  have "wait_step ?R (?st CW_asleep) ?s"
    using wait_step.w_publish [of "?st CW_asleep" "[7]" ?R n r'] s(1) n by (simp add: word_less_nat_alt)
  with run have run2: "(wait_step ?R)\<^sup>*\<^sup>* (wait_init ?R ?g) ?s" by (rule rtranclp.rtrancl_into_rtrancl)
  have "length (contents r') = 1" using s(3) n wf(2) by simp
  then have rd: "readable (ring_outbound ?R (w_seg ?s)) > 0" using unat_readable [of r'] by (simp add: word_less_nat_alt)
  have a: "w_cpc ?s = CW_asleep" by simp
  from no_lost_wakeup [OF small_fresh run2 a disjI1 [OF rd]] obtain s' :: waiting where
    "w_cpc s' = CW_run" "ring_outbound ?R (w_seg s') = ring_outbound ?R (w_seg ?s)" by blast
  with run2 a rd show ?thesis by blast
qed

end
