(* ===== verification/Rdma_Conn.thy ===== *)
theory Rdma_Conn
  imports C_Strings "HOL-Library.Multiset"
begin

text \<open>
  The RDMA plumbing: the queue-pair descriptor that two hosts exchange as text
  (\<^verbatim>\<open>include/socksdirect/rdma/qp_info.hpp\<close>) and the set-up and tear-down of verbs context and connection
  (\<^verbatim>\<open>src/lib/rdma/conn.cpp\<close>, the build with ibverbs). Results of the verbs library are arguments, resources are
  handles, and what is acquired and released is a list of events. Structures are laid out little-endian.
\<close>

section \<open>Queue-pair descriptors\<close>

record QpInfo =
  q_qp_num :: u32
  q_lid :: u16
  q_pad0 :: u16
  q_gid :: "u8 list"
  q_rkey :: u32
  q_pad1 :: u32
  q_remote_addr :: u64
  q_mtu :: u32
  q_reserved :: "u8 list"

text \<open>The bytes of an integer, and the integer of bytes, lowest first.\<close>

definition le_bytes :: "nat \<Rightarrow> ('a::len) word \<Rightarrow> u8 list" where
  "le_bytes n w = map (\<lambda>i. ucast (drop_bit (8 * i) w)) [0..<n]"

definition le_word :: "u8 list \<Rightarrow> ('a::len) word" where
  "le_word bs = foldr (\<lambda>b acc. or (push_bit 8 acc) (ucast b)) bs 0"

definition qp_bytes :: "QpInfo \<Rightarrow> u8 list" where
  "qp_bytes q = le_bytes 4 (q_qp_num q) @ le_bytes 2 (q_lid q) @ le_bytes 2 (q_pad0 q) @ q_gid q @ le_bytes 4 (q_rkey q)
     @ le_bytes 4 (q_pad1 q) @ le_bytes 8 (q_remote_addr q) @ le_bytes 4 (q_mtu q) @ q_reserved q"

definition qp_of_bytes :: "u8 list \<Rightarrow> QpInfo" where
  "qp_of_bytes bs = \<lparr>q_qp_num = le_word (take 4 bs), q_lid = le_word (take 2 (drop 4 bs)), q_pad0 = le_word (take 2 (drop 6 bs)),
     q_gid = take 16 (drop 8 bs), q_rkey = le_word (take 4 (drop 24 bs)), q_pad1 = le_word (take 4 (drop 28 bs)),
     q_remote_addr = le_word (take 8 (drop 32 bs)), q_mtu = le_word (take 4 (drop 40 bs)), q_reserved = take 20 (drop 44 bs)\<rparr>"

text \<open>The C++ type fixes the lengths of the two arrays.\<close>

definition qp_ok :: "QpInfo \<Rightarrow> bool" where
  "qp_ok q \<longleftrightarrow> length (q_gid q) = 16 \<and> length (q_reserved q) = 20"

definition hex_digit :: "u8 \<Rightarrow> char" where
  "hex_digit d = digit_char (unat d)"

definition encode_qp_info :: "QpInfo \<Rightarrow> string" where
  "encode_qp_info q = concat (map (\<lambda>b. [hex_digit (drop_bit 4 b), hex_digit (and b 0xf)]) (qp_bytes q))"

text \<open>The loop of the decoder on the characters and the bytes of the output object still to be written.\<close>

fun decode_bytes :: "string \<Rightarrow> u8 list \<Rightarrow> bool \<times> u8 list" where
  "decode_bytes (h # l # s) (b # bs) =
     (case (hexval h, hexval l) of
        (Some hi, Some lo) \<Rightarrow> (case decode_bytes s bs of (ok, bs') \<Rightarrow> (ok, or (push_bit 4 (of_nat hi)) (of_nat lo) # bs'))
      | _ \<Rightarrow> (False, b # bs))"
| "decode_bytes _ bs = (True, bs)"

definition decode_qp_info :: "string \<Rightarrow> QpInfo \<Rightarrow> bool \<times> QpInfo" where
  "decode_qp_info s out =
     (if length s \<noteq> 128 then (False, out)
      else case decode_bytes s (qp_bytes out) of (ok, bs) \<Rightarrow> (ok, qp_of_bytes bs))"


section \<open>The verbs context\<close>

datatype resource = R_list nat | R_ctx nat | R_pd nat | R_cq nat | R_mr nat | R_qp nat

datatype verbs_event = Acquire resource | Release resource

record Verbs =
  v_ctx :: "nat option"
  v_pd :: "nat option"
  v_cq :: "nat option"

definition new_verbs :: Verbs where
  "new_verbs = \<lparr>v_ctx = None, v_pd = None, v_cq = None\<rparr>"

definition release_opt :: "(nat \<Rightarrow> resource) \<Rightarrow> nat option \<Rightarrow> verbs_event list" where
  "release_opt f r = (case r of None \<Rightarrow> [] | Some x \<Rightarrow> [Release (f x)])"

definition verbs_destroy :: "Verbs \<Rightarrow> verbs_event list" where
  "verbs_destroy V = release_opt R_cq (v_cq V) @ release_opt R_pd (v_pd V) @ release_opt R_ctx (v_ctx V)"

text \<open>
  \<^verbatim>\<open>Verbs::open\<close>: \<open>devs\<close> is the device list with its handle, \<open>ctx\<close>, \<open>pd\<close> and \<open>cq\<close> what opening the device, allocating the domain and
  creating the completion queue return.
\<close>

definition verbs_open :: "string \<Rightarrow> (nat \<times> string list) option \<Rightarrow> nat option \<Rightarrow> nat option \<Rightarrow> nat option \<Rightarrow> Verbs
    \<Rightarrow> bool \<times> Verbs \<times> verbs_event list" where
  "verbs_open device_name devs ctx pd cq V =
     (if v_ctx V \<noteq> None then (True, V, [])
      else case devs of
          None \<Rightarrow> (False, V, [])
        | Some (l, names) \<Rightarrow>
            if names = [] then (False, V, [Acquire (R_list l)])
            else if find (\<lambda>n. device_name = ''auto'' \<or> device_name = n) names = None
            then (False, V, [Acquire (R_list l), Release (R_list l)])
            else (case ctx of
                None \<Rightarrow> (False, V, [Acquire (R_list l), Release (R_list l)])
              | Some x \<Rightarrow>
                  (case pd of
                     None \<Rightarrow> (False, V\<lparr>v_ctx := Some x\<rparr>, [Acquire (R_list l), Acquire (R_ctx x), Release (R_list l)])
                   | Some p \<Rightarrow>
                       (cq \<noteq> None, V\<lparr>v_ctx := Some x, v_pd := Some p, v_cq := cq\<rparr>,
                        [Acquire (R_list l), Acquire (R_ctx x), Release (R_list l), Acquire (R_pd p)]
                        @ (case cq of None \<Rightarrow> [] | Some c \<Rightarrow> [Acquire (R_cq c)])))))"

definition verbs_is_open :: "Verbs \<Rightarrow> bool" where
  "verbs_is_open V \<longleftrightarrow> v_ctx V \<noteq> None"


section \<open>The connection\<close>

record rconn =
  rc_qp :: "nat option"
  rc_recv_mr :: "nat option"
  rc_send_mr :: "nat option"
  rc_size :: nat
  rc_peer_eof :: bool

definition new_rconn :: rconn where
  "new_rconn = \<lparr>rc_qp = None, rc_recv_mr = None, rc_send_mr = None, rc_size = 0, rc_peer_eof = False\<rparr>"

definition rconn_destroy :: "rconn \<Rightarrow> verbs_event list" where
  "rconn_destroy c = release_opt R_qp (rc_qp c) @ release_opt R_mr (rc_recv_mr c) @ release_opt R_mr (rc_send_mr c)"

definition acquire_opt :: "(nat \<Rightarrow> resource) \<Rightarrow> nat option \<Rightarrow> verbs_event list" where
  "acquire_opt f r = (case r of None \<Rightarrow> [] | Some x \<Rightarrow> [Acquire (f x)])"

text \<open>\<open>modify\<close> is whether the transition of the queue pair to the state INIT succeeds.\<close>

definition rconn_init :: "Verbs \<Rightarrow> nat \<Rightarrow> nat option \<Rightarrow> nat option \<Rightarrow> nat option \<Rightarrow> bool \<Rightarrow> rconn \<Rightarrow> bool \<times> rconn \<times> verbs_event list" where
  "rconn_init V ring_size recv_mr send_mr qp modify c =
     (if \<not> verbs_is_open V then (False, c, [])
      else let c1 = c\<lparr>rc_size := ring_size, rc_recv_mr := recv_mr, rc_send_mr := send_mr\<rparr>;
               ev = acquire_opt R_mr recv_mr @ acquire_opt R_mr send_mr
        in if recv_mr = None \<or> send_mr = None then (False, c1, ev)
           else let c2 = c1\<lparr>rc_qp := qp\<rparr> in
             if qp = None then (False, c2, ev) else (modify, c2, ev @ acquire_opt R_qp qp))"

text \<open>
  \<open>qp_num\<close>, \<open>rkey\<close> and \<open>addr\<close> are the number of the queue pair, the key of the receive region and the address of
  its buffer; 5 is \<^verbatim>\<open>IBV_MTU_4096\<close>. Identifiers of the port are not filled in.
\<close>

definition local_info :: "(nat \<Rightarrow> u32) \<Rightarrow> (nat \<Rightarrow> u32) \<Rightarrow> u64 \<Rightarrow> rconn \<Rightarrow> QpInfo" where
  "local_info qp_num rkey addr c =
     \<lparr>q_qp_num = (case rc_qp c of Some q \<Rightarrow> qp_num q | None \<Rightarrow> 0), q_lid = 0, q_pad0 = 0, q_gid = replicate 16 0,
      q_rkey = (case rc_recv_mr c of Some m \<Rightarrow> rkey m | None \<Rightarrow> 0), q_pad1 = 0, q_remote_addr = addr, q_mtu = 5,
      q_reserved = replicate 20 0\<rparr>"

text \<open>The attributes of the two transitions.\<close>

record rtr_attr =
  path_mtu :: u32
  dest_qp_num :: u32
  rq_psn :: u32
  max_dest_rd_atomic :: nat
  min_rnr_timer :: nat
  is_global :: bool
  dlid :: u16
  dgid :: "u8 list"
  sgid_index :: nat
  hop_limit :: nat

record rts_attr =
  timeout :: nat
  retry_cnt :: nat
  rnr_retry :: nat
  sq_psn :: u32
  max_rd_atomic :: nat

datatype transition = To_RTR rtr_attr | To_RTS rts_attr

definition rconn_connect :: "bool \<Rightarrow> bool \<Rightarrow> QpInfo \<Rightarrow> rconn \<Rightarrow> bool \<times> transition list" where
  "rconn_connect rtr_ok rts_ok peer c =
     (if rc_qp c = None then (False, [])
      else let rtr = To_RTR \<lparr>path_mtu = q_mtu peer, dest_qp_num = q_qp_num peer, rq_psn = 0, max_dest_rd_atomic = 1,
                 min_rnr_timer = 12, is_global = True, dlid = q_lid peer, dgid = q_gid peer, sgid_index = 3, hop_limit = 64\<rparr>
        in if \<not> rtr_ok then (False, [rtr])
           else (rts_ok, [rtr, To_RTS \<lparr>timeout = 14, retry_cnt = 7, rnr_retry = 7, sq_psn = 0, max_rd_atomic = 1\<rparr>]))"

definition rconn_send_some :: "u8 list \<Rightarrow> rconn \<Rightarrow> nat" where
  "rconn_send_some buf c = 0"

definition rconn_recv_some :: "nat \<Rightarrow> rconn \<Rightarrow> nat" where
  "rconn_recv_some len c = 0"

definition rconn_peer_closed :: "rconn \<Rightarrow> bool" where
  "rconn_peer_closed c = rc_peer_eof c"

definition rconn_mark_closed :: "rconn \<Rightarrow> rconn" where
  "rconn_mark_closed c = c\<lparr>rc_peer_eof := True\<rparr>"

definition rconn_is_open :: "rconn \<Rightarrow> bool" where
  "rconn_is_open c \<longleftrightarrow> rc_qp c \<noteq> None"


section \<open>Descriptors survive the exchange\<close>

lemma le_bytes_length [simp]: "length (le_bytes n w) = n"
  by (simp add: le_bytes_def)

lemma bit_le_word: "bit (le_word bs :: 'a::len word) i \<longleftrightarrow> i < LENGTH('a) \<and> i div 8 < length bs \<and> bit (bs ! (i div 8)) (i mod 8)"
proof (induction bs arbitrary: i)
  case (Cons b bs)
  show ?case
  proof (cases "i < 8")
    case True
    then show ?thesis by (auto simp: le_word_def bit_simps)
  next
    case False
    then obtain j where i: "i = 8 + j" using le_Suc_ex [of 8 i] by auto
    have "\<not> bit b i" using False by (auto dest: bit_imp_le_length)
    moreover have "(8 + j) div 8 = Suc (j div 8)" by simp
    ultimately show ?thesis using Cons.IH [of j] False by (auto simp: le_word_def bit_simps i)
  qed
qed (simp add: le_word_def)

lemma le_word_bytes: "LENGTH('a) = 8 * n \<Longrightarrow> le_word (le_bytes n w) = (w :: 'a::len word)"
  by (rule bit_eqI) (auto simp: bit_le_word le_bytes_def bit_simps)

lemmas le_words = le_word_bytes [where 'a = 32 and n = 4, simplified] le_word_bytes [where 'a = 16 and n = 2, simplified]
  le_word_bytes [where 'a = 64 and n = 8, simplified]

lemma qp_bytes_length: "qp_ok q \<Longrightarrow> length (qp_bytes q) = 64"
  by (simp add: qp_bytes_def qp_ok_def)

lemma qp_of_bytes_inverse: "qp_ok q \<Longrightarrow> qp_of_bytes (qp_bytes q) = q"
  by (simp add: qp_of_bytes_def qp_bytes_def qp_ok_def le_words)

lemma nibbles: "or (push_bit 4 (drop_bit 4 b)) (and b 0xf) = (b :: u8)"
proof (rule bit_eqI)
  fix i
  have e: "(0xf :: u8) = mask 4" by (simp add: mask_eq_exp_minus_1)
  show "bit (or (push_bit 4 (drop_bit 4 b)) (and b 0xf)) i = bit b i"
    unfolding e by (cases "i < 4") (auto simp: bit_simps dest: bit_imp_le_length)
qed

lemma nibble_bound: "unat (drop_bit 4 (b :: u8)) < 16" "unat (and b 0xf :: u8) < 16"
proof -
  have "unat (drop_bit 4 b) = unat b div 16" 
    by (simp only: unat_drop_bit_eq) (simp add: drop_bit_eq_div)
  then show "unat (drop_bit 4 b) < 16" using unsigned_less [of b, where 'a = nat] by simp
  have "and b 0xf \<le> (0xf :: u8)" by (rule word_and_le1)
  then have "unat (and b 0xf) \<le> unat (0xf :: u8)" by (simp only: word_le_nat_alt)
  then show "unat (and b 0xf :: u8) < 16" by simp
qed

lemma decode_bytes_encoded:
  "length bs = length bs' \<Longrightarrow>
     decode_bytes (concat (map (\<lambda>b. [hex_digit (drop_bit 4 b), hex_digit (and b 0xf)]) bs)) bs' = (True, bs)"
proof (induction bs bs' rule: list_induct2)
  case (Cons b bs b' bs')
  then show ?case by (simp add: hex_digit_def hexval_digit nibble_bound nibbles)
qed simp

lemma encode_qp_length: "qp_ok q \<Longrightarrow> length (encode_qp_info q) = 128"
proof -
  assume "qp_ok q"
  moreover have "length (concat (map (\<lambda>b. [hex_digit (drop_bit 4 b), hex_digit (and b 0xf)]) bs)) = 2 * length bs" for bs
    by (induction bs) auto
  ultimately show ?thesis by (simp add: encode_qp_info_def qp_bytes_length)
qed

lemma decode_encoded: "qp_ok q \<Longrightarrow> qp_ok out \<Longrightarrow> decode_qp_info (encode_qp_info q) out = (True, q)"
  using decode_bytes_encoded [of "qp_bytes q" "qp_bytes out", folded encode_qp_info_def]
  by (simp add: decode_qp_info_def encode_qp_length qp_bytes_length qp_of_bytes_inverse)




section \<open>Resources\<close>

fun gained :: "verbs_event \<Rightarrow> resource multiset" where
  "gained (Acquire r) = {#r#}" | "gained (Release r) = {#}"

fun given_back :: "verbs_event \<Rightarrow> resource multiset" where
  "given_back (Release r) = {#r#}" | "given_back (Acquire r) = {#}"

definition balanced :: "verbs_event list \<Rightarrow> bool" where
  "balanced ev \<longleftrightarrow> sum_list (map gained ev) = sum_list (map given_back ev)"

lemma balanced_nest: "balanced (a @ d) \<Longrightarrow> balanced m \<Longrightarrow> balanced (a @ m @ d)"
  by (simp add: balanced_def add.left_commute)



text \<open>
  An open that failed half-way is reported as success by the next one, and connections are then initialised without a
  protection domain; an empty device list is not freed; a second initialisation leaks the first one's resources.
\<close>

theorem reopen_reports_success:
  "case verbs_open ''auto'' (Some (1, [''mlx5_0''])) (Some 2) None None new_verbs of (ok, V, _) \<Rightarrow>
     \<not> ok \<and> verbs_open ''auto'' (Some (1, [''mlx5_0''])) (Some 2) (Some 3) (Some 4) V = (True, V, []) \<and> v_pd V = None"
  by code_simp

theorem empty_device_list_leaks:
  "case verbs_open ''auto'' (Some (1, [])) None None None new_verbs of (ok, V, ev) \<Rightarrow> \<not> balanced (ev @ verbs_destroy V)"
  by (simp add: verbs_open_def new_verbs_def balanced_def verbs_destroy_def release_opt_def)

end
