(* ===== verification/Darray.thy ===== *)
theory Darray
  imports SD_Prelude
begin

text \<open>
  The growing array with holes that the legacy library keeps descriptors and connections in, \<^verbatim>\<open>common/darray.hpp\<close>. Indices are
  natural numbers: the array has fewer than 2^31 slots. \<open>None\<close> is an access outside the vector, or a loop that does
  not end.
\<close>

section \<open>Operations\<close>

record 'a darray =
  lowest_available :: nat
  highest_possible :: nat
  total_num :: nat
  d_size :: nat
  d_data :: "('a \<times> bool) list"

text \<open>\<open>dflt\<close> is the value that the element type's default constructor gives.\<close>

definition resize :: "'a \<Rightarrow> nat \<Rightarrow> ('a \<times> bool) list \<Rightarrow> ('a \<times> bool) list" where
  "resize dflt n xs = take n xs @ replicate (n - length xs) (dflt, False)"

definition new_darray :: "'a \<Rightarrow> nat \<Rightarrow> 'a darray" where
  "new_darray dflt initsize =
     \<lparr>lowest_available = 0, highest_possible = 0, total_num = 0, d_size = initsize, d_data = resize dflt initsize []\<rparr>"

definition slot_valid :: "('a \<times> bool) list \<Rightarrow> nat \<Rightarrow> bool option" where
  "slot_valid xs i = (if i < length xs then Some (snd (xs ! i)) else None)"

text \<open>The search loop of \<^verbatim>\<open>add\<close>, which goes round at the end of the array.\<close>

partial_function (option) next_free :: "('a \<times> bool) list \<Rightarrow> nat \<Rightarrow> nat \<Rightarrow> nat option" where
  "next_free xs sz i =
     (let i' = (if i + 1 = sz then 0 else i + 1)
      in case slot_valid xs i' of None \<Rightarrow> None | Some v \<Rightarrow> if \<not> v then Some i' else next_free xs sz i')"

declare next_free.simps [code]

definition darray_add :: "'a \<Rightarrow> 'a \<Rightarrow> 'a darray \<Rightarrow> (nat \<times> 'a darray) option" where
  "darray_add dflt x d =
     (let idx = lowest_available d in
      if idx \<ge> length (d_data d) then None
      else let xs = (d_data d)[idx := (x, True)];
               total = total_num d + 1;
               (sz, ys) = (if d_size d \<le> total then (2 * d_size d, resize dflt (2 * d_size d) xs) else (d_size d, xs))
        in case next_free ys sz idx of None \<Rightarrow> None
           | Some low \<Rightarrow> Some (idx, \<lparr>lowest_available = low, highest_possible = max (highest_possible d) idx,
                                     total_num = total, d_size = sz, d_data = ys\<rparr>))"

text \<open>The loop of \<^verbatim>\<open>del\<close> that lowers the upper end.\<close>

fun lower_end :: "('a \<times> bool) list \<Rightarrow> nat \<Rightarrow> nat option" where
  "lower_end xs 0 = Some 0"
| "lower_end xs (Suc h) = (case slot_valid xs (Suc h) of None \<Rightarrow> None | Some v \<Rightarrow> if \<not> v then lower_end xs h else Some (Suc h))"

definition darray_del :: "nat \<Rightarrow> 'a darray \<Rightarrow> 'a darray option" where
  "darray_del loc d =
     (if loc \<ge> length (d_data d) then None
      else let xs = (d_data d)[loc := (fst (d_data d ! loc), False)]
        in case (if loc = highest_possible d then lower_end xs (highest_possible d) else Some (highest_possible d)) of
             None \<Rightarrow> None
           | Some h \<Rightarrow> Some (d\<lparr>highest_possible := h, total_num := total_num d - 1, d_data := xs\<rparr>))"

definition darray_init :: "'a \<Rightarrow> nat \<Rightarrow> 'a darray \<Rightarrow> 'a darray" where
  "darray_init dflt initsize d =
     \<lparr>lowest_available = 0, highest_possible = 0, total_num = 0, d_size = initsize, d_data = resize dflt initsize (d_data d)\<rparr>"

definition darray_get :: "'a darray \<Rightarrow> nat \<Rightarrow> 'a option" where
  "darray_get d i = (if i < length (d_data d) then Some (fst (d_data d ! i)) else None)"

definition darray_set :: "nat \<Rightarrow> 'a \<Rightarrow> 'a darray \<Rightarrow> 'a darray option" where
  "darray_set i x d = (if i < length (d_data d) then Some (d\<lparr>d_data := (d_data d)[i := (x, snd (d_data d ! i))]\<rparr>) else None)"

definition get_totalsize :: "'a darray \<Rightarrow> nat" where
  "get_totalsize d = total_num d"

definition get_highest_possible :: "'a darray \<Rightarrow> nat" where
  "get_highest_possible d = highest_possible d"

definition darray_isvalid :: "'a darray \<Rightarrow> nat \<Rightarrow> bool option" where
  "darray_isvalid d loc = (if loc > highest_possible d then Some False else slot_valid (d_data d) loc)"

text \<open>The search of both iterator functions from an index on; \<open>-1\<close> is the end.\<close>

function iterate_from :: "'a darray \<Rightarrow> nat \<Rightarrow> int option" where
  "iterate_from d i =
     (if i \<le> highest_possible d
      then (case darray_isvalid d i of None \<Rightarrow> None | Some v \<Rightarrow> if v then Some (int i) else iterate_from d (i + 1))
      else Some (- 1))"
  by pat_completeness auto
termination by (relation "measure (\<lambda>(d, i). Suc (highest_possible d) - i)") auto

declare iterate_from.simps [simp del]

definition iterator_init :: "'a darray \<Rightarrow> int option" where
  "iterator_init d = iterate_from d 0"

definition iterator_next :: "'a darray \<Rightarrow> nat \<Rightarrow> int option" where
  "iterator_next d prev = iterate_from d (prev + 1)"

text \<open>A client's loop over the array.\<close>

partial_function (option) visit_from :: "'a darray \<Rightarrow> int option \<Rightarrow> nat list option" where
  "visit_from d cur =
     (case cur of None \<Rightarrow> None
      | Some i \<Rightarrow> if i < 0 then Some []
          else Option.bind (visit_from d (iterator_next d (nat i))) (\<lambda>is. Some (nat i # is)))"


section \<open>Invariant\<close>

definition in_use :: "'a darray \<Rightarrow> nat set" where
  "in_use d = {i. i < length (d_data d) \<and> snd (d_data d ! i)}"

definition darray_ok :: "'a darray \<Rightarrow> bool" where
  "darray_ok d \<longleftrightarrow> length (d_data d) = d_size d \<and> total_num d = card (in_use d) \<and> total_num d < d_size d
     \<and> lowest_available d < d_size d \<and> lowest_available d \<notin> in_use d
     \<and> highest_possible d < d_size d \<and> (\<forall>i\<in>in_use d. i \<le> highest_possible d)"

lemma finite_in_use [simp]: "finite (in_use d)"
  by (simp add: in_use_def)

lemma new_darray_ok: "0 < n \<Longrightarrow> darray_ok (new_darray dflt n) \<and> in_use (new_darray dflt n) = {}"
  by (auto simp: darray_ok_def new_darray_def in_use_def resize_def)

text \<open>The search goes round the array and meets a free slot if there is one.\<close>

lemma next_free_finds:
  assumes "length xs = sz" "i < sz" "j < sz" "\<not> snd (xs ! j)"
  shows "\<exists>k. next_free xs sz i = Some k \<and> k < sz \<and> \<not> snd (xs ! k)"
  using assms(2)
proof (induction "if i < j then j - i else j + sz - i" arbitrary: i rule: less_induct)
  case less
  let ?i = "if i + 1 = sz then 0 else i + 1"
  have i': "?i < sz" using less.prems by auto
  show ?case
  proof (cases "snd (xs ! ?i)")
    case False
    then have "next_free xs sz i = Some ?i"
      using i' assms(1) by (subst next_free.simps) (simp add: slot_valid_def Let_def)
    then show ?thesis using False i' by blast
  next
    case True
    then have step: "next_free xs sz i = next_free xs sz ?i"
      using i' assms(1) by (subst next_free.simps) (simp add: slot_valid_def Let_def)
    have "?i \<noteq> j" using True assms(4) by metis
    then have "(if ?i < j then j - ?i else j + sz - ?i) < (if i < j then j - i else j + sz - i)"
      using less.prems assms(3) by auto
    then show ?thesis using less.hyps [OF _ i'] step by auto
  qed
qed

lemma resize_nth:
  "i < length xs \<Longrightarrow> length xs \<le> n \<Longrightarrow> resize dflt n xs ! i = xs ! i"
  "length xs \<le> i \<Longrightarrow> i < n \<Longrightarrow> resize dflt n xs ! i = (dflt, False)"
  "length xs \<le> n \<Longrightarrow> length (resize dflt n xs) = n"
  by (auto simp: resize_def nth_append)

lemma free_slot_exists:
  assumes "length xs = sz" "card {i. i < length xs \<and> snd (xs ! i)} < sz"
  shows "\<exists>j. j < sz \<and> \<not> snd (xs ! j)"
proof (rule ccontr)
  assume "\<not> ?thesis"
  then have "{i. i < length xs \<and> snd (xs ! i)} = {..<sz}" using assms(1) by auto
  then show False using assms(2) by simp
qed

text \<open>Adding stores at a free index, leaves everything else alone and keeps the invariant.\<close>

lemma add_ok:
  assumes "darray_ok d"
  shows "\<exists>idx d'. darray_add dflt x d = Some (idx, d') \<and> darray_ok d' \<and> idx \<notin> in_use d
    \<and> in_use d' = insert idx (in_use d) \<and> darray_get d' idx = Some x \<and> (\<forall>i\<in>in_use d. darray_get d' i = darray_get d i)"
proof -
  let ?idx = "lowest_available d" and ?total = "total_num d + 1"
  let ?xs = "(d_data d)[?idx := (x, True)]"
  let ?sz = "if d_size d \<le> ?total then 2 * d_size d else d_size d"
  let ?ys = "if d_size d \<le> ?total then resize dflt (2 * d_size d) ?xs else ?xs"
  have len: "length (d_data d) = d_size d" and idx: "?idx < d_size d" "?idx \<notin> in_use d" and tot: "total_num d = card (in_use d)" "total_num d < d_size d"
    using assms by (auto simp: darray_ok_def)
  have ly: "length ?ys = ?sz" using len by (simp add: resize_nth)
  have at: "?ys ! i = (if i < d_size d then ?xs ! i else (dflt, False))" if "i < ?sz" for i
    using that len by (auto simp: resize_nth)
  have used: "{i. i < length ?ys \<and> snd (?ys ! i)} = insert ?idx (in_use d)"
  proof (rule set_eqI)
    fix i
    show "i \<in> {i. i < length ?ys \<and> snd (?ys ! i)} \<longleftrightarrow> i \<in> insert ?idx (in_use d)"
      using at [of i] ly len idx(1) by (cases "i = ?idx") (auto simp: in_use_def split: if_splits)
  qed
  have card: "card {i. i < length ?ys \<and> snd (?ys ! i)} = ?total" unfolding used using idx(2) tot(1) by simp
  have "?total < ?sz" using tot(2) by auto
  then obtain j where j: "j < ?sz" "\<not> snd (?ys ! j)" using free_slot_exists [OF ly] card by auto
  have "?idx < ?sz" using idx(1) by auto
  then obtain low where low: "next_free ?ys ?sz ?idx = Some low" "low < ?sz" "\<not> snd (?ys ! low)"
    using next_free_finds [OF ly _ j] by blast
  define d' where "d' = \<lparr>lowest_available = low, highest_possible = max (highest_possible d) ?idx, total_num = ?total, d_size = ?sz, d_data = ?ys\<rparr>"
  have add: "darray_add dflt x d = Some (?idx, d')"
    using idx(1) len low(1) by (auto simp: darray_add_def Let_def d'_def split: if_splits)
  have use': "in_use d' = insert ?idx (in_use d)" using used by (simp add: in_use_def d'_def)
  have "low \<notin> insert ?idx (in_use d)" unfolding used [symmetric] using low(2,3) ly by simp
  moreover have "max (highest_possible d) ?idx < ?sz" using assms \<open>?idx < ?sz\<close> by (auto simp: darray_ok_def)
  moreover have "\<forall>i\<in>insert ?idx (in_use d). i \<le> max (highest_possible d) ?idx"
    using assms by (auto simp: darray_ok_def le_max_iff_disj)
  ultimately have ok: "darray_ok d'"
    unfolding darray_ok_def use' using ly low(2) \<open>?total < ?sz\<close> tot(1) idx(2) by (simp add: d'_def)
  have "darray_get d' ?idx = Some x" using at [of ?idx] ly idx(1) len by (auto simp: darray_get_def d'_def)
  moreover have "darray_get d' i = darray_get d i" if "i \<in> in_use d" "i \<noteq> ?idx" for i
    using that at [of i] ly len by (auto simp: darray_get_def d'_def in_use_def split: if_splits)
  ultimately show ?thesis using add ok use' idx(2) by (intro exI [of _ ?idx] exI [of _ d']) metis
qed

lemma lower_end_spec:
  assumes "h < length xs"
  shows "\<exists>h'. lower_end xs h = Some h' \<and> h' \<le> h \<and> (\<forall>i. h' < i \<and> i \<le> h \<longrightarrow> \<not> snd (xs ! i))"
  using assms
proof (induction h)
  case (Suc h)
  show ?case
  proof (cases "snd (xs ! Suc h)")
    case False
    obtain h' where h': "lower_end xs h = Some h'" "h' \<le> h" "\<forall>i. h' < i \<and> i \<le> h \<longrightarrow> \<not> snd (xs ! i)"
      using Suc by auto
    have "\<not> snd (xs ! i)" if "h' < i" "i \<le> Suc h" for i
      using that h'(3) False by (cases "i = Suc h") auto
    then show ?thesis using h' False Suc.prems by (auto simp: slot_valid_def)
  qed (use Suc.prems in \<open>auto simp: slot_valid_def\<close>)
qed simp

text \<open>Deleting an element in use frees its index, leaves everything else alone and keeps the invariant.\<close>

lemma del_ok:
  assumes "darray_ok d" "loc \<in> in_use d"
  shows "\<exists>d'. darray_del loc d = Some d' \<and> darray_ok d' \<and> in_use d' = in_use d - {loc}
    \<and> (\<forall>i. darray_get d' i = darray_get d i)"
proof -
  let ?xs = "(d_data d)[loc := (fst (d_data d ! loc), False)]"
  have len: "length (d_data d) = d_size d" "highest_possible d < d_size d" and loc: "loc < d_size d" "snd (d_data d ! loc)"
    using assms by (auto simp: darray_ok_def in_use_def)
  have "\<exists>h. (if loc = highest_possible d then lower_end ?xs (highest_possible d) else Some (highest_possible d)) = Some h
      \<and> h \<le> highest_possible d \<and> (\<forall>i. h < i \<and> i \<le> highest_possible d \<longrightarrow> \<not> snd (?xs ! i))"
    using lower_end_spec [of "highest_possible d" ?xs] len by auto
  then obtain h where h: "(if loc = highest_possible d then lower_end ?xs (highest_possible d) else Some (highest_possible d)) = Some h"
    "h \<le> highest_possible d" "\<And>i. h < i \<Longrightarrow> i \<le> highest_possible d \<Longrightarrow> \<not> snd (?xs ! i)" by blast
  define d' where "d' = d\<lparr>highest_possible := h, total_num := total_num d - 1, d_data := ?xs\<rparr>"
  have del: "darray_del loc d = Some d'" using loc len h(1) by (simp add: darray_del_def Let_def d'_def)
  have use': "in_use d' = in_use d - {loc}"
    using loc len by (auto simp: in_use_def d'_def nth_list_update split: if_splits)
  have top: "i \<le> h" if "i \<in> in_use d'" for i
  proof (rule ccontr)
    assume "\<not> i \<le> h"
    moreover have "i \<le> highest_possible d" using that use' assms(1) by (auto simp: darray_ok_def)
    ultimately have "\<not> snd (?xs ! i)" using h(3) by simp
    then show False using that by (simp add: in_use_def d'_def)
  qed
  have "card (in_use d') = total_num d - 1" unfolding use' using assms by (simp add: darray_ok_def)
  moreover have "lowest_available d \<notin> in_use d'" using assms(1) use' by (auto simp: darray_ok_def)
  ultimately have "darray_ok d'"
    using assms(1) top h(2) len by (auto simp: darray_ok_def d'_def in_use_def [of "d\<lparr>highest_possible := h, total_num := total_num d - 1, d_data := ?xs\<rparr>"])
  moreover have "darray_get d' i = darray_get d i" for i
    using loc len by (auto simp: darray_get_def d'_def nth_list_update)
  ultimately show ?thesis using del use' by blast
qed

lemma isvalid_in_use: "darray_ok d \<Longrightarrow> i < d_size d \<Longrightarrow> darray_isvalid d i = Some (i \<in> in_use d)"
  by (auto simp: darray_isvalid_def slot_valid_def in_use_def darray_ok_def)

text \<open>The iterator functions find the next index in use.\<close>

lemma iterate_finds:
  assumes "darray_ok d"
  shows "if \<exists>k\<in>in_use d. i \<le> k then iterate_from d i = Some (int (Min {k \<in> in_use d. i \<le> k})) else iterate_from d i = Some (- 1)"
proof (induction d\<equiv>d i rule: iterate_from.induct)
  case (1 i)
  have top: "k \<le> highest_possible d" if "k \<in> in_use d" for k using assms that by (simp add: darray_ok_def)
  show ?case
  proof (cases "i \<le> highest_possible d")
    case True
    then have v: "darray_isvalid d i = Some (i \<in> in_use d)" 
      using isvalid_in_use [OF assms, of i] assms by (simp add: darray_ok_def)
    show ?thesis
    proof (cases "i \<in> in_use d")
      case True
      then have "Min {k \<in> in_use d. i \<le> k} = i" by (intro Min_eqI) auto
      then show ?thesis using True v \<open>i \<le> highest_possible d\<close> by (subst iterate_from.simps) auto
    next
      case False
      then have S: "{k \<in> in_use d. i \<le> k} = {k \<in> in_use d. i + 1 \<le> k}" by (auto simp: Suc_le_eq le_less)
      then have E: "(\<exists>k\<in>in_use d. i \<le> k) \<longleftrightarrow> (\<exists>k\<in>in_use d. i + 1 \<le> k)" by blast
      have F: "iterate_from d i = iterate_from d (i + 1)" using False v True by (subst iterate_from.simps) simp
      show ?thesis unfolding S E F by (rule "1.hyps" [OF True v False])
    qed
  next
    case False
    then have "\<not> (\<exists>k\<in>in_use d. i \<le> k)" using top by (meson le_trans)
    then show ?thesis using False by (subst iterate_from.simps) simp
  qed
qed

lemma visit_spec:
  assumes "darray_ok d"
  shows "visit_from d (iterate_from d i) = Some (sorted_list_of_set {k \<in> in_use d. i \<le> k})"
proof (induction "Suc (highest_possible d) - i" arbitrary: i rule: less_induct)
  case less
  have top: "k \<le> highest_possible d" if "k \<in> in_use d" for k using assms that by (simp add: darray_ok_def)
  let ?S = "{k \<in> in_use d. i \<le> k}"
  show ?case
  proof (cases "\<exists>k\<in>in_use d. i \<le> k")
    case False
    then have e: "?S = {}" "iterate_from d i = Some (- 1)" using iterate_finds [OF assms, of i] by auto
    show ?thesis unfolding e by (subst visit_from.simps) simp
  next
    case True
    define m where "m = Min ?S"
    have ne: "finite ?S" "?S \<noteq> {}" using True by auto
    then have m: "m \<in> ?S" unfolding m_def by (rule Min_in)
    have it: "iterate_from d i = Some (int m)" using iterate_finds [OF assms, of i] True by (simp add: m_def)
    have least: "m \<le> k" if "k \<in> ?S" for k using Min_le [OF ne(1) that] by (simp add: m_def)
    have rest: "{k \<in> in_use d. m + 1 \<le> k} = ?S - {m}"
    proof (rule set_eqI)
      fix k
      show "k \<in> {k \<in> in_use d. m + 1 \<le> k} \<longleftrightarrow> k \<in> ?S - {m}" using m least [of k] by fastforce
    qed
    have "Suc (highest_possible d) - (m + 1) < Suc (highest_possible d) - i" using m top by fastforce
    then have "visit_from d (iterate_from d (m + 1)) = Some (sorted_list_of_set (?S - {m}))"
      using less.hyps [of "m + 1"] unfolding rest by simp
    then have "visit_from d (Some (int m)) = Some (m # sorted_list_of_set (?S - {m}))"
      by (subst visit_from.simps) (simp add: iterator_next_def)
    then show ?thesis unfolding it using sorted_list_of_set_nonempty [OF ne] by (simp add: m_def)
  qed
qed

text \<open>The array as a finite map.\<close>

definition elements :: "'a darray \<Rightarrow> nat \<Rightarrow> 'a option" where
  "elements d i = (if i \<in> in_use d then darray_get d i else None)"

lemma elements_eqI: "in_use d' = A \<Longrightarrow> (\<And>i. i \<in> A \<Longrightarrow> darray_get d' i = m i) \<Longrightarrow> (\<And>i. i \<notin> A \<Longrightarrow> m i = None) \<Longrightarrow> elements d' = m"
  by (auto simp: elements_def)

lemma dom_elements: "dom (elements d) = in_use d"
  by (auto simp: elements_def dom_def darray_get_def in_use_def)

text \<open>
  The array with holes implements a finite map with generated keys. A new array is well-formed and empty. On every well-formed
  array, adding always returns, growing the array when it is full, with an index that was not in use, and maps that index to the
  element and nothing else; deleting an index in use unmaps exactly that index; both results are well-formed. A client's
  loop with the iterator functions ends and visits exactly the indices in use, in increasing order.
\<close>

theorem darray_refines_map:
  assumes "0 < n" "darray_ok d"
  shows "darray_ok (new_darray dflt n) \<and> elements (new_darray dflt n) = Map.empty
    \<and> (\<exists>idx d'. darray_add dflt x d = Some (idx, d') \<and> darray_ok d' \<and> idx \<notin> dom (elements d) \<and> elements d' = (elements d)(idx \<mapsto> x))
    \<and> (\<forall>loc \<in> dom (elements d). \<exists>d'. darray_del loc d = Some d' \<and> darray_ok d' \<and> elements d' = (elements d)(loc := None))
    \<and> visit_from d (iterator_init d) = Some (sorted_list_of_set (dom (elements d)))
    \<and> get_totalsize d = card (dom (elements d))"
proof (intro conjI ballI)
  show "darray_ok (new_darray dflt n)" "elements (new_darray dflt n) = Map.empty"
    using new_darray_ok [OF assms(1), of dflt] by (auto simp: elements_def)
  obtain idx d' where a: "darray_add dflt x d = Some (idx, d')" "darray_ok d'" "idx \<notin> in_use d"
    "in_use d' = insert idx (in_use d)" "darray_get d' idx = Some x" "\<forall>i\<in>in_use d. darray_get d' i = darray_get d i"
    using add_ok [OF assms(2), of dflt x] by blast
  have "elements d' = (elements d)(idx \<mapsto> x)"
    by (rule elements_eqI [OF a(4)]) (use a(3,5,6) in \<open>auto simp: elements_def\<close>)
  then show "\<exists>idx d'. darray_add dflt x d = Some (idx, d') \<and> darray_ok d' \<and> idx \<notin> dom (elements d) \<and> elements d' = (elements d)(idx \<mapsto> x)"
    using a by (auto simp: dom_elements)
  show "visit_from d (iterator_init d) = Some (sorted_list_of_set (dom (elements d)))"
    using visit_spec [OF assms(2), of 0] by (simp add: iterator_init_def dom_elements)
  show "get_totalsize d = card (dom (elements d))" using assms(2) by (simp add: get_totalsize_def darray_ok_def dom_elements)
next
  fix loc assume "loc \<in> dom (elements d)"
  then obtain d' where a: "darray_del loc d = Some d'" "darray_ok d'" "in_use d' = in_use d - {loc}" "\<forall>i. darray_get d' i = darray_get d i"
    using del_ok [OF assms(2), of loc] unfolding dom_elements by blast
  have "elements d' = (elements d)(loc := None)"
    by (rule elements_eqI [OF a(3)]) (use a(4) in \<open>auto simp: elements_def\<close>)
  then show "\<exists>d'. darray_del loc d = Some d' \<and> darray_ok d' \<and> elements d' = (elements d)(loc := None)" using a by blast
qed

text \<open>A first element.\<close>

theorem darray_refines_map_witness:
  "\<exists>idx d'. darray_add (0::nat) 7 (new_darray 0 2) = Some (idx, d') \<and> darray_ok d' \<and> elements d' = [idx \<mapsto> 7]"
proof -
  have n: "(0::nat) < 2" by simp
  have "elements (new_darray (0::nat) 2) = Map.empty \<and> darray_ok (new_darray (0::nat) 2)" 
    using new_darray_ok [of 2 "0::nat"] by (auto simp: elements_def)
  then show ?thesis using darray_refines_map [OF n, of "new_darray (0::nat) 2" 0 7] by auto
qed

text \<open>
  Resetting an array that has been used keeps its elements: they stay valid although the array counts none, and the next addition
  overwrites the first one.
\<close>

theorem init_keeps_elements:
  "(case darray_add (0::nat) 7 (new_darray 0 2) of Some (_, d) \<Rightarrow>
      get_totalsize (darray_init 0 2 d) = 0 \<and> darray_isvalid (darray_init 0 2 d) 0 = Some True | None \<Rightarrow> False)"
  by code_simp

end
