(* ===== verification/Adj_List.thy ===== *)
theory Adj_List
  imports Darray "HOL-Library.Monad_Syntax"
begin

text \<open>
  The adjacency list of the legacy library, \<^verbatim>\<open>common/adjlist_t.hpp\<close>: an array of keys, each with a ring of elements that lives in a second
  array (both are arrays of theory \<^verbatim>\<open>Darray\<close>). Positions are \<^verbatim>\<open>int\<close> as in the code, with \<open>-1\<close> for no element;
  \<open>None\<close> is an access outside an array.
\<close>

section \<open>Data\<close>

record 'a index_t =
  ix_data :: 'a
  ix_pointer :: int

record 'b adj_element =
  adjdata :: 'b
  adj_next :: int

record ('a, 'b) adjlist =
  ad_index :: "'a index_t darray"
  ad_list :: "'b adj_element darray"

record adjlist_iterator =
  ai_prev :: int
  ai_start :: int
  ai_idx :: int
  ai_isvalid :: bool
  ai_curr :: int

definition new_iterator :: "int \<Rightarrow> adjlist_iterator" where
  "new_iterator idx = \<lparr>ai_prev = - 1, ai_start = - 1, ai_idx = idx, ai_isvalid = False, ai_curr = - 1\<rparr>"

text \<open>Accesses with a signed index: a negative one converts to an unsigned index beyond every array.\<close>

definition at_idx :: "'c darray \<Rightarrow> int \<Rightarrow> 'c option" where
  "at_idx d i = (if i < 0 then None else darray_get d (nat i))"

definition valid_idx :: "'c darray \<Rightarrow> int \<Rightarrow> bool option" where
  "valid_idx d i = (if i < 0 then Some False else darray_isvalid d (nat i))"

definition set_next :: "int \<Rightarrow> int \<Rightarrow> ('a, 'b) adjlist \<Rightarrow> ('a, 'b) adjlist option" where
  "set_next i n A = do {
     e \<leftarrow> at_idx (ad_list A) i;
     l \<leftarrow> darray_set (nat i) (e\<lparr>adj_next := n\<rparr>) (ad_list A);
     Some (A\<lparr>ad_list := l\<rparr>) }"

definition set_pointer :: "int \<Rightarrow> int \<Rightarrow> ('a, 'b) adjlist \<Rightarrow> ('a, 'b) adjlist option" where
  "set_pointer k p A = do {
     e \<leftarrow> at_idx (ad_index A) k;
     ix \<leftarrow> darray_set (nat k) (e\<lparr>ix_pointer := p\<rparr>) (ad_index A);
     Some (A\<lparr>ad_index := ix\<rparr>) }"


section \<open>Keys\<close>

text \<open>\<open>da\<close> and \<open>db\<close> are the default elements of the two arrays.\<close>

definition add_key :: "'a index_t \<Rightarrow> 'a \<Rightarrow> ('a, 'b) adjlist \<Rightarrow> (int \<times> ('a, 'b) adjlist) option" where
  "add_key da x A = do {
     (i, ix) \<leftarrow> darray_add da \<lparr>ix_data = x, ix_pointer = - 1\<rparr> (ad_index A);
     Some (int i, A\<lparr>ad_index := ix\<rparr>) }"

definition del_key :: "nat \<Rightarrow> ('a, 'b) adjlist \<Rightarrow> ('a, 'b) adjlist option" where
  "del_key k A = do { ix \<leftarrow> darray_del k (ad_index A); Some (A\<lparr>ad_index := ix\<rparr>) }"

definition key_data :: "('a, 'b) adjlist \<Rightarrow> nat \<Rightarrow> 'a option" where
  "key_data A i = map_option ix_data (darray_get (ad_index A) i)"

definition is_keyvalid :: "('a, 'b) adjlist \<Rightarrow> int \<Rightarrow> bool option" where
  "is_keyvalid A k = valid_idx (ad_index A) k"

fun add_keys :: "'a index_t \<Rightarrow> nat \<Rightarrow> 'a index_t \<Rightarrow> 'a index_t darray \<Rightarrow> 'a index_t darray option" where
  "add_keys da 0 e ix = Some ix"
| "add_keys da (Suc n) e ix = do { (_, ix') \<leftarrow> darray_add da e ix; add_keys da n e ix' }"

definition adj_init :: "'a index_t \<Rightarrow> nat \<Rightarrow> nat \<Rightarrow> 'a \<Rightarrow> ('a, 'b) adjlist \<Rightarrow> ('a, 'b) adjlist option" where
  "adj_init da initsize n x A = do {
     ix \<leftarrow> add_keys da n \<lparr>ix_data = x, ix_pointer = - 1\<rparr> (darray_init da initsize (ad_index A));
     Some (A\<lparr>ad_index := ix\<rparr>) }"

definition hiter_begin :: "('a, 'b) adjlist \<Rightarrow> int option" where
  "hiter_begin A = iterator_init (ad_index A)"

definition hiter_next :: "('a, 'b) adjlist \<Rightarrow> int \<Rightarrow> int option" where
  "hiter_next A prev = (if prev < - 1 then Some (- 1) else iterate_from (ad_index A) (nat (prev + 1)))"


section \<open>Elements\<close>

definition add_first :: "'b adj_element \<Rightarrow> int \<Rightarrow> 'b \<Rightarrow> adjlist_iterator \<Rightarrow> ('a, 'b) adjlist
    \<Rightarrow> (adjlist_iterator \<times> ('a, 'b) adjlist) option" where
  "add_first db k x ret A = do {
     (n, l) \<leftarrow> darray_add db \<lparr>adjdata = x, adj_next = - 1\<rparr> (ad_list A);
     A1 \<leftarrow> set_next (int n) (int n) (A\<lparr>ad_list := l\<rparr>);
     A2 \<leftarrow> set_pointer k (int n) A1;
     Some (ret\<lparr>ai_start := int n, ai_curr := int n, ai_prev := int n\<rparr>, A2) }"

text \<open>A new element after position \<open>p\<close>; the result has its position and the link it got.\<close>

definition insert_after :: "'b adj_element \<Rightarrow> int \<Rightarrow> 'b \<Rightarrow> ('a, 'b) adjlist \<Rightarrow> (nat \<times> int \<times> ('a, 'b) adjlist) option" where
  "insert_after db p x A = do {
     e \<leftarrow> at_idx (ad_list A) p;
     (n, l) \<leftarrow> darray_add db \<lparr>adjdata = x, adj_next = adj_next e\<rparr> (ad_list A);
     A1 \<leftarrow> set_next p (int n) (A\<lparr>ad_list := l\<rparr>);
     Some (n, adj_next e, A1) }"

definition add_element :: "'b adj_element \<Rightarrow> int \<Rightarrow> 'b \<Rightarrow> ('a, 'b) adjlist \<Rightarrow> (adjlist_iterator \<times> ('a, 'b) adjlist) option" where
  "add_element db k x A = do {
     v \<leftarrow> valid_idx (ad_index A) k;
     if \<not> v then Some (new_iterator k, A)
     else do {
       let ret = (new_iterator k)\<lparr>ai_isvalid := True\<rparr>;
       e \<leftarrow> at_idx (ad_index A) k;
       if ix_pointer e = - 1 then add_first db k x ret A
       else do {
         (n, _, A1) \<leftarrow> insert_after db (ix_pointer e) x A;
         Some (ret\<lparr>ai_start := int n, ai_curr := int n, ai_prev := int n\<rparr>, A1) } } }"

definition add_element_at :: "'b adj_element \<Rightarrow> adjlist_iterator \<Rightarrow> int \<Rightarrow> 'b \<Rightarrow> ('a, 'b) adjlist
    \<Rightarrow> (adjlist_iterator \<times> ('a, 'b) adjlist) option" where
  "add_element_at db it k x A = do {
     v \<leftarrow> valid_idx (ad_index A) k;
     if \<not> v then Some (new_iterator k, A)
     else do {
       e \<leftarrow> at_idx (ad_index A) k;
       if ix_pointer e = - 1 then add_first db k x ((new_iterator k)\<lparr>ai_isvalid := True\<rparr>) A
       else do {
         (n, nx, A1) \<leftarrow> insert_after db (ai_curr it) x A;
         Some (if nx = ai_curr it then it\<lparr>ai_prev := int n\<rparr> else it, A1) } } }"

definition set_ptr_to :: "int \<Rightarrow> adjlist_iterator \<Rightarrow> ('a, 'b) adjlist \<Rightarrow> ('a, 'b) adjlist option" where
  "set_ptr_to k it A = set_pointer k (ai_prev it) A"

definition del_element :: "adjlist_iterator \<Rightarrow> ('a, 'b) adjlist \<Rightarrow> (adjlist_iterator \<times> ('a, 'b) adjlist) option" where
  "del_element it A =
     (if \<not> ai_isvalid it then Some (it, A)
      else do {
        let c = ai_curr it;
        e \<leftarrow> at_idx (ad_list A) c;
        if adj_next e = c
        then do {
          A1 \<leftarrow> set_pointer (ai_idx it) (- 1) A;
          l \<leftarrow> darray_del (nat c) (ad_list A1);
          Some (new_iterator (ai_idx it), A1\<lparr>ad_list := l\<rparr>) }
        else do {
          A1 \<leftarrow> set_next (ai_prev it) (adj_next e) A;
          l \<leftarrow> darray_del (nat c) (ad_list A1);
          let A2 = A1\<lparr>ad_list := l\<rparr>;
          k \<leftarrow> at_idx (ad_index A2) (ai_idx it);
          A3 \<leftarrow> (if ix_pointer k = c then set_pointer (ai_idx it) (adj_next e) A2 else Some A2);
          Some (it\<lparr>ai_start := (if ai_start it = c then adj_next e else ai_start it), ai_curr := adj_next e\<rparr>, A3) } })"

definition adj_begin :: "int \<Rightarrow> ('a, 'b) adjlist \<Rightarrow> adjlist_iterator option" where
  "adj_begin k A = do {
     v \<leftarrow> valid_idx (ad_index A) k;
     if \<not> v then Some (new_iterator k)
     else do {
       e \<leftarrow> at_idx (ad_index A) k;
       if ix_pointer e = - 1 then Some (new_iterator k)
       else do {
         l \<leftarrow> at_idx (ad_list A) (ix_pointer e);
         Some ((new_iterator k)\<lparr>ai_isvalid := True, ai_prev := ix_pointer e, ai_start := adj_next l, ai_curr := adj_next l\<rparr>) } } }"

definition next_no_move_ptr :: "('a, 'b) adjlist \<Rightarrow> adjlist_iterator \<Rightarrow> adjlist_iterator option" where
  "next_no_move_ptr A it = do {
     e \<leftarrow> at_idx (ad_list A) (ai_curr it);
     Some (if adj_next e = ai_start it then it\<lparr>ai_isvalid := False\<rparr>
           else it\<lparr>ai_prev := ai_curr it, ai_curr := adj_next e\<rparr>) }"

definition adj_iter_next :: "adjlist_iterator \<Rightarrow> ('a, 'b) adjlist \<Rightarrow> (adjlist_iterator \<times> ('a, 'b) adjlist) option" where
  "adj_iter_next it A = do {
     A1 \<leftarrow> set_pointer (ai_idx it) (ai_curr it) A;
     it1 \<leftarrow> next_no_move_ptr A1 it;
     Some (it1, A1) }"

definition adj_end :: "adjlist_iterator \<Rightarrow> bool" where
  "adj_end it \<longleftrightarrow> \<not> ai_isvalid it"

definition adj_deref :: "('a, 'b) adjlist \<Rightarrow> adjlist_iterator \<Rightarrow> 'b option" where
  "adj_deref A it = map_option adjdata (at_idx (ad_list A) (ai_curr it))"

text \<open>A client's loop over the elements of a key.\<close>

partial_function (option) walk :: "('a, 'b) adjlist \<Rightarrow> adjlist_iterator \<Rightarrow> 'b list option" where
  "walk A it =
     (if adj_end it then Some []
      else Option.bind (adj_deref A it) (\<lambda>x. Option.bind (next_no_move_ptr A it) (\<lambda>it'. Option.bind (walk A it') (\<lambda>xs. Some (x # xs)))))"

definition adj_elements :: "('a, 'b) adjlist \<Rightarrow> int \<Rightarrow> 'b list option" where
  "adj_elements A k = Option.bind (adj_begin k A) (walk A)"

declare walk.simps [code]


section \<open>Rings\<close>

text \<open>
  The ghost function \<open>R\<close> gives the positions of the elements of each key, in the order of iteration; the key's pointer is the last of them.
\<close>

definition links :: "('a, 'b) adjlist \<Rightarrow> nat \<Rightarrow> nat \<Rightarrow> bool" where
  "links A a b \<longleftrightarrow> map_option adj_next (darray_get (ad_list A) a) = Some (int b)"

definition ring :: "('a, 'b) adjlist \<Rightarrow> nat list \<Rightarrow> bool" where
  "ring A xs \<longleftrightarrow> distinct xs \<and> set xs \<subseteq> in_use (ad_list A) \<and> (xs = [] \<or> successively (links A) (xs @ [hd xs]))"

definition ptr_of :: "nat list \<Rightarrow> int" where
  "ptr_of xs = (if xs = [] then - 1 else int (last xs))"

definition key_ptr :: "('a, 'b) adjlist \<Rightarrow> nat \<Rightarrow> int option" where
  "key_ptr A k = map_option ix_pointer (darray_get (ad_index A) k)"

definition adj_rel :: "('a, 'b) adjlist \<Rightarrow> (nat \<Rightarrow> nat list) \<Rightarrow> bool" where
  "adj_rel A R \<longleftrightarrow> darray_ok (ad_index A) \<and> darray_ok (ad_list A)
     \<and> (\<forall>k\<in>in_use (ad_index A). ring A (R k) \<and> key_ptr A k = Some (ptr_of (R k)))
     \<and> (\<forall>j\<in>in_use (ad_index A). \<forall>k\<in>in_use (ad_index A). j \<noteq> k \<longrightarrow> set (R j) \<inter> set (R k) = {})"

definition adj_ok :: "('a, 'b) adjlist \<Rightarrow> bool" where
  "adj_ok A \<longleftrightarrow> (\<exists>R. adj_rel A R)"

definition data_at :: "('a, 'b) adjlist \<Rightarrow> nat \<Rightarrow> 'b" where
  "data_at A i = adjdata (the (darray_get (ad_list A) i))"

lemma darray_set_ok:
  assumes "darray_ok d" "i \<in> in_use d"
  shows "\<exists>d'. darray_set i x d = Some d' \<and> darray_ok d' \<and> in_use d' = in_use d
    \<and> (\<forall>j. darray_get d' j = (if j = i then Some x else darray_get d j))"
proof -
  let ?d = "d\<lparr>d_data := (d_data d)[i := (x, snd (d_data d ! i))]\<rparr>"
  have u: "in_use ?d = in_use d" by (cases "i < length (d_data d)") (auto simp: in_use_def nth_list_update)
  have "darray_ok ?d" using assms(1) unfolding darray_ok_def u by simp
  moreover have "darray_set i x d = Some ?d" using assms(2) by (simp add: darray_set_def in_use_def)
  ultimately show ?thesis using u assms(2) by (auto simp: darray_get_def in_use_def)
qed

lemma in_use_get: "i \<in> in_use d \<Longrightarrow> \<exists>x. darray_get d i = Some x"
  by (simp add: in_use_def darray_get_def)

lemma set_next_ok:
  assumes "darray_ok (ad_list A)" "a \<in> in_use (ad_list A)"
  shows "\<exists>A'. set_next (int a) n A = Some A' \<and> ad_index A' = ad_index A \<and> darray_ok (ad_list A') \<and> in_use (ad_list A') = in_use (ad_list A)
    \<and> (\<forall>j. darray_get (ad_list A') j = (if j = a then map_option (adj_next_update (\<lambda>_. n)) (darray_get (ad_list A) a) else darray_get (ad_list A) j))"
proof -
  obtain e where e: "darray_get (ad_list A) a = Some e" using in_use_get [OF assms(2)] by blast
  show ?thesis using darray_set_ok [OF assms, of "e\<lparr>adj_next := n\<rparr>"] e by (auto simp: set_next_def at_idx_def)
qed

lemma set_pointer_ok:
  assumes "darray_ok (ad_index A)" "k \<in> in_use (ad_index A)"
  shows "\<exists>A'. set_pointer (int k) p A = Some A' \<and> ad_list A' = ad_list A \<and> darray_ok (ad_index A') \<and> in_use (ad_index A') = in_use (ad_index A)
    \<and> (\<forall>j. key_ptr A' j = (if j = k then Some p else key_ptr A j))"
proof -
  obtain e where e: "darray_get (ad_index A) k = Some e" using in_use_get [OF assms(2)] by blast
  show ?thesis using darray_set_ok [OF assms, of "e\<lparr>ix_pointer := p\<rparr>"] e by (auto simp: set_pointer_def at_idx_def key_ptr_def)
qed

lemma valid_idx_in_use: "darray_ok d \<Longrightarrow> k \<in> in_use d \<Longrightarrow> valid_idx d (int k) = Some True"
  using isvalid_in_use [of d k] by (auto simp: valid_idx_def in_use_def darray_ok_def)

lemma ring_cong:
  assumes "ring A xs" "set xs \<subseteq> in_use (ad_list A')" "\<And>a. a \<in> set xs \<Longrightarrow> darray_get (ad_list A') a = darray_get (ad_list A) a"
  shows "ring A' xs"
proof (cases "xs = []")
  case False
  have "successively (links A') (xs @ [hd xs]) = successively (links A) (xs @ [hd xs])"
    by (rule successively_cong) (use assms(3) False in \<open>auto simp: links_def\<close>)
  then show ?thesis using assms by (simp add: ring_def)
qed (simp add: ring_def)

lemma adj_rel_update:
  assumes R: "adj_rel A R" and ok: "darray_ok (ad_index A')" "darray_ok (ad_list A')" "in_use (ad_index A') = in_use (ad_index A)"
    and ptr: "\<And>j. key_ptr A' j = (if j = k then Some (ptr_of xs) else key_ptr A j)"
    and old: "\<And>j a. j \<in> in_use (ad_index A) \<Longrightarrow> j \<noteq> k \<Longrightarrow> a \<in> set (R j) \<Longrightarrow>
      a \<in> in_use (ad_list A') \<and> darray_get (ad_list A') a = darray_get (ad_list A) a \<and> a \<notin> set xs"
    and new: "ring A' xs"
  shows "adj_rel A' (R(k := xs))"
proof -
  have "ring A' (R j)" if "j \<in> in_use (ad_index A)" "j \<noteq> k" for j
    using ring_cong [of A "R j" A'] R old [OF that] that by (auto simp: adj_rel_def)
  then have r: "ring A' ((R(k := xs)) j)" if "j \<in> in_use (ad_index A)" for j using that new by (cases "j = k") auto
  have p: "key_ptr A' j = Some (ptr_of ((R(k := xs)) j))" if "j \<in> in_use (ad_index A)" for j
    using ptr [of j] R that by (auto simp: adj_rel_def)
  have o: "set xs \<inter> set (R j) = {}" if "j \<in> in_use (ad_index A)" "j \<noteq> k" for j using old [OF that] by blast
  have o': "set (R i) \<inter> set (R j) = {}" if "i \<in> in_use (ad_index A)" "j \<in> in_use (ad_index A)" "i \<noteq> j" for i j
    using R that by (simp add: adj_rel_def)
  have d: "set ((R(k := xs)) i) \<inter> set ((R(k := xs)) j) = {}"
    if "i \<in> in_use (ad_index A)" "j \<in> in_use (ad_index A)" "i \<noteq> j" for i j
    using o [of i] o [of j] o' [of i j] that by (auto simp: fun_upd_def)
  show ?thesis unfolding adj_rel_def ok(3) using r p d ok by blast
qed

lemma walk_end: "\<not> ai_isvalid it \<Longrightarrow> walk A it = Some []"
  by (simp add: walk.simps [of A it] adj_end_def)

lemma nth_walk:
  assumes "ring A (y # ys)" "xs \<noteq> []" "ys' @ xs = y # ys"
  shows "walk A \<lparr>ai_prev = p, ai_start = int y, ai_idx = k, ai_isvalid = True, ai_curr = int (hd xs)\<rparr> = Some (map (data_at A) xs)"
  using assms(2,3)
proof (induction xs arbitrary: ys' p)
  case (Cons a xs)
  have "a \<in> set (y # ys)" unfolding Cons.prems(2) [symmetric] by simp
  then have u: "a \<in> in_use (ad_list A)" and d: "distinct (y # ys)" using assms(1) unfolding ring_def by blast+
  obtain e where e: "darray_get (ad_list A) a = Some e" using in_use_get [OF u] by blast
  have "ys' @ a # xs @ [y] = (y # ys) @ [y]" unfolding Cons.prems(2) [symmetric] by simp
  from this [symmetric] have s: "successively (links A) (ys' @ a # xs @ [y])" using assms(1) by (simp only: ring_def list.sel) blast
  then have l: "links A a (hd (xs @ [y]))" by (auto simp: successively_append_iff successively_Cons)
  show ?case
  proof (cases xs)
    case Nil
    then have "adj_next e = int y" using l e by (simp add: links_def)
    then show ?thesis using e Nil
      by (subst walk.simps) (simp add: adj_end_def adj_deref_def at_idx_def next_no_move_ptr_def data_at_def walk_end)
  next
    case c: (Cons b zs)
    then have n: "adj_next e = int b" using l e by (simp add: links_def)
    have "b \<noteq> y" using d Cons.prems(2) c by (cases ys') auto
    then show ?thesis using e n Cons.IH [of "ys' @ [a]" "int a"] Cons.prems(2) c
      by (subst walk.simps) (simp add: adj_end_def adj_deref_def at_idx_def next_no_move_ptr_def data_at_def)
  qed
qed simp

lemma adj_elements_rel:
  assumes R: "adj_rel A R" and k: "k \<in> in_use (ad_index A)"
  shows "adj_elements A (int k) = Some (map (data_at A) (R k))"
proof -
  have V: "valid_idx (ad_index A) (int k) = Some True" using R k by (simp add: adj_rel_def valid_idx_in_use)
  obtain e where e: "darray_get (ad_index A) k = Some e" using in_use_get [OF k] by blast
  have r: "ring A (R k)" and p: "ix_pointer e = ptr_of (R k)" using R k e by (auto simp: adj_rel_def key_ptr_def)
  show ?thesis
  proof (cases "R k")
    case Nil
    then show ?thesis using V e p by (simp add: adj_elements_def adj_begin_def at_idx_def ptr_of_def new_iterator_def walk_end)
  next
    case (Cons y ys)
    let ?l = "last (y # ys)"
    have "?l \<in> in_use (ad_list A)" using r Cons by (auto simp: ring_def)
    then obtain f where f: "darray_get (ad_list A) ?l = Some f" using in_use_get by blast
    have "links A ?l y" using r Cons unfolding ring_def successively_append_iff by simp
    then have "adj_next f = int y" using f by (simp add: links_def)
    then show ?thesis using V e p f Cons nth_walk [of A y ys "y # ys" "[]" "int ?l" "int k"] r
      by (simp add: adj_elements_def adj_begin_def at_idx_def ptr_of_def new_iterator_def del: last.simps)
  qed
qed


section \<open>Adding\<close>

lemma last_notin_butlast: "distinct xs \<Longrightarrow> xs \<noteq> [] \<Longrightarrow> last xs \<notin> set (butlast xs)"
  by (cases xs rule: rev_cases) auto

lemma data_at_cong: "(\<And>a. a \<in> set xs \<Longrightarrow> darray_get (ad_list A') a = darray_get (ad_list A) a) \<Longrightarrow> map (data_at A') xs = map (data_at A) xs"
  by (simp add: data_at_def)

lemma links_butlast:
  assumes s: "successively (links A) xs"
    and old: "\<And>a. a \<in> set (butlast xs) \<Longrightarrow> darray_get (ad_list A') a = darray_get (ad_list A) a"
  shows "successively (links A') xs"
proof (cases xs rule: rev_cases)
  case (snoc us p)
  have "successively (links A') us = successively (links A) us"
    by (rule successively_cong) (use old snoc in \<open>auto simp: links_def\<close>)
  moreover have "links A' (last us) p = links A (last us) p" if "us \<noteq> []" using old [of "last us"] that snoc by (simp add: links_def)
  ultimately show ?thesis using s snoc by (auto simp: successively_append_iff)
qed simp

lemma ring_push:
  assumes r: "ring A xs" and ne: "xs \<noteq> []" and n: "n \<notin> in_use (ad_list A)" "in_use (ad_list A') = insert n (in_use (ad_list A))"
    and l: "links A' n (hd xs)" "links A' (last xs) n"
    and old: "\<And>a. a \<in> set (butlast xs) \<Longrightarrow> darray_get (ad_list A') a = darray_get (ad_list A) a"
  shows "ring A' (n # xs)"
proof -
  have s: "successively (links A) xs" using r ne by (simp add: ring_def successively_append_iff)
  have "successively (links A') xs" using links_butlast [OF s old] .
  then have "successively (links A') (n # xs @ [n])" using l ne by (auto simp: successively_Cons successively_append_iff)
  then show ?thesis using r n by (auto simp: ring_def)
qed

lemma adj_rel_arrays: "adj_rel A R \<Longrightarrow> darray_ok (ad_index A)" "adj_rel A R \<Longrightarrow> darray_ok (ad_list A)"
  by (simp_all add: adj_rel_def)

lemma adj_rel_ring: "adj_rel A R \<Longrightarrow> k \<in> in_use (ad_index A) \<Longrightarrow> ring A (R k)"
  by (simp add: adj_rel_def)

lemma adj_rel_ptr: "adj_rel A R \<Longrightarrow> k \<in> in_use (ad_index A) \<Longrightarrow> key_ptr A k = Some (ptr_of (R k))"
  by (simp add: adj_rel_def)

lemma adj_rel_sub: "adj_rel A R \<Longrightarrow> k \<in> in_use (ad_index A) \<Longrightarrow> set (R k) \<subseteq> in_use (ad_list A)"
  by (simp add: adj_rel_def ring_def)

lemma adj_rel_disjoint:
  "adj_rel A R \<Longrightarrow> j \<in> in_use (ad_index A) \<Longrightarrow> k \<in> in_use (ad_index A) \<Longrightarrow> j \<noteq> k \<Longrightarrow> set (R j) \<inter> set (R k) = {}"
  by (simp add: adj_rel_def)

lemma add_element_first:
  assumes R: "adj_rel A R" and k: "k \<in> in_use (ad_index A)" and True: "R k = []"
  shows "\<exists>n it A'. add_element db (int k) x A = Some (it, A') \<and> adj_rel A' (R(k := n # R k)) \<and> n \<notin> in_use (ad_list A) \<and> data_at A' n = x
    \<and> in_use (ad_index A') = in_use (ad_index A) \<and> (\<forall>a\<in>in_use (ad_list A). data_at A' a = data_at A a)
    \<and> it = \<lparr>ai_prev = int n, ai_start = int n, ai_idx = int k, ai_isvalid = True, ai_curr = int n\<rparr>"
proof -
  note ok = adj_rel_arrays [OF R] and r = adj_rel_ring [OF R k] and kp = adj_rel_ptr [OF R k] and sub = adj_rel_sub [OF R]
  obtain e where e: "darray_get (ad_index A) k = Some e" "ix_pointer e = ptr_of (R k)" using kp by (auto simp: key_ptr_def)
  have V: "valid_idx (ad_index A) (int k) = Some True" using ok k by (simp add: valid_idx_in_use)
  obtain n l where a: "darray_add db \<lparr>adjdata = x, adj_next = - 1\<rparr> (ad_list A) = Some (n, l)" "darray_ok l" "n \<notin> in_use (ad_list A)"
    "in_use l = insert n (in_use (ad_list A))" "darray_get l n = Some \<lparr>adjdata = x, adj_next = - 1\<rparr>"
    "\<forall>i\<in>in_use (ad_list A). darray_get l i = darray_get (ad_list A) i"
    using add_ok [OF ok(2)] by blast
  obtain A1 where b: "set_next (int n) (int n) (A\<lparr>ad_list := l\<rparr>) = Some A1" "ad_index A1 = ad_index A" "darray_ok (ad_list A1)"
    "in_use (ad_list A1) = in_use l" "\<And>j. darray_get (ad_list A1) j = (if j = n then Some \<lparr>adjdata = x, adj_next = int n\<rparr> else darray_get l j)"
    using set_next_ok [of "A\<lparr>ad_list := l\<rparr>" n "int n"] a by auto
  obtain A2 where c: "set_pointer (int k) (int n) A1 = Some A2" "ad_list A2 = ad_list A1" "darray_ok (ad_index A2)"
    "in_use (ad_index A2) = in_use (ad_index A)" "\<And>j. key_ptr A2 j = (if j = k then Some (int n) else key_ptr A1 j)"
    using set_pointer_ok [of A1 k "int n"] b(2) ok k by auto
  have old: "darray_get (ad_list A2) i = darray_get (ad_list A) i" if "i \<in> in_use (ad_list A)" for i
    using that a(3,6) b(5) c(2) by auto
  have "adj_rel A2 (R(k := [n]))"
  proof (rule adj_rel_update [OF R])
    show "ring A2 [n]" using b(4,5) c(2) a(4) by (simp add: ring_def links_def)
    show "key_ptr A2 j = (if j = k then Some (ptr_of [n]) else key_ptr A j)" for j using c(5) b(2) by (simp add: ptr_of_def key_ptr_def)
  next
    fix j i assume "j \<in> in_use (ad_index A)" "i \<in> set (R j)"
    then have "i \<in> in_use (ad_list A)" using sub by blast
    then show "i \<in> in_use (ad_list A2) \<and> darray_get (ad_list A2) i = darray_get (ad_list A) i \<and> i \<notin> set [n]"
      using old a(3,4) b(4) c(2) by auto
  qed (use b(3) c in auto)
  moreover have "add_element db (int k) x A = Some (\<lparr>ai_prev = int n, ai_start = int n, ai_idx = int k, ai_isvalid = True, ai_curr = int n\<rparr>, A2)"
    using V e True a(1) b(1) c(1) by (simp add: add_element_def add_first_def at_idx_def ptr_of_def new_iterator_def)
  ultimately show ?thesis using a(3) old b(5) c True by (auto simp: data_at_def)
qed

lemma ring_rotate1: "ring A xs \<Longrightarrow> ring A (rotate1 xs)"
  by (cases xs) (auto simp: ring_def successively_append_iff successively_Cons hd_append)

lemma ring_rotate: "ring A (us @ vs) \<Longrightarrow> ring A (vs @ us)"
proof -
  assume "ring A (us @ vs)"
  then have "ring A (rotate n (us @ vs))" for n by (induction n) (simp_all add: ring_rotate1)
  from this [of "length us"] show ?thesis by (simp add: rotate_append)
qed

definition with_after :: "'c list \<Rightarrow> 'c \<Rightarrow> 'c \<Rightarrow> 'c list \<Rightarrow> 'c list" where
  "with_after us b n vs = (if vs = [] then n # us @ [b] else us @ b # n # vs)"

lemma insert_after_rel:
  assumes R: "adj_rel A R" and k: "k \<in> in_use (ad_index A)" and x: "R k = us @ b # vs"
  shows "\<exists>n A'. insert_after db (int b) x A = Some (n, int (hd (vs @ us @ [b])), A') \<and> adj_rel A' (R(k := with_after us b n vs))
    \<and> n \<notin> in_use (ad_list A) \<and> data_at A' n = x
    \<and> in_use (ad_index A') = in_use (ad_index A) \<and> (\<forall>a\<in>in_use (ad_list A). data_at A' a = data_at A a)"
proof -
  note ok = adj_rel_arrays [OF R] and kp = adj_rel_ptr [OF R k] and sub = adj_rel_sub [OF R]
  let ?zs = "vs @ us @ [b]"
  have r: "ring A ?zs" using ring_rotate [of A "us @ [b]" vs] adj_rel_ring [OF R k] x by simp
  have p: "b \<in> in_use (ad_list A)" using x sub [OF k] by auto
  then obtain f where f: "darray_get (ad_list A) b = Some f" using in_use_get by blast
  have fn: "adj_next f = int (hd ?zs)" using r f by (simp add: ring_def successively_append_iff links_def)
  obtain n l where a: "darray_add db \<lparr>adjdata = x, adj_next = adj_next f\<rparr> (ad_list A) = Some (n, l)" "darray_ok l" "n \<notin> in_use (ad_list A)"
    "in_use l = insert n (in_use (ad_list A))" "darray_get l n = Some \<lparr>adjdata = x, adj_next = adj_next f\<rparr>"
    "\<forall>i\<in>in_use (ad_list A). darray_get l i = darray_get (ad_list A) i"
    using add_ok [OF ok(2)] by blast
  have np: "n \<noteq> b" using p a(3) by auto
  obtain A1 where c: "set_next (int b) (int n) (A\<lparr>ad_list := l\<rparr>) = Some A1" "ad_index A1 = ad_index A" "darray_ok (ad_list A1)"
    "in_use (ad_list A1) = in_use l" "\<And>j. darray_get (ad_list A1) j = (if j = b then Some (f\<lparr>adj_next := int n\<rparr>) else darray_get l j)"
    using set_next_ok [of "A\<lparr>ad_list := l\<rparr>" b "int n"] a p f by auto
  have old: "darray_get (ad_list A1) i = darray_get (ad_list A) i" if "i \<in> in_use (ad_list A)" "i \<noteq> b" for i
    using that a(6) c(5) by auto
  have bl: "i \<noteq> b \<and> i \<in> in_use (ad_list A)" if "i \<in> set (butlast ?zs)" for i
    using that r by (auto simp: ring_def butlast_append)
  have "ring A1 (n # ?zs)"
    by (rule ring_push [OF r _ a(3)]) (use c(4,5) a(4,5) fn np old bl in \<open>auto simp: links_def\<close>)
  then have r': "ring A1 (with_after us b n vs)" using ring_rotate [of A1 "n # vs" "us @ [b]"] by (auto simp: with_after_def)
  have "adj_rel A1 (R(k := with_after us b n vs))"
  proof (rule adj_rel_update [OF R _ c(3) _ _ _ r'])
    show "key_ptr A1 j = (if j = k then Some (ptr_of (with_after us b n vs)) else key_ptr A j)" for j
      using kp x c(2) by (auto simp: ptr_of_def key_ptr_def with_after_def)
  next
    fix j i assume h: "j \<in> in_use (ad_index A)" "j \<noteq> k" "i \<in> set (R j)"
    then have "i \<in> in_use (ad_list A)" "i \<notin> set (R k)" using sub adj_rel_disjoint [OF R h(1) k h(2)] by blast+
    then show "i \<in> in_use (ad_list A1) \<and> darray_get (ad_list A1) i = darray_get (ad_list A) i \<and> i \<notin> set (with_after us b n vs)"
      using old [of i] a(3,4) c(4) x by (auto simp: with_after_def)
  qed (use c ok in auto)
  moreover have "insert_after db (int b) x A = Some (n, int (hd ?zs), A1)"
    using a(1) c(1) f fn by (simp add: insert_after_def at_idx_def)
  moreover have "data_at A1 i = data_at A i" if "i \<in> in_use (ad_list A)" for i
    using that old [of i] c(5) [of i] f by (cases "i = b") (auto simp: data_at_def)
  ultimately show ?thesis using a(3,5) np c by (auto simp: data_at_def)
qed

lemma add_element_more:
  assumes R: "adj_rel A R" and k: "k \<in> in_use (ad_index A)" and ne: "R k \<noteq> []"
  shows "\<exists>n it A'. add_element db (int k) x A = Some (it, A') \<and> adj_rel A' (R(k := n # R k)) \<and> n \<notin> in_use (ad_list A) \<and> data_at A' n = x
    \<and> in_use (ad_index A') = in_use (ad_index A) \<and> (\<forall>a\<in>in_use (ad_list A). data_at A' a = data_at A a)
    \<and> it = \<lparr>ai_prev = int n, ai_start = int n, ai_idx = int k, ai_isvalid = True, ai_curr = int n\<rparr>"
proof -
  obtain us b where x: "R k = us @ b # []" using ne by (cases "R k" rule: rev_cases) auto
  obtain e where e: "darray_get (ad_index A) k = Some e" "ix_pointer e = int b"
    using adj_rel_ptr [OF R k] x by (auto simp: key_ptr_def ptr_of_def)
  have V: "valid_idx (ad_index A) (int k) = Some True" using adj_rel_arrays [OF R] k by (simp add: valid_idx_in_use)
  from insert_after_rel [OF R k x, of db x] show ?thesis
    using V e x by (auto simp: add_element_def at_idx_def new_iterator_def with_after_def)
qed

text \<open>With an iterator of the loop over the key, \<^verbatim>\<open>add_element_at\<close> inserts after the iterator's element.\<close>

lemma add_element_at_rel:
  assumes R: "adj_rel A R" and k: "k \<in> in_use (ad_index A)" and x: "R k = us @ b # vs" and it: "ai_curr it = int b"
  shows "\<exists>n it' A'. add_element_at db it (int k) x A = Some (it', A') \<and> adj_rel A' (R(k := with_after us b n vs)) \<and> data_at A' n = x
    \<and> in_use (ad_index A') = in_use (ad_index A) \<and> (\<forall>a\<in>in_use (ad_list A). data_at A' a = data_at A a) \<and> ai_curr it' = int b"
proof -
  obtain e where e: "darray_get (ad_index A) k = Some e" "ix_pointer e \<noteq> - 1"
    using adj_rel_ptr [OF R k] x by (auto simp: key_ptr_def ptr_of_def)
  have V: "valid_idx (ad_index A) (int k) = Some True" using adj_rel_arrays [OF R] k by (simp add: valid_idx_in_use)
  from insert_after_rel [OF R k x, of db x] show ?thesis using V e it by (auto simp: add_element_at_def at_idx_def)
qed

lemmas add_element_rel = add_element_first add_element_more


section \<open>Deleting\<close>

lemma ring_drop:
  assumes r: "ring A (b # vs)" and ne: "vs \<noteq> []" and u: "in_use (ad_list A') = in_use (ad_list A) - {b}"
    and l: "links A' (last vs) (hd vs)"
    and old: "\<And>a. a \<in> set (butlast vs) \<Longrightarrow> darray_get (ad_list A') a = darray_get (ad_list A) a"
  shows "ring A' vs"
proof -
  have s: "successively (links A) vs" using r ne by (simp add: ring_def successively_append_iff successively_Cons)
  have "successively (links A') vs" using links_butlast [OF s old] .
  then show ?thesis using r u l ne by (auto simp: ring_def successively_append_iff)
qed

lemma del_single:
  assumes R: "adj_rel A R" and k: "k \<in> in_use (ad_index A)" and x: "R k = [b]"
    and it: "ai_isvalid it" "ai_curr it = int b" "ai_idx it = int k"
  shows "\<exists>A'. del_element it A = Some (new_iterator (int k), A') \<and> adj_rel A' (R(k := [])) \<and> in_use (ad_index A') = in_use (ad_index A)
    \<and> (\<forall>a. data_at A' a = data_at A a)"
proof -
  note ok = adj_rel_arrays [OF R] and r = adj_rel_ring [OF R k] and sub = adj_rel_sub [OF R]
  have b: "b \<in> in_use (ad_list A)" using sub [OF k] x by simp
  then obtain f where f: "darray_get (ad_list A) b = Some f" using in_use_get by blast
  have fn: "adj_next f = int b" using r x f by (simp add: ring_def links_def)
  obtain A1 where p: "set_pointer (int k) (- 1) A = Some A1" "ad_list A1 = ad_list A" "darray_ok (ad_index A1)"
    "in_use (ad_index A1) = in_use (ad_index A)" "\<And>j. key_ptr A1 j = (if j = k then Some (- 1) else key_ptr A j)"
    using set_pointer_ok [OF ok(1) k, of "- 1"] by blast
  obtain l where d: "darray_del b (ad_list A) = Some l" "darray_ok l" "in_use l = in_use (ad_list A) - {b}" "\<And>i. darray_get l i = darray_get (ad_list A) i"
    using del_ok [OF ok(2) b] by blast
  have "adj_rel (A1\<lparr>ad_list := l\<rparr>) (R(k := []))"
  proof (rule adj_rel_update [OF R])
    show "key_ptr (A1\<lparr>ad_list := l\<rparr>) j = (if j = k then Some (ptr_of []) else key_ptr A j)" for j
      using p(5) by (simp add: ptr_of_def key_ptr_def)
  next
    fix j i assume h: "j \<in> in_use (ad_index A)" "j \<noteq> k" "i \<in> set (R j)"
    then show "i \<in> in_use (ad_list (A1\<lparr>ad_list := l\<rparr>)) \<and> darray_get (ad_list (A1\<lparr>ad_list := l\<rparr>)) i = darray_get (ad_list A) i \<and> i \<notin> set []"
      using sub [OF h(1)] adj_rel_disjoint [OF R h(1) k h(2)] d x by auto
  qed (use p d in \<open>auto simp: ring_def\<close>)
  moreover have "del_element it A = Some (new_iterator (int k), A1\<lparr>ad_list := l\<rparr>)"
    using it f fn p(1,2) d(1) by (simp add: del_element_def at_idx_def)
  ultimately show ?thesis using p(4) d(4) by (auto simp: data_at_def)
qed

text \<open>Deleting the element the pointer is at moves the pointer to the next one, which rotates the ring.\<close>

definition without :: "'c list \<Rightarrow> 'c list \<Rightarrow> 'c list" where
  "without us vs = (if vs = [] then rotate1 us else us @ vs)"

lemma set_without [simp]: "set (without us vs) = set us \<union> set vs"
  by (simp add: without_def)

lemma unlink_ring:
  assumes r: "ring A (us @ b # vs)" and ne: "us @ vs \<noteq> []"
    and u: "in_use (ad_list A') = in_use (ad_list A) - {b}"
    and get: "\<And>i. i \<noteq> last (vs @ us) \<Longrightarrow> darray_get (ad_list A') i = darray_get (ad_list A) i"
    and l: "links A' (last (vs @ us)) (hd (vs @ us))"
  shows "ring A' (without us vs)"
proof -
  have rot: "ring A (b # vs @ us)" using ring_rotate [OF r] by simp
  then have "last (vs @ us) \<notin> set (butlast (vs @ us))"
    using ne by (intro last_notin_butlast) (auto simp: ring_def)
  then have "ring A' (vs @ us)" by (intro ring_drop [OF rot _ u l] get) (use ne in auto)
  then have "ring A' (us @ vs)" by (rule ring_rotate)
  then show ?thesis by (cases "vs = []") (auto simp: without_def ring_rotate1)
qed

lemma move_pointer:
  assumes "darray_ok (ad_index B)" "k \<in> in_use (ad_index B)" "key_ptr B k = Some (int (last (b # vs)))" "us @ vs \<noteq> []"
  shows "\<exists>B'. (if vs = [] then set_pointer (int k) (int (hd (vs @ us))) B else Some B) = Some B' \<and> ad_list B' = ad_list B
    \<and> darray_ok (ad_index B') \<and> in_use (ad_index B') = in_use (ad_index B)
    \<and> (\<forall>j. key_ptr B' j = (if j = k then Some (ptr_of (without us vs)) else key_ptr B j))"
proof (cases "vs = []")
  case True
  then have "ptr_of (without us vs) = int (hd us)" using assms(4) by (cases us) (auto simp: ptr_of_def without_def)
  then show ?thesis using set_pointer_ok [OF assms(1,2), of "int (hd us)"] True by (simp only: append_Nil simp_thms if_True)
next
  case False
  then have "ptr_of (without us vs) = int (last (b # vs))" by (simp add: ptr_of_def without_def)
  then show ?thesis using False assms(1,3) by simp
qed

lemma del_linked:
  assumes R: "adj_rel A R" and k: "k \<in> in_use (ad_index A)" and x: "R k = us @ b # vs" "us @ vs \<noteq> []"
    and it: "ai_isvalid it" "ai_curr it = int b" "ai_idx it = int k" "ai_prev it = int (last (vs @ us))"
  shows "\<exists>A'. del_element it A = Some (it\<lparr>ai_start := (if ai_start it = int b then int (hd (vs @ us)) else ai_start it), ai_curr := int (hd (vs @ us))\<rparr>, A')
    \<and> adj_rel A' (R(k := without us vs)) \<and> in_use (ad_index A') = in_use (ad_index A) \<and> (\<forall>a. data_at A' a = data_at A a)"
proof -
  note ok = adj_rel_arrays [OF R] and r = adj_rel_ring [OF R k] and sub = adj_rel_sub [OF R] and kp = adj_rel_ptr [OF R k]
  let ?h = "hd (vs @ us)" and ?a = "last (vs @ us)"
  have ne: "vs @ us \<noteq> []" and dist: "distinct (us @ b # vs)" using x r by (auto simp: ring_def)
  have a: "?a \<in> set us \<union> set vs" "?h \<in> set us \<union> set vs" using last_in_set [OF ne] hd_in_set [OF ne] by auto
  have b: "b \<in> in_use (ad_list A)" and au: "?a \<in> in_use (ad_list A)" using sub [OF k] x a by auto
  then obtain f g where f: "darray_get (ad_list A) b = Some f" "darray_get (ad_list A) ?a = Some g" using in_use_get by metis
  have "ring A (b # vs @ us)" using ring_rotate [of A us "b # vs"] r x by simp
  then have fn: "adj_next f = int ?h" using f ne by (cases "vs @ us") (auto simp: ring_def links_def)
  have hb: "?h \<noteq> b" "?a \<noteq> b" using a dist by auto
  obtain A1 where n: "set_next (int ?a) (int ?h) A = Some A1" "ad_index A1 = ad_index A" "darray_ok (ad_list A1)"
    "in_use (ad_list A1) = in_use (ad_list A)" "\<And>j. darray_get (ad_list A1) j = (if j = ?a then Some (g\<lparr>adj_next := int ?h\<rparr>) else darray_get (ad_list A) j)"
    using set_next_ok [OF ok(2) au, of "int ?h"] f by auto
  obtain l where d: "darray_del b (ad_list A1) = Some l" "darray_ok l" "in_use l = in_use (ad_list A) - {b}" "\<And>i. darray_get l i = darray_get (ad_list A1) i"
    using del_ok [OF n(3), of b] b n(4) by auto
  obtain e where e: "darray_get (ad_index A) k = Some e" "ix_pointer e = int (last (b # vs))" using kp x by (auto simp: key_ptr_def ptr_of_def)
  have eb: "ix_pointer e = int b \<longleftrightarrow> vs = []" using e(2) dist by (cases vs rule: rev_cases) auto
  let ?B = "A1\<lparr>ad_list := l\<rparr>"
  have B: "ad_index ?B = ad_index A" "key_ptr ?B j = key_ptr A j" for j using n(2) by (simp_all add: key_ptr_def)
  have "key_ptr A k = Some (int (last (b # vs)))" using e by (simp add: key_ptr_def)
  from move_pointer [of ?B k b vs us, unfolded B, OF ok(1) k this x(2)]
  obtain A3 where A3: "(if vs = [] then set_pointer (int k) (int ?h) ?B else Some ?B) = Some A3"
    "ad_list A3 = ad_list ?B" "darray_ok (ad_index A3)" "in_use (ad_index A3) = in_use (ad_index A)"
    "\<And>j. key_ptr A3 j = (if j = k then Some (ptr_of (without us vs)) else key_ptr A j)" by blast
  have "adj_rel A3 (R(k := without us vs))"
  proof (rule adj_rel_update [OF R A3(3) _ A3(4,5)])
    show "ring A3 (without us vs)"
      by (rule unlink_ring [OF r [unfolded x(1)] x(2)]) (use A3(2) d n in \<open>auto simp: links_def\<close>)
    show "darray_ok (ad_list A3)" using A3(2) d(2) by simp
  next
    fix j i assume h: "j \<in> in_use (ad_index A)" "j \<noteq> k" "i \<in> set (R j)"
    then have "i \<notin> set us \<union> set vs \<union> {b}" "i \<in> in_use (ad_list A)" using sub [OF h(1)] adj_rel_disjoint [OF R h(1) k h(2)] x by auto
    then show "i \<in> in_use (ad_list A3) \<and> darray_get (ad_list A3) i = darray_get (ad_list A) i \<and> i \<notin> set (without us vs)"
      using A3(2) d(3,4) n(5) [of i] a(1) by auto
  qed
  moreover have "del_element it A = Some (it\<lparr>ai_start := (if ai_start it = int b then int ?h else ai_start it), ai_curr := int ?h\<rparr>, A3)"
    using it f(1) fn n(1,2) d(1) e(1) eb A3(1) hb by (cases "vs = []") (simp_all add: del_element_def at_idx_def Let_def)
  moreover have "data_at A3 i = data_at A i" for i using A3(2) d(4) n(5) [of i] f(2) by (simp add: data_at_def)
  ultimately show ?thesis using A3(4) by blast
qed


section \<open>What clients see\<close>

text \<open>The iterator that a loop over a key has after \<open>i\<close> steps.\<close>

fun nth_iter :: "('a, 'b) adjlist \<Rightarrow> int \<Rightarrow> nat \<Rightarrow> adjlist_iterator option" where
  "nth_iter A k 0 = adj_begin k A"
| "nth_iter A k (Suc i) = Option.bind (nth_iter A k i) (next_no_move_ptr A)"

lemma adj_begin_rel:
  assumes R: "adj_rel A R" and k: "k \<in> in_use (ad_index A)" and ne: "R k \<noteq> []"
  shows "adj_begin (int k) A = Some \<lparr>ai_prev = int (last (R k)), ai_start = int (hd (R k)), ai_idx = int k, ai_isvalid = True, ai_curr = int (hd (R k))\<rparr>"
proof -
  note ok = adj_rel_arrays [OF R] and r = adj_rel_ring [OF R k] and sub = adj_rel_sub [OF R k]
  obtain e where e: "darray_get (ad_index A) k = Some e" "ix_pointer e = int (last (R k))"
    using adj_rel_ptr [OF R k] ne by (auto simp: key_ptr_def ptr_of_def)
  have "last (R k) \<in> in_use (ad_list A)" using ne sub by auto
  then obtain f where f: "darray_get (ad_list A) (last (R k)) = Some f" using in_use_get by blast
  have "adj_next f = int (hd (R k))" using r ne f by (simp add: ring_def successively_append_iff links_def)
  then show ?thesis using valid_idx_in_use [OF ok(1) k] e f by (simp add: adj_begin_def at_idx_def new_iterator_def)
qed

lemma ring_link:
  assumes "ring A xs" "Suc i < length xs"
  shows "links A (xs ! i) (xs ! Suc i)" "xs ! Suc i \<noteq> hd xs"
proof -
  have "successively (links A) (xs @ [hd xs])" using assms by (auto simp: ring_def)
  then show "links A (xs ! i) (xs ! Suc i)" using assms(2)
    by (auto simp: successively_conv_nth nth_append dest!: spec [of _ i])
  show "xs ! Suc i \<noteq> hd xs" using assms by (cases xs) (auto simp: ring_def)
qed

lemma nth_iter_rel:
  assumes R: "adj_rel A R" and k: "k \<in> in_use (ad_index A)"
  shows "i < length (R k) \<Longrightarrow> nth_iter A (int k) i =
    Some \<lparr>ai_prev = int (if i = 0 then last (R k) else R k ! (i - 1)), ai_start = int (hd (R k)), ai_idx = int k, ai_isvalid = True, ai_curr = int (R k ! i)\<rparr>"
proof (induction i)
  case 0
  then have "R k \<noteq> []" by auto
  then show ?case using adj_begin_rel [OF R k] by (simp add: hd_conv_nth)
next
  case (Suc i)
  note L = ring_link [OF adj_rel_ring [OF R k] Suc.prems]
  then obtain f where "darray_get (ad_list A) (R k ! i) = Some f" "adj_next f = int (R k ! Suc i)" by (auto simp: links_def)
  then show ?case using Suc L(2) by (simp add: next_no_move_ptr_def at_idx_def)
qed

lemma del_element_rel:
  assumes R: "adj_rel A R" and k: "k \<in> in_use (ad_index A)" and i: "i < length (R k)" and it: "nth_iter A (int k) i = Some it"
  shows "\<exists>it' A'. del_element it A = Some (it', A') \<and> adj_rel A' (R(k := without (take i (R k)) (drop (Suc i) (R k))))
    \<and> in_use (ad_index A') = in_use (ad_index A) \<and> (\<forall>a. data_at A' a = data_at A a)"
proof -
  let ?us = "take i (R k)" and ?vs = "drop (Suc i) (R k)"
  have x: "R k = ?us @ R k ! i # ?vs" using i by (rule id_take_nth_drop)
  have I: "ai_isvalid it" "ai_curr it = int (R k ! i)" "ai_idx it = int k" "ai_prev it = int (if i = 0 then last (R k) else R k ! (i - 1))"
    using it nth_iter_rel [OF R k i] by auto
  show ?thesis
  proof (cases "?us @ ?vs = []")
    case True
    then have s: "R k = [R k ! i]" and w: "without ?us ?vs = []" using x by (auto simp: without_def)
    show ?thesis unfolding w using del_single [OF R k s I(1-3)] by blast
  next
    case False
    have "last (?vs @ ?us) = (if i = 0 then last (R k) else R k ! (i - 1))"
    proof (cases i)
      case 0
      then show ?thesis using False by (simp add: last_drop)
    next
      case (Suc j)
      then show ?thesis using i by (auto simp: take_Suc_conv_app_nth)
    qed
    then show ?thesis using del_linked [OF R k x False I(1-3)] I(4) by auto
  qed
qed

lemma keyvalid_iff: "adj_rel A R \<Longrightarrow> is_keyvalid A k = Some True \<longleftrightarrow> 0 \<le> k \<and> nat k \<in> in_use (ad_index A)"
  using isvalid_in_use [of "ad_index A" "nat k"] unfolding is_keyvalid_def valid_idx_def
  by (auto simp: adj_rel_def darray_ok_def darray_isvalid_def slot_valid_def in_use_def split: if_splits)

lemma add_key_rel:
  assumes R: "adj_rel A R"
  shows "\<exists>k A'. add_key da x A = Some (int k, A') \<and> k \<notin> in_use (ad_index A) \<and> adj_rel A' (R(k := []))
    \<and> in_use (ad_index A') = insert k (in_use (ad_index A)) \<and> key_data A' k = Some x \<and> ad_list A' = ad_list A"
proof -
  obtain k ix where a: "darray_add da \<lparr>ix_data = x, ix_pointer = - 1\<rparr> (ad_index A) = Some (k, ix)" "darray_ok ix" "k \<notin> in_use (ad_index A)"
    "in_use ix = insert k (in_use (ad_index A))" "darray_get ix k = Some \<lparr>ix_data = x, ix_pointer = - 1\<rparr>"
    "\<forall>i\<in>in_use (ad_index A). darray_get ix i = darray_get (ad_index A) i"
    using add_ok [OF adj_rel_arrays(1) [OF R]] by blast
  have g: "ring (A\<lparr>ad_index := ix\<rparr>) xs = ring A xs" for xs by (simp add: ring_def links_def [abs_def])
  have "adj_rel (A\<lparr>ad_index := ix\<rparr>) (R(k := []))"
    using R a by (auto simp: adj_rel_def g key_ptr_def ptr_of_def ring_def [of _ "[]"])
  then show ?thesis using a by (auto simp: add_key_def key_data_def)
qed

definition same_elsewhere :: "('a, 'b) adjlist \<Rightarrow> ('a, 'b) adjlist \<Rightarrow> int \<Rightarrow> bool" where
  "same_elsewhere A A' k \<longleftrightarrow> (\<forall>j. j \<noteq> k \<longrightarrow> (is_keyvalid A' j = Some True) = (is_keyvalid A j = Some True)
     \<and> (is_keyvalid A j = Some True \<longrightarrow> adj_elements A' j = adj_elements A j))"

lemma same_elsewhereI:
  assumes "adj_rel A R" "adj_rel A' R'" "in_use (ad_index A') - {k} = in_use (ad_index A) - {k}" "\<And>j. j \<noteq> k \<Longrightarrow> R' j = R j"
    and "\<And>a. a \<in> in_use (ad_list A) \<Longrightarrow> data_at A' a = data_at A a"
  shows "same_elsewhere A A' (int k)"
  unfolding same_elsewhere_def
proof (intro allI impI conjI)
  fix j assume j: "j \<noteq> int k"
  then have ne: "nat j \<noteq> k" if "0 \<le> j" using that by auto
  then have iff: "nat j \<in> in_use (ad_index A') \<longleftrightarrow> nat j \<in> in_use (ad_index A)" if "0 \<le> j" using that assms(3) by blast
  then show "(is_keyvalid A' j = Some True) = (is_keyvalid A j = Some True)"
    using keyvalid_iff [OF assms(1)] keyvalid_iff [OF assms(2)] by auto
  assume "is_keyvalid A j = Some True"
  then have v: "0 \<le> j" "nat j \<in> in_use (ad_index A)" using keyvalid_iff [OF assms(1)] by auto
  have "map (data_at A') (R (nat j)) = map (data_at A) (R (nat j))" using adj_rel_sub [OF assms(1) v(2)] assms(5) by auto
  then show "adj_elements A' j = adj_elements A j"
    using adj_elements_rel [OF assms(1) v(2)] adj_elements_rel [OF assms(2), of "nat j"] iff [OF v(1)] v assms(4) [OF ne [OF v(1)]] by simp
qed

lemma map_without: "map f (without us vs) = without (map f us) (map f vs)"
  by (simp add: without_def rotate1_map)

lemma del_nth:
  assumes R: "adj_rel A R" and k: "k \<in> in_use (ad_index A)" and i: "i < length (R k)"
  defines "xs \<equiv> map (data_at A) (R k)"
  shows "\<exists>it it' A'. nth_iter A (int k) i = Some it \<and> adj_deref A it = Some (xs ! i) \<and> del_element it A = Some (it', A') \<and> adj_ok A'
    \<and> adj_elements A' (int k) = Some (if Suc i < length xs then take i xs @ drop (Suc i) xs else rotate1 (butlast xs))
    \<and> same_elsewhere A A' (int k)"
proof -
  let ?it = "\<lparr>ai_prev = int (if i = 0 then last (R k) else R k ! (i - 1)), ai_start = int (hd (R k)), ai_idx = int k,
    ai_isvalid = True, ai_curr = int (R k ! i)\<rparr>"
  note n = nth_iter_rel [OF R k i]
  have "R k ! i \<in> in_use (ad_list A)" using adj_rel_sub [OF R k] i by auto
  then have d: "adj_deref A ?it = Some (xs ! i)" using in_use_get [of "R k ! i" "ad_list A"] i by (auto simp: adj_deref_def at_idx_def xs_def data_at_def)
  obtain it' A' where a: "del_element ?it A = Some (it', A')" "adj_rel A' (R(k := without (take i (R k)) (drop (Suc i) (R k))))"
    "in_use (ad_index A') = in_use (ad_index A)" "\<forall>a. data_at A' a = data_at A a"
    using del_element_rel [OF R k i n] by blast
  have D: "data_at A' = data_at A" using a(4) by auto
  have "adj_elements A' (int k) = Some (without (take i xs) (drop (Suc i) xs))"
    using adj_elements_rel [OF a(2), of k] k by (simp add: a(3) D xs_def map_without take_map drop_map)
  also have "without (take i xs) (drop (Suc i) xs) = (if Suc i < length xs then take i xs @ drop (Suc i) xs else rotate1 (butlast xs))"
  proof (cases "Suc i < length xs")
    case False
    then have "i = length xs - 1" using i by (simp add: xs_def)
    then show ?thesis using False by (simp add: without_def butlast_conv_take)
  qed (simp add: without_def)
  finally have e: "adj_elements A' (int k) = Some (if Suc i < length xs then take i xs @ drop (Suc i) xs else rotate1 (butlast xs))" .
  have "same_elsewhere A A' (int k)" by (rule same_elsewhereI [OF R a(2)]) (use a in auto)
  with n d a(1,2) e show ?thesis unfolding adj_ok_def by blast
qed

text \<open>
  C35. The adjacency list implements a map from keys to lists. A fresh key has no elements. For a valid key, the loop over its elements
  ends; adding puts the new element in front; deleting through the iterator that the loop has at position \<open>i\<close> removes
  that element, and rotates the list by one when it was the last. Each operation returns, keeps the list
  well-formed and leaves every other key's elements as they were.
\<close>

theorem adjlist_refines_lists:
  assumes "adj_ok A" "is_keyvalid A k = Some True"
  shows "\<exists>xs. adj_elements A k = Some xs
    \<and> (\<exists>it A'. add_element db k x A = Some (it, A') \<and> adj_ok A' \<and> adj_elements A' k = Some (x # xs) \<and> same_elsewhere A A' k)
    \<and> (\<forall>i<length xs. \<exists>it it' A'. nth_iter A k i = Some it \<and> adj_deref A it = Some (xs ! i) \<and> del_element it A = Some (it', A') \<and> adj_ok A'
         \<and> adj_elements A' k = Some (if Suc i < length xs then take i xs @ drop (Suc i) xs else rotate1 (butlast xs)) \<and> same_elsewhere A A' k)
    \<and> (\<exists>n A'. add_key da y A = Some (n, A') \<and> is_keyvalid A n \<noteq> Some True \<and> adj_ok A' \<and> adj_elements A' n = Some [] \<and> same_elsewhere A A' n)"
proof -
  obtain R where R: "adj_rel A R" using assms(1) by (auto simp: adj_ok_def)
  obtain n where k: "k = int n" "n \<in> in_use (ad_index A)" using assms(2) keyvalid_iff [OF R] by (metis int_nat_eq)
  let ?xs = "map (data_at A) (R n)"
  note sub = adj_rel_sub [OF R k(2)]
  have "\<exists>it A'. add_element db k x A = Some (it, A') \<and> adj_ok A' \<and> adj_elements A' k = Some (x # ?xs) \<and> same_elsewhere A A' k"
  proof -
    obtain a it A' where a: "add_element db k x A = Some (it, A')" "adj_rel A' (R(n := a # R n))" "data_at A' a = x"
      "in_use (ad_index A') = in_use (ad_index A)" "\<forall>a\<in>in_use (ad_list A). data_at A' a = data_at A a"
      using add_element_rel [OF R k(2), of db x] k(1) by blast
    have "adj_elements A' k = Some (x # ?xs)" using adj_elements_rel [OF a(2), of n] a(3-5) k sub by auto
    moreover have "same_elsewhere A A' k" unfolding k(1) by (rule same_elsewhereI [OF R a(2)]) (use a in auto)
    ultimately show ?thesis using a by (auto simp: adj_ok_def)
  qed
  moreover have "\<exists>it it' A'. nth_iter A k i = Some it \<and> adj_deref A it = Some (?xs ! i) \<and> del_element it A = Some (it', A') \<and> adj_ok A'
    \<and> adj_elements A' k = Some (if Suc i < length ?xs then take i ?xs @ drop (Suc i) ?xs else rotate1 (butlast ?xs)) \<and> same_elsewhere A A' k"
    if i: "i < length ?xs" for i
    using del_nth [OF R k(2)] i k(1) by simp
  moreover have "\<exists>n A'. add_key da y A = Some (n, A') \<and> is_keyvalid A n \<noteq> Some True \<and> adj_ok A' \<and> adj_elements A' n = Some [] \<and> same_elsewhere A A' n"
  proof -
    obtain m A' where a: "add_key da y A = Some (int m, A')" "m \<notin> in_use (ad_index A)" "adj_rel A' (R(m := []))"
      "in_use (ad_index A') = insert m (in_use (ad_index A))" "ad_list A' = ad_list A" using add_key_rel [OF R, of da y] by blast
    have "same_elsewhere A A' (int m)" by (rule same_elsewhereI [OF R a(3)]) (use a in \<open>auto simp: data_at_def\<close>)
    moreover have "adj_elements A' (int m) = Some []" using adj_elements_rel [OF a(3), of m] a(4) by simp
    ultimately show ?thesis using a keyvalid_iff [OF R, of "int m"] by (auto simp: adj_ok_def)
  qed
  ultimately show ?thesis using adj_elements_rel [OF R k(2)] k(1) by blast
qed

text \<open>A key with two elements, and the loop's second one deleted.\<close>

definition no_keys :: "(nat, nat) adjlist" where
  "no_keys = \<lparr>ad_index = new_darray \<lparr>ix_data = 0, ix_pointer = 0\<rparr> 4, ad_list = new_darray \<lparr>adjdata = 0, adj_next = 0\<rparr> 4\<rparr>"

definition two_elements :: "(adjlist_iterator \<times> (nat, nat) adjlist) option" where
  "two_elements = do {
     (k, A) \<leftarrow> add_key \<lparr>ix_data = 0, ix_pointer = 0\<rparr> 5 no_keys;
     (_, A) \<leftarrow> add_element \<lparr>adjdata = 0, adj_next = 0\<rparr> k 7 A;
     add_element \<lparr>adjdata = 0, adj_next = 0\<rparr> k 8 A }"

lemma two_elements_ok: "\<exists>it A. two_elements = Some (it, A) \<and> adj_ok A"
proof -
  have "adj_rel no_keys (\<lambda>_. [])"
    using new_darray_ok [of 4 "\<lparr>ix_data = 0 :: nat, ix_pointer = 0\<rparr>"] new_darray_ok [of 4 "\<lparr>adjdata = 0 :: nat, adj_next = 0\<rparr>"]
    by (simp add: adj_rel_def no_keys_def)
  from add_key_rel [OF this] obtain k A R where a: "add_key \<lparr>ix_data = 0, ix_pointer = 0\<rparr> 5 no_keys = Some (int k, A)"
    "k \<in> in_use (ad_index A)" "adj_rel A R" by blast
  from add_element_rel [OF a(3,2)] obtain it B S where b: "add_element \<lparr>adjdata = 0, adj_next = 0\<rparr> (int k) 7 A = Some (it, B)"
    "k \<in> in_use (ad_index B)" "adj_rel B S" using a(2) by metis
  from add_element_rel [OF b(3,2)] obtain it' C S' where "add_element \<lparr>adjdata = 0, adj_next = 0\<rparr> (int k) 8 B = Some (it', C)" "adj_rel C S'"
    by metis
  then show ?thesis using a b by (auto simp: two_elements_def adj_ok_def)
qed

theorem adjlist_refines_lists_witness:
  "\<exists>it A. two_elements = Some (it, A) \<and> adj_elements A 0 = Some [8, 7]
    \<and> (\<exists>it it' A'. nth_iter A 0 1 = Some it \<and> del_element it A = Some (it', A') \<and> adj_ok A' \<and> adj_elements A' 0 = Some [8])"
proof -
  obtain it A where a: "two_elements = Some (it, A)" "adj_ok A" using two_elements_ok by blast
  have "map_option (\<lambda>(_, A). is_keyvalid A 0) two_elements = Some (Some True)"
    "map_option (\<lambda>(_, A). adj_elements A 0) two_elements = Some (Some [8, 7])" by code_simp+
  then have k: "is_keyvalid A 0 = Some True" and e: "adj_elements A 0 = Some [8, 7]" by (simp_all add: a(1))
  have "\<exists>it it' A'. nth_iter A 0 1 = Some it \<and> del_element it A = Some (it', A') \<and> adj_ok A' \<and> adj_elements A' 0 = Some [8]"
  proof -
    obtain xs where x: "adj_elements A 0 = Some xs" and d: "\<forall>i<length xs. \<exists>it it' A'. nth_iter A 0 i = Some it
      \<and> adj_deref A it = Some (xs ! i) \<and> del_element it A = Some (it', A') \<and> adj_ok A'
      \<and> adj_elements A' 0 = Some (if Suc i < length xs then take i xs @ drop (Suc i) xs else rotate1 (butlast xs)) \<and> same_elsewhere A A' 0"
      using adjlist_refines_lists [OF a(2) k] by blast
    have xs: "xs = [8, 7]" using x e by simp
    show ?thesis using d [rule_format, of 1] unfolding xs by auto
  qed
  then show ?thesis using a(1) e by blast
qed

text \<open>
  The iterator that \<^verbatim>\<open>add_element\<close> returns for a further element names itself as its predecessor. Deleting through it frees the slot but
  unlinks nothing: the ring still runs through the slot, which the next addition to any key reuses.
\<close>

theorem returned_iterator_unlinks_nothing:
  "(case two_elements of Some (it, A) \<Rightarrow>
      (case del_element it A of Some (_, A') \<Rightarrow>
         adj_elements A' 0 = Some [8, 7] \<and> valid_idx (ad_list A') (ai_curr it) = Some False \<and> ai_curr it = 1 | None \<Rightarrow> False)
    | None \<Rightarrow> False)"
  by code_simp

text \<open>Deleting the last element of a round does not end the round: the iterator is valid and back at the first element.\<close>

theorem deleting_last_starts_over:
  "(case two_elements of Some (_, A) \<Rightarrow>
      (case nth_iter A 0 1 of Some it \<Rightarrow>
         (case del_element it A of Some (it', A') \<Rightarrow> \<not> adj_end it' \<and> adj_deref A' it' = Some 8 | None \<Rightarrow> False)
       | None \<Rightarrow> False)
    | None \<Rightarrow> False)"
  by code_simp

text \<open>Deleting a key leaves its elements in their array, where no key reaches them.\<close>

theorem del_key_leaks:
  "(case two_elements of Some (_, A) \<Rightarrow>
      (case del_key 0 A of Some A' \<Rightarrow> is_keyvalid A' 0 = Some False \<and> get_totalsize (ad_index A') = 0 \<and> get_totalsize (ad_list A') = 2 | None \<Rightarrow> False)
    | None \<Rightarrow> False)"
  by code_simp

end
