(* ===== verification/Lockless_Queue.thy ===== *)
theory Lockless_Queue
  imports SD_Prelude
begin

text \<open>
  The two-block queue of the legacy data plane, \<^verbatim>\<open>common/locklessq_v3.hpp\<close>. A sender and a receiver process have a
  descriptor each; the two ring buffers and the two return flags are shared. The sender fills one block after the other; a
  block that the receiver has used up goes back to the sender through its flag. Elements may be
  deleted out of order. Blocks are named \<open>False\<close> and \<open>True\<close>, so that the next block is the negation. \<open>None\<close> is
  an access outside a buffer, or a loop that does not end.
\<close>

section \<open>Data\<close>

record 'a element =
  el_data :: 'a
  el_valid :: bool
  el_del :: bool

record 'a qmem =
  ringbuffer :: "bool \<Rightarrow> 'a element list"
  return_flag :: "bool \<Rightarrow> bool"

record q3 =
  q_start :: bool
  q_prev :: bool
  q_pointer :: nat
  q_avail :: "bool \<Rightarrow> bool"
  is_receiver :: bool

definition init_ptr :: "bool \<Rightarrow> q3" where
  "init_ptr r = \<lparr>q_start = False, q_prev = True, q_pointer = 0, q_avail = (\<lambda>_. True), is_receiver = r\<rparr>"

text \<open>\<open>zero\<close> is the element data that \<^verbatim>\<open>memset\<close> leaves.\<close>

definition init_mem :: "'a \<Rightarrow> nat \<Rightarrow> 'a qmem" where
  "init_mem zero SZ = \<lparr>ringbuffer = (\<lambda>_. replicate SZ \<lparr>el_data = zero, el_valid = False, el_del = False\<rparr>),
     return_flag = (\<lambda>_. False)\<rparr>"

definition put_element :: "bool \<Rightarrow> nat \<Rightarrow> 'a element \<Rightarrow> 'a qmem \<Rightarrow> 'a qmem option" where
  "put_element b i e m =
     (if i < length (ringbuffer m b) then Some (m\<lparr>ringbuffer := (ringbuffer m)(b := (ringbuffer m b)[i := e])\<rparr>) else None)"

definition get_element :: "bool \<Rightarrow> nat \<Rightarrow> 'a qmem \<Rightarrow> 'a element option" where
  "get_element b i m = (if i < length (ringbuffer m b) then Some (ringbuffer m b ! i) else None)"


section \<open>The sender\<close>

definition check_next_avail :: "bool \<Rightarrow> q3 \<Rightarrow> 'a qmem \<Rightarrow> bool \<times> q3 \<times> 'a qmem" where
  "check_next_avail b q m =
     (if return_flag m b then (True, q\<lparr>q_avail := (q_avail q)(b := True)\<rparr>, m\<lparr>return_flag := (return_flag m)(b := False)\<rparr>)
      else (q_avail q b, q, m))"

definition fill_slot :: "nat \<Rightarrow> 'a \<Rightarrow> q3 \<Rightarrow> 'a qmem \<Rightarrow> (bool \<times> q3 \<times> 'a qmem) option" where
  "fill_slot SZ x q m =
     (let local_ptr = and (q_pointer q) (SZ - 1)
      in map_option (\<lambda>m'. (True, q\<lparr>q_pointer := q_pointer q + 1\<rparr>, m'))
           (put_element (q_start q) local_ptr \<lparr>el_data = x, el_valid = True, el_del = False\<rparr> m))"

definition push_nb :: "nat \<Rightarrow> 'a \<Rightarrow> q3 \<Rightarrow> 'a qmem \<Rightarrow> (bool \<times> q3 \<times> 'a qmem) option" where
  "push_nb SZ x q m =
     (if q_pointer q = SZ
      then let q1 = q\<lparr>q_avail := (q_avail q)(q_start q := False)\<rparr>;
               (ok, q2, m2) = check_next_avail (\<not> q_start q1) q1 m
        in if ok then fill_slot SZ x (q2\<lparr>q_pointer := 0, q_prev := q_start q2, q_start := \<not> q_start q2\<rparr>) m2
           else Some (False, q2, m2)
      else fill_slot SZ x q m)"

definition is_full :: "nat \<Rightarrow> q3 \<Rightarrow> bool" where
  "is_full SZ q \<longleftrightarrow> q_pointer q = SZ"


section \<open>The receiver\<close>

record iter =
  it_pointer :: nat
  it_blk :: "bool option"

definition it_default :: "nat \<Rightarrow> iter" where
  "it_default SZ = \<lparr>it_pointer = SZ, it_blk = None\<rparr>"

definition it_init :: "bool option \<Rightarrow> nat \<Rightarrow> iter" where
  "it_init b p = \<lparr>it_pointer = p, it_blk = b\<rparr>"

definition q_begin :: "q3 \<Rightarrow> iter" where
  "q_begin q = it_init (Some (q_start q)) (q_pointer q)"

definition it_next :: "nat \<Rightarrow> iter \<Rightarrow> iter option" where
  "it_next SZ it =
     (if it_pointer it = SZ - 1
      then (case it_blk it of None \<Rightarrow> None | Some b \<Rightarrow> Some \<lparr>it_pointer = 0, it_blk = Some (\<not> b)\<rparr>)
      else Some (it\<lparr>it_pointer := it_pointer it + 1\<rparr>))"

definition it_deref :: "iter \<Rightarrow> 'a qmem \<Rightarrow> 'a element option" where
  "it_deref it m = (case it_blk it of None \<Rightarrow> None | Some b \<Rightarrow> get_element b (it_pointer it) m)"

definition it_valid :: "nat \<Rightarrow> iter \<Rightarrow> bool" where
  "it_valid SZ it \<longleftrightarrow> it_blk it \<noteq> None \<and> it_pointer it < SZ"

text \<open>One pass of the loop in \<^verbatim>\<open>del\<close> at a deleted element: it is invalidated, the iterator moves along, a block used up is returned.\<close>

definition release_head :: "nat \<Rightarrow> 'a element \<Rightarrow> iter \<Rightarrow> q3 \<Rightarrow> 'a qmem \<Rightarrow> (iter \<times> q3 \<times> 'a qmem) option" where
  "release_head SZ e it q m =
     (case put_element (q_start q) (q_pointer q) (e\<lparr>el_valid := False\<rparr>) m of None \<Rightarrow> None
      | Some m1 \<Rightarrow>
          (let it1 = (if Some (q_start q) = it_blk it \<and> it_pointer it = q_pointer q then it\<lparr>it_pointer := it_pointer it + 1\<rparr> else it);
               p = q_pointer q + 1
           in if p = SZ
              then let it2 = (if Some (q_start q) = it_blk it1 \<and> it_pointer it1 = p
                          then \<lparr>it_pointer = 0, it_blk = map_option Not (it_blk it1)\<rparr> else it1)
                in Some (it2, q\<lparr>q_prev := q_start q, q_start := \<not> q_start q, q_pointer := 0\<rparr>,
                         m1\<lparr>return_flag := (return_flag m1)(q_start q := True)\<rparr>)
              else Some (it1, q\<lparr>q_pointer := p\<rparr>, m1)))"

partial_function (option) collect :: "nat \<Rightarrow> iter \<Rightarrow> q3 \<Rightarrow> 'a qmem \<Rightarrow> (iter \<times> q3 \<times> 'a qmem) option" where
  "collect SZ it q m =
     Option.bind (get_element (q_start q) (q_pointer q) m)
       (\<lambda>e. if el_valid e \<and> el_del e
            then Option.bind (release_head SZ e it q m) (\<lambda>(it', q', m'). collect SZ it' q' m')
            else Some (it, q, m))"

definition it_del :: "nat \<Rightarrow> iter \<Rightarrow> q3 \<Rightarrow> 'a qmem \<Rightarrow> (iter \<times> q3 \<times> 'a qmem) option" where
  "it_del SZ it q m =
     (if it_pointer it = SZ then Some (it, q, m)
      else case it_blk it of None \<Rightarrow> Some (it, q, m)
      | Some b \<Rightarrow> Option.bind (get_element b (it_pointer it) m) (\<lambda>e.
          Option.bind (put_element b (it_pointer it) (e\<lparr>el_del := True\<rparr>) m) (collect SZ it q)))"


section \<open>Slots\<close>

text \<open>
  Counting all elements ever pushed, element \<open>k\<close> goes to slot \<open>slot SZ k\<close>. \<open>C\<close> elements have been released, the sender is in its
  \<open>L\<close>-th block, and \<open>xs\<close> are the elements in the queue with their deletion marks.
\<close>

definition slot :: "nat \<Rightarrow> nat \<Rightarrow> bool \<times> nat" where
  "slot SZ k = (odd (k div SZ), k mod SZ)"

definition element_of :: "'a \<times> bool \<Rightarrow> 'a element" where
  "element_of x = \<lparr>el_data = fst x, el_valid = True, el_del = snd x\<rparr>"

definition mem_rel :: "nat \<Rightarrow> nat \<Rightarrow> ('a \<times> bool) list \<Rightarrow> 'a qmem \<Rightarrow> bool" where
  "mem_rel SZ C xs m \<longleftrightarrow> (\<forall>b. length (ringbuffer m b) = SZ)
     \<and> (\<forall>i<length xs. case slot SZ (C + i) of (b, j) \<Rightarrow> ringbuffer m b ! j = element_of (xs ! i))
     \<and> (\<forall>b j. j < SZ \<and> (b, j) \<notin> slot SZ ` {C..<C + length xs} \<longrightarrow> \<not> el_valid (ringbuffer m b ! j))"

definition flags_rel :: "nat \<Rightarrow> nat \<Rightarrow> nat \<Rightarrow> q3 \<Rightarrow> 'a qmem \<Rightarrow> bool" where
  "flags_rel SZ L C sq m \<longleftrightarrow> (q_avail sq (even L) \<longleftrightarrow> L = 0)
     \<and> (return_flag m (even L) \<longleftrightarrow> 0 < L \<and> L * SZ \<le> C) \<and> (return_flag m (odd L) \<longleftrightarrow> C = (L + 1) * SZ)"

definition q3_rel :: "nat \<Rightarrow> nat \<Rightarrow> nat \<Rightarrow> ('a \<times> bool) list \<Rightarrow> q3 \<Rightarrow> q3 \<Rightarrow> 'a qmem \<Rightarrow> bool" where
  "q3_rel SZ L C xs sq rq m \<longleftrightarrow> C + length xs = L * SZ + q_pointer sq \<and> q_pointer sq \<le> SZ \<and> q_start sq = odd L
     \<and> (q_start rq, q_pointer rq) = slot SZ C \<and> L * SZ \<le> C + SZ \<and> mem_rel SZ C xs m \<and> flags_rel SZ L C sq m"

lemma slot_eq_iff: "0 < SZ \<Longrightarrow> slot SZ j = slot SZ k \<longleftrightarrow> j mod (2 * SZ) = k mod (2 * SZ)"
proof -
  assume s: "0 < SZ"
  have m: "i mod (2 * SZ) = (if odd (i div SZ) then SZ else 0) + i mod SZ" for i
    by (simp add: mult.commute [of 2] mod_mult2_eq odd_iff_mod_2_eq_one)
  have l: "i mod SZ < SZ" for i using s by simp
  have n: "j mod SZ \<noteq> SZ + k mod SZ" "k mod SZ \<noteq> SZ + j mod SZ" using l [of j] l [of k] by linarith+
  show ?thesis unfolding m slot_def using n n [symmetric]
    by (cases "odd (j div SZ)"; cases "odd (k div SZ)") simp_all
qed

lemma slot_inj:
  assumes "0 < SZ" "j < k" "k < j + 2 * SZ"
  shows "slot SZ j \<noteq> slot SZ k"
proof
  assume "slot SZ j = slot SZ k"
  then have "j mod (2 * SZ) = k mod (2 * SZ)" using slot_eq_iff [OF assms(1)] by simp
  then have "2 * SZ dvd k - j" using assms(2) mod_eq_dvd_iff_nat [of j k "2 * SZ"] by simp
  then have "2 * SZ \<le> k - j" using assms(2) by (simp add: dvd_imp_le)
  then show False using assms(2,3) by simp
qed

lemma slot_bound: "0 < SZ \<Longrightarrow> snd (slot SZ k) < SZ"
  by (simp add: slot_def)
definition write_slot :: "bool \<times> nat \<Rightarrow> 'a element \<Rightarrow> 'a qmem \<Rightarrow> 'a qmem" where
  "write_slot s e m = m\<lparr>ringbuffer := (ringbuffer m)(fst s := (ringbuffer m (fst s))[snd s := e])\<rparr>"

definition read_slot :: "bool \<times> nat \<Rightarrow> 'a qmem \<Rightarrow> 'a element" where
  "read_slot s m = ringbuffer m (fst s) ! snd s"

lemma read_write_slot:
  assumes "snd s < length (ringbuffer m (fst s))"
  shows "read_slot t (write_slot s e m) = (if t = s then e else read_slot t m)"
  using assms by (cases s; cases t) (auto simp: read_slot_def write_slot_def nth_list_update)

lemma write_slot_frame [simp]:
  "length (ringbuffer (write_slot s e m) b) = length (ringbuffer m b)"
  "return_flag (write_slot s e m) = return_flag m"
  by (simp_all add: write_slot_def)

lemma put_element_slot:
  "snd s < length (ringbuffer m (fst s)) \<Longrightarrow> put_element (fst s) (snd s) e m = Some (write_slot s e m)"
  by (simp add: put_element_def write_slot_def)

lemma get_element_slot: "snd s < length (ringbuffer m (fst s)) \<Longrightarrow> get_element (fst s) (snd s) m = Some (read_slot s m)"
  by (simp add: get_element_def read_slot_def)

lemma mem_rel_alt:
  "mem_rel SZ C xs m \<longleftrightarrow> (\<forall>b. length (ringbuffer m b) = SZ)
     \<and> (\<forall>i<length xs. read_slot (slot SZ (C + i)) m = element_of (xs ! i))
     \<and> (\<forall>s. snd s < SZ \<and> s \<notin> slot SZ ` {C..<C + length xs} \<longrightarrow> \<not> el_valid (read_slot s m))"
  by (simp add: mem_rel_def read_slot_def case_prod_beta split_paired_all)

lemma mem_rel_flag [simp]: "mem_rel SZ C xs (m\<lparr>return_flag := f\<rparr>) = mem_rel SZ C xs m"
  by (simp add: mem_rel_def)

lemma slot_distinct:
  assumes "0 < SZ" "i < n" "j < n" "n \<le> 2 * SZ" "i \<noteq> j"
  shows "slot SZ (C + i) \<noteq> slot SZ (C + j)"
  using assms slot_inj [OF assms(1), of "C + i" "C + j"] slot_inj [OF assms(1), of "C + j" "C + i"]
  by (cases "i < j") auto

lemma mem_rel_push:
  assumes "0 < SZ" "mem_rel SZ C xs m" "length xs < 2 * SZ"
  shows "mem_rel SZ C (xs @ [x]) (write_slot (slot SZ (C + length xs)) (element_of x) m)"
proof -
  let ?s = "slot SZ (C + length xs)"
  note M = assms(2) [unfolded mem_rel_alt]
  have b: "snd ?s < length (ringbuffer m (fst ?s))" using M slot_bound [OF assms(1)] by simp
  have ne: "slot SZ (C + i) \<noteq> ?s" if "i < length xs" for i
    using slot_distinct [OF assms(1), of i "Suc (length xs)" "length xs"] that assms(3) by simp
  have "{C..<C + length (xs @ [x])} = insert (C + length xs) {C..<C + length xs}" by auto
  then show ?thesis unfolding mem_rel_alt read_write_slot [OF b] using M ne
    by (auto simp: nth_append less_Suc_eq)
qed

lemma mem_rel_mark:
  assumes "0 < SZ" "mem_rel SZ C xs m" "length xs \<le> 2 * SZ" "i < length xs"
  shows "mem_rel SZ C (xs[i := y]) (write_slot (slot SZ (C + i)) (element_of y) m)"
proof -
  let ?s = "slot SZ (C + i)"
  note M = assms(2) [unfolded mem_rel_alt]
  have b: "snd ?s < length (ringbuffer m (fst ?s))" using M slot_bound [OF assms(1)] by simp
  have ne: "slot SZ (C + j) = ?s \<longleftrightarrow> j = i" if "j < length xs" for j
    using slot_distinct [OF assms(1), of j "length xs" i C] that assms(3,4) by auto
  have mem: "?s \<in> slot SZ ` {C..<C + length xs}" using assms(4) by simp
  show ?thesis unfolding mem_rel_alt read_write_slot [OF b] using M ne mem assms(4)
    by (auto simp: nth_list_update)
qed

lemma mem_rel_release:
  assumes "0 < SZ" "mem_rel SZ C (x # ys) m" "length (x # ys) \<le> 2 * SZ" "\<not> el_valid e"
  shows "mem_rel SZ (Suc C) ys (write_slot (slot SZ C) e m)"
proof -
  let ?s = "slot SZ C"
  note M = assms(2) [unfolded mem_rel_alt]
  have b: "snd ?s < length (ringbuffer m (fst ?s))" using M slot_bound [OF assms(1)] by simp
  have ne: "slot SZ (Suc C + j) \<noteq> ?s" if "j < length ys" for j
    using slot_distinct [OF assms(1), of "Suc j" "length (x # ys)" 0 C] that assms(3) by auto
  have r: "read_slot (slot SZ (Suc C + j)) m = element_of (ys ! j)" if "j < length ys" for j
    using M that by (metis add_Suc_right add_Suc length_Cons nth_Cons_Suc Suc_less_eq)
  have "{C..<C + length (x # ys)} = insert C {Suc C..<Suc C + length ys}" by auto
  then have u: "\<not> el_valid (read_slot t m)" if "snd t < SZ" "t \<notin> slot SZ ` {Suc C..<Suc C + length ys}" "t \<noteq> ?s" for t
    using M that by (cases t) auto
  show ?thesis unfolding mem_rel_alt read_write_slot [OF b] using M ne r u assms(4) by auto
qed


section \<open>The operations keep the relation\<close>

lemma q3_rel_room: "q3_rel SZ L C xs sq rq m \<Longrightarrow> length xs \<le> 2 * SZ"
  by (simp add: q3_rel_def)

lemma and_size_mask: "p < 2 ^ n \<Longrightarrow> and p (2 ^ n - 1) = (p :: nat)"
  by (metis mask_eq_exp_minus_1 take_bit_eq_mask take_bit_nat_eq_self)

lemma fill_slot_rel:
  assumes S: "SZ = 2 ^ n" and R: "q3_rel SZ L C xs sq rq m" and p: "q_pointer sq < SZ"
  shows "\<exists>sq' m'. fill_slot SZ x sq m = Some (True, sq', m') \<and> q3_rel SZ L C (xs @ [(x, False)]) sq' rq m'"
proof -
  have S0: "0 < SZ" using S by simp
  let ?s = "slot SZ (C + length xs)"
  have C: "C + length xs = L * SZ + q_pointer sq" "q_start sq = odd L" and M: "mem_rel SZ C xs m"
    and F: "flags_rel SZ L C sq m" and B: "L * SZ \<le> C + SZ" using R by (simp_all add: q3_rel_def)
  have s: "?s = (q_start sq, and (q_pointer sq) (SZ - 1))"
    using p S0 unfolding C(1) by (simp add: slot_def C(2) S and_size_mask [symmetric, unfolded One_nat_def])
  have "snd ?s < length (ringbuffer m (fst ?s))" using M slot_bound [OF S0] by (simp add: mem_rel_alt)
  from put_element_slot [OF this] have P: "put_element (q_start sq) (and (q_pointer sq) (SZ - 1)) e m = Some (write_slot ?s e m)" for e
    unfolding s by simp
  have f: "fill_slot SZ x sq m = Some (True, sq\<lparr>q_pointer := q_pointer sq + 1\<rparr>, write_slot ?s (element_of (x, False)) m)"
    by (simp add: fill_slot_def P [unfolded One_nat_def] element_of_def)
  have l: "length xs < 2 * SZ" using C(1) B p by linarith
  have "q3_rel SZ L C (xs @ [(x, False)]) (sq\<lparr>q_pointer := q_pointer sq + 1\<rparr>) rq (write_slot ?s (element_of (x, False)) m)"
    using R p mem_rel_push [OF S0 M l, of "(x, False)"] by (simp add: q3_rel_def flags_rel_def)
  with f show ?thesis by blast
qed

lemma block_switch_rel:
  assumes R: "q3_rel SZ L C xs sq rq m" and p: "q_pointer sq = SZ" and S: "0 < SZ"
  defines "sq1 \<equiv> sq\<lparr>q_avail := (q_avail sq)(q_start sq := False)\<rparr>"
  assumes c: "check_next_avail (\<not> q_start sq1) sq1 m = (ok, sq2, m2)"
  shows "ok \<longleftrightarrow> L * SZ \<le> C"
    and "\<not> ok \<Longrightarrow> q3_rel SZ L C xs sq2 rq m2"
    and "ok \<Longrightarrow> q3_rel SZ (L + 1) C xs (sq2\<lparr>q_pointer := 0, q_prev := q_start sq2, q_start := \<not> q_start sq2\<rparr>) rq m2"
proof -
  note R' = R [unfolded q3_rel_def flags_rel_def]
  have L: "q_start sq = odd L" and le: "C \<le> (L + 1) * SZ" using R' p by auto
  have lt: "C \<noteq> (L + 2) * SZ" using le S by (simp add: add_mult_distrib)
  show "ok \<longleftrightarrow> L * SZ \<le> C" using c R' S by (auto simp: check_next_avail_def sq1_def L split: if_splits)
  show "q3_rel SZ L C xs sq2 rq m2" if "\<not> ok"
    using c that R by (auto simp: check_next_avail_def sq1_def q3_rel_def flags_rel_def split: if_splits)
  show "q3_rel SZ (L + 1) C xs (sq2\<lparr>q_pointer := 0, q_prev := q_start sq2, q_start := \<not> q_start sq2\<rparr>) rq m2" if "ok"
    using c that R' p lt le S
    by (auto simp: check_next_avail_def sq1_def q3_rel_def flags_rel_def L split: if_splits)
qed

lemma push_nb_rel:
  assumes S: "SZ = 2 ^ n" and R: "q3_rel SZ L C xs sq rq m"
  shows "\<exists>ok L' sq' m'. push_nb SZ x sq m = Some (ok, sq', m') \<and> (ok \<longleftrightarrow> \<not> (q_pointer sq = SZ \<and> C < L * SZ))
    \<and> q3_rel SZ L' C (if ok then xs @ [(x, False)] else xs) sq' rq m'"
proof (cases "q_pointer sq = SZ")
  case False
  then have "q_pointer sq < SZ" using R by (simp add: q3_rel_def)
  from fill_slot_rel [OF S R this, of x] False show ?thesis by (auto simp: push_nb_def)
next
  case True
  let ?q = "sq\<lparr>q_avail := (q_avail sq)(q_start sq := False)\<rparr>"
  have S0: "0 < SZ" using S by simp
  obtain ok sq2 m2 where c: "check_next_avail (\<not> q_start ?q) ?q m = (ok, sq2, m2)" by (metis prod_cases3)
  note B = block_switch_rel [OF R True S0 c]
  show ?thesis
  proof (cases ok)
    case False
    then show ?thesis using B(1,2) True by (simp add: push_nb_def c [simplified]) blast
  next
    case ok: True
    from fill_slot_rel [OF S B(3) [OF ok], of x] S0 ok show ?thesis using B(1) True
      by (auto simp: push_nb_def c [simplified])
  qed
qed

definition it_at :: "nat \<Rightarrow> nat \<Rightarrow> iter" where
  "it_at SZ k = it_init (Some (fst (slot SZ k))) (snd (slot SZ k))"

lemma slot_Suc:
  "0 < SZ \<Longrightarrow> slot SZ (Suc k) = (if Suc (snd (slot SZ k)) = SZ then (\<not> fst (slot SZ k), 0) else (fst (slot SZ k), Suc (snd (slot SZ k))))"
  by (simp add: slot_def div_Suc mod_Suc)

lemma it_next_at: "0 < SZ \<Longrightarrow> it_next SZ (it_at SZ k) = Some (it_at SZ (Suc k))"
  by (auto simp: it_next_def it_at_def it_init_def slot_Suc)

lemma it_valid_at: "0 < SZ \<Longrightarrow> it_valid SZ (it_at SZ k)"
  by (simp add: it_valid_def it_at_def it_init_def slot_bound)

lemma flags_rel_release:
  assumes F: "flags_rel SZ L C sq m" and lo: "L * SZ \<le> C + SZ" and hi: "Suc C \<le> (L + 1) * SZ" and S: "0 < SZ"
  shows "flags_rel SZ L (Suc C) sq
    (m\<lparr>return_flag := (if Suc (C mod SZ) = SZ then (return_flag m)(odd (C div SZ) := True) else return_flag m)\<rparr>)"
proof (cases "Suc (C mod SZ) = SZ")
  case True
  define q where "q = C div SZ"
  have "C = q * SZ + C mod SZ" unfolding q_def by (rule div_mult_mod_eq [symmetric])
  then have q: "Suc C = (q + 1) * SZ" using True by (simp add: add_mult_distrib)
  have "q + 1 \<le> L + 1" using hi S unfolding q by simp
  moreover have "L * SZ < (q + 2) * SZ" using lo q S by simp
  then have "L < q + 2" by (simp only: mult_less_cancel2)
  ultimately consider "q = L" | "L = Suc q" by linarith
  then show ?thesis
  proof cases
    case 1
    then have "L * SZ \<le> C" using q S by simp
    then show ?thesis using F True q 1 S by (auto simp: flags_rel_def q_def [symmetric])
  next
    case 2
    then have "C < L * SZ" "Suc C = L * SZ" using q by simp_all
    then show ?thesis using F True 2 S by (auto simp: flags_rel_def q_def [symmetric])
  qed
next
  case False
  then have n: "Suc C \<noteq> k * SZ" for k by (metis mod_Suc mod_mult_self2_is_0 nat.distinct(1))
  have "L * SZ \<le> Suc C \<longleftrightarrow> L * SZ \<le> C" using n [of L] by linarith
  moreover have "C \<noteq> (L + 1) * SZ" using hi by linarith
  ultimately show ?thesis using F False n [of "L + 1"] by (simp add: flags_rel_def)
qed

lemma flags_rel_write: "flags_rel SZ L C sq m \<Longrightarrow> flags_rel SZ L C sq (write_slot s e m)"
  by (simp add: flags_rel_def)

lemma release_head_rel:
  assumes S: "0 < SZ" and R: "q3_rel SZ L C (x # ys) sq rq m" and k: "C \<le> k" "k < C + 2 * SZ"
  shows "\<exists>rq' m'. release_head SZ e (it_at SZ k) rq m = Some (it_at SZ (max k (Suc C)), rq', m')
    \<and> q3_rel SZ L (Suc C) ys sq rq' m'"
proof -
  let ?s = "slot SZ C"
  have M: "mem_rel SZ C (x # ys) m" and F: "flags_rel SZ L C sq m" and lo: "L * SZ \<le> C + SZ"
    and q: "q_start rq = fst ?s" "q_pointer rq = snd ?s"
    and len: "C + length (x # ys) = L * SZ + q_pointer sq" "q_pointer sq \<le> SZ" "q_start sq = odd L"
    using R by (auto simp: q3_rel_def prod_eq_iff)
  have hi: "Suc C \<le> (L + 1) * SZ" using len by simp
  have b: "snd ?s < length (ringbuffer m (fst ?s))" using M slot_bound [OF S] by (simp add: mem_rel_alt)
  let ?m = "write_slot ?s (e\<lparr>el_valid := False\<rparr>) m"
  have M': "mem_rel SZ (Suc C) ys ?m"
    using mem_rel_release [OF S M] q3_rel_room [OF R] by simp
  have F': "flags_rel SZ L (Suc C) sq (?m\<lparr>return_flag :=
      (if Suc (snd ?s) = SZ then (return_flag ?m)(fst ?s := True) else return_flag ?m)\<rparr>)"
    using flags_rel_release [of SZ L C sq ?m, OF flags_rel_write [OF F] lo hi S] by (simp only: slot_def fst_conv snd_conv)
  have eq: "fst ?s = fst (slot SZ k) \<and> snd (slot SZ k) = snd ?s \<longleftrightarrow> k = C"
    using slot_inj [OF S, of C k] k by (cases "k = C") (auto simp: prod_eq_iff)
  have it: "max k (Suc C) = (if k = C then Suc C else k)" using k by simp
  let ?rq = "if Suc (snd ?s) = SZ then rq\<lparr>q_prev := q_start rq, q_start := \<not> q_start rq, q_pointer := 0\<rparr>
    else rq\<lparr>q_pointer := Suc (snd ?s)\<rparr>"
  let ?m' = "if Suc (snd ?s) = SZ then ?m\<lparr>return_flag := (return_flag ?m)(fst ?s := True)\<rparr> else ?m"
  have "release_head SZ e (it_at SZ k) rq m = Some (it_at SZ (max k (Suc C)), ?rq, ?m')"
    using eq slot_bound [OF S, of k] unfolding it
    by (auto simp: release_head_def q put_element_slot [OF b] it_at_def it_init_def slot_Suc [OF S])
  moreover have "q3_rel SZ L (Suc C) ys sq ?rq ?m'"
    using M' F' len lo q by (auto simp: q3_rel_def slot_Suc [OF S] flags_rel_def)
  ultimately show ?thesis by blast
qed

lemma collect_rel:
  assumes S: "0 < SZ"
  shows "q3_rel SZ L C xs sq rq m \<Longrightarrow> C \<le> k \<Longrightarrow> k < C + 2 * SZ \<Longrightarrow>
    \<exists>rq' m'. collect SZ (it_at SZ k) rq m = Some (it_at SZ (max k (C + length (takeWhile snd xs))), rq', m')
      \<and> q3_rel SZ L (C + length (takeWhile snd xs)) (dropWhile snd xs) sq rq' m'"
proof (induction xs arbitrary: C k rq m)
  case Nil
  have M: "mem_rel SZ C [] m" and q: "q_start rq = fst (slot SZ C)" "q_pointer rq = snd (slot SZ C)"
    using Nil.prems(1) by (auto simp: q3_rel_def prod_eq_iff)
  have "snd (slot SZ C) < length (ringbuffer m (fst (slot SZ C)))" "\<not> el_valid (read_slot (slot SZ C) m)"
    using M slot_bound [OF S, of C] by (cases "slot SZ C", simp add: mem_rel_alt)+
  then show ?case using Nil.prems by (simp add: collect.simps [of SZ _ rq] q get_element_slot max_def)
next
  case (Cons x ys)
  have M: "mem_rel SZ C (x # ys) m" and q: "q_start rq = fst (slot SZ C)" "q_pointer rq = snd (slot SZ C)"
    using Cons.prems(1) by (auto simp: q3_rel_def prod_eq_iff)
  have b: "snd (slot SZ C) < length (ringbuffer m (fst (slot SZ C)))" using M slot_bound [OF S] by (simp add: mem_rel_alt)
  have r: "read_slot (slot SZ C) m = element_of x" using M by (force simp: mem_rel_alt)
  note c = collect.simps [of SZ _ rq m, unfolded q get_element_slot [OF b] r bind.bind_lunit]
  show ?case
  proof (cases "snd x")
    case False
    then show ?thesis using Cons.prems by (simp add: c element_of_def max_def)
  next
    case True
    obtain rq1 m1 where h: "release_head SZ (element_of x) (it_at SZ k) rq m = Some (it_at SZ (max k (Suc C)), rq1, m1)"
      and R1: "q3_rel SZ L (Suc C) ys sq rq1 m1"
      using release_head_rel [OF S Cons.prems] by blast
    have "Suc C \<le> max k (Suc C)" "max k (Suc C) < Suc C + 2 * SZ" using Cons.prems(3) S by auto
    from Cons.IH [OF R1 this] True show ?thesis
      by (simp add: c h max.assoc) (simp add: element_of_def)
  qed
qed

lemma it_del_rel:
  assumes S: "0 < SZ" and R: "q3_rel SZ L C xs sq rq m" and i: "i < length xs"
  defines "ys \<equiv> xs[i := (fst (xs ! i), True)]"
  shows "\<exists>rq' m'. it_del SZ (it_at SZ (C + i)) rq m = Some (it_at SZ (max (C + i) (C + length (takeWhile snd ys))), rq', m')
    \<and> q3_rel SZ L (C + length (takeWhile snd ys)) (dropWhile snd ys) sq rq' m'"
proof -
  let ?s = "slot SZ (C + i)"
  have M: "mem_rel SZ C xs m" using R by (simp add: q3_rel_def)
  have b: "snd ?s < length (ringbuffer m (fst ?s))" using M slot_bound [OF S] by (simp add: mem_rel_alt)
  have r: "read_slot ?s m = element_of (xs ! i)" using M i by (simp add: mem_rel_alt)
  let ?m = "write_slot ?s (element_of (fst (xs ! i), True)) m"
  have "q3_rel SZ L C ys sq rq ?m"
    using R mem_rel_mark [OF S M q3_rel_room [OF R] i] by (simp add: q3_rel_def ys_def flags_rel_write)
  moreover have "it_del SZ (it_at SZ (C + i)) rq m = collect SZ (it_at SZ (C + i)) rq ?m"
    using slot_bound [OF S, of "C + i"]
    by (simp add: it_del_def it_at_def it_init_def get_element_slot [OF b] put_element_slot [OF b] r element_of_def)
  ultimately show ?thesis using collect_rel [OF S, of L C ys sq rq ?m "C + i"] i q3_rel_room [OF R] by simp
qed

lemma it_deref_rel:
  assumes S: "0 < SZ" and R: "q3_rel SZ L C xs sq rq m" and i: "i < length xs"
  shows "it_deref (it_at SZ (C + i)) m = Some (element_of (xs ! i))"
proof -
  have M: "mem_rel SZ C xs m" using R by (simp add: q3_rel_def)
  have b: "snd (slot SZ (C + i)) < length (ringbuffer m (fst (slot SZ (C + i))))" using M slot_bound [OF S] by (simp add: mem_rel_alt)
  show ?thesis using M i by (simp add: it_deref_def it_at_def it_init_def get_element_slot [OF b] mem_rel_alt)
qed

lemma it_deref_end:
  assumes S: "0 < SZ" and R: "q3_rel SZ L C xs sq rq m" and n: "length xs < 2 * SZ"
  shows "\<exists>e. it_deref (it_at SZ (C + length xs)) m = Some e \<and> \<not> el_valid e"
proof -
  let ?s = "slot SZ (C + length xs)"
  have M: "mem_rel SZ C xs m" using R by (simp add: q3_rel_def)
  have b: "snd ?s < length (ringbuffer m (fst ?s))" using M slot_bound [OF S] by (simp add: mem_rel_alt)
  have "slot SZ (C + j) \<noteq> ?s" if "j < length xs" for j
    using slot_distinct [OF S, of j "Suc (length xs)" "length xs" C] that n by simp
  then have "?s \<notin> slot SZ ` {C..<C + length xs}" by (force simp: le_iff_add)
  then have "\<not> el_valid (read_slot ?s m)" using M slot_bound [OF S, of "C + length xs"]
    by (cases ?s) (simp add: mem_rel_alt)
  then show ?thesis by (simp add: it_deref_def it_at_def it_init_def get_element_slot [OF b])
qed

lemma q_begin_rel: "q3_rel SZ L C xs sq rq m \<Longrightarrow> q_begin rq = it_at SZ C"
  by (auto simp: q3_rel_def q_begin_def it_at_def prod_eq_iff)

lemma q3_rel_init: "0 < SZ \<Longrightarrow> q3_rel SZ 0 0 [] (init_ptr False) (init_ptr True) (init_mem zero SZ)"
  by (simp add: q3_rel_def mem_rel_def flags_rel_def init_ptr_def init_mem_def slot_def)


section \<open>Runs\<close>

text \<open>What a consumer does: \<^verbatim>\<open>begin\<close>, the checks, then the data and \<^verbatim>\<open>del\<close> (\<^verbatim>\<open>bench/microbench/bench_queue_v3.cpp\<close>).\<close>

definition q_take :: "nat \<Rightarrow> q3 \<Rightarrow> 'a qmem \<Rightarrow> ('a option \<times> q3 \<times> 'a qmem) option" where
  "q_take SZ q m =
     (let it = q_begin q
      in if \<not> it_valid SZ it then Some (None, q, m)
         else Option.bind (it_deref it m) (\<lambda>e.
           if \<not> el_valid e then Some (None, q, m)
           else map_option (\<lambda>(_, q', m'). (Some (el_data e), q', m')) (it_del SZ it q m)))"

text \<open>A schedule: \<open>Some x\<close> is a turn of the sender with \<open>x\<close>, \<open>None\<close> one of the receiver. The run collects what was accepted and what was taken.\<close>

fun q3_run :: "nat \<Rightarrow> 'a option list \<Rightarrow> q3 \<times> q3 \<times> 'a qmem \<Rightarrow> ('a list \<times> 'a list \<times> q3 \<times> q3 \<times> 'a qmem) option" where
  "q3_run SZ [] (sq, rq, m) = Some ([], [], sq, rq, m)"
| "q3_run SZ (Some x # ops) (sq, rq, m) =
     Option.bind (push_nb SZ x sq m) (\<lambda>(ok, sq', m').
       map_option (\<lambda>(ins, outs, s). (if ok then x # ins else ins, outs, s)) (q3_run SZ ops (sq', rq, m')))"
| "q3_run SZ (None # ops) (sq, rq, m) =
     Option.bind (q_take SZ rq m) (\<lambda>(y, rq', m').
       map_option (\<lambda>(ins, outs, s). (ins, case y of None \<Rightarrow> outs | Some v \<Rightarrow> v # outs, s)) (q3_run SZ ops (sq, rq', m')))"

definition unmarked :: "'a list \<Rightarrow> ('a \<times> bool) list" where
  "unmarked vs = map (\<lambda>v. (v, False)) vs"

lemma q_take_rel:
  assumes S: "0 < SZ" and R: "q3_rel SZ L C (unmarked vs) sq rq m"
  shows "\<exists>C' rq' m'. q_take SZ rq m = Some (case vs of [] \<Rightarrow> None | v # _ \<Rightarrow> Some v, rq', m')
    \<and> q3_rel SZ L C' (unmarked (tl vs)) sq rq' m'"
proof (cases vs)
  case Nil
  then show ?thesis using it_deref_end [OF S R] R S
    by (auto simp: q_take_def q_begin_rel [OF R] it_valid_at unmarked_def)
next
  case (Cons v ws)
  have d: "dropWhile snd (unmarked ws) = unmarked ws" "takeWhile snd (unmarked ws) = []"
    by (cases ws; simp add: unmarked_def)+
  have l: "0 < length (unmarked vs)" and h: "unmarked vs = (v, False) # unmarked ws" using Cons by (simp_all add: unmarked_def)
  obtain rq' m' C' where D: "it_del SZ (it_at SZ C) rq m = Some (it_at SZ (Suc C), rq', m')"
    and R': "q3_rel SZ L (Suc C) (unmarked ws) sq rq' m'"
    using it_del_rel [OF S R l] by (auto simp: h d)
  have "it_deref (it_at SZ C) m = Some (element_of (v, False))" using it_deref_rel [OF S R l] by (simp add: h)
  then show ?thesis using D R' Cons
    by (auto simp: q_take_def q_begin_rel [OF R] it_valid_at S element_of_def)
qed

lemma q3_run_rel:
  assumes S: "SZ = 2 ^ n"
  shows "q3_rel SZ L C (unmarked vs) sq rq m \<Longrightarrow> \<exists>ins outs ws sq' rq' m' L' C'.
    q3_run SZ ops (sq, rq, m) = Some (ins, outs, sq', rq', m') \<and> vs @ ins = outs @ ws \<and> q3_rel SZ L' C' (unmarked ws) sq' rq' m'"
proof (induction ops arbitrary: L C vs sq rq m)
  case Nil
  then show ?case by auto
next
  case (Cons p ops)
  show ?case
  proof (cases p)
    case None
    obtain C' rq' m' where t: "q_take SZ rq m = Some (case vs of [] \<Rightarrow> None | v # _ \<Rightarrow> Some v, rq', m')"
      and R: "q3_rel SZ L C' (unmarked (tl vs)) sq rq' m'"
      using q_take_rel [OF _ Cons.prems] S by auto
    obtain ins outs ws sq2 rq2 m2 L2 C2 where g: "q3_run SZ ops (sq, rq', m') = Some (ins, outs, sq2, rq2, m2)"
      "tl vs @ ins = outs @ ws" and R2: "q3_rel SZ L2 C2 (unmarked ws) sq2 rq2 m2" using Cons.IH [OF R] by blast
    show ?thesis
    proof (cases vs)
      case Nil
      then have "q3_run SZ (p # ops) (sq, rq, m) = Some (ins, outs, sq2, rq2, m2)" "vs @ ins = outs @ ws"
        using g None t by simp_all
      with R2 show ?thesis by blast
    next
      case (Cons v us)
      then have "q3_run SZ (p # ops) (sq, rq, m) = Some (ins, v # outs, sq2, rq2, m2)" "vs @ ins = (v # outs) @ ws"
        using g None t by simp_all
      with R2 show ?thesis by blast
    qed
  next
    case (Some x)
    obtain ok L' sq' m' where t: "push_nb SZ x sq m = Some (ok, sq', m')"
      and R: "q3_rel SZ L' C (if ok then unmarked vs @ [(x, False)] else unmarked vs) sq' rq m'"
      using push_nb_rel [OF S Cons.prems] by blast
    have "q3_rel SZ L' C (unmarked (if ok then vs @ [x] else vs)) sq' rq m'"
      using R by (simp add: unmarked_def split: if_splits)
    from Cons.IH [OF this] obtain ins outs ws sq2 rq2 m2 L2 C2 where g: "q3_run SZ ops (sq', rq, m') = Some (ins, outs, sq2, rq2, m2)"
      "(if ok then vs @ [x] else vs) @ ins = outs @ ws" and R2: "q3_rel SZ L2 C2 (unmarked ws) sq2 rq2 m2" by blast
    then have "q3_run SZ (p # ops) (sq, rq, m) = Some (if ok then x # ins else ins, outs, sq2, rq2, m2)"
      "vs @ (if ok then x # ins else ins) = outs @ ws" using Some t by (auto split: if_splits)
    with R2 show ?thesis by blast
  qed
qed

text \<open>
  C34. The two-block queue is a FIFO under every order of sender and receiver turns: with a size that is a power of two, a run from the
  initialised queue never leaves the buffers and every call returns; what the receiver took is a prefix of what
  \<^verbatim>\<open>push_nb\<close> accepted, in that order, and what is missing is still queued; a refused push means more than a block full.
\<close>

theorem queue_v3_fifo:
  fixes ops :: "'a option list"
  shows "\<exists>ins outs ws sq rq m. q3_run (2 ^ n) ops (init_ptr False, init_ptr True, init_mem zero (2 ^ n)) = Some (ins, outs, sq, rq, m)
    \<and> ins = outs @ ws \<and> length ws \<le> 2 * 2 ^ n
    \<and> map_option fst (q_take (2 ^ n) rq m) = Some (case ws of [] \<Rightarrow> None | v # _ \<Rightarrow> Some v)
    \<and> (\<exists>ok sq' m'. push_nb (2 ^ n) x sq m = Some (ok, sq', m') \<and> (ok \<or> 2 ^ n < length ws))"
proof -
  have S: "0 < (2 :: nat) ^ n" by simp
  obtain ins outs ws sq rq m L C where r: "q3_run (2 ^ n) ops (init_ptr False, init_ptr True, init_mem zero (2 ^ n)) = Some (ins, outs, sq, rq, m)"
    and i: "ins = outs @ ws" and R: "q3_rel (2 ^ n) L C (unmarked ws) sq rq m"
    using q3_run_rel [OF refl, of n 0 0 "[] :: 'a list" "init_ptr False" "init_ptr True" "init_mem zero (2 ^ n)" ops,
      unfolded append_Nil] q3_rel_init [OF S, of zero] by (simp only: unmarked_def list.map) blast
  have l: "length ws = length (unmarked ws)" by (simp add: unmarked_def)
  obtain C' rq' m' where t: "q_take (2 ^ n) rq m = Some (case ws of [] \<Rightarrow> None | v # _ \<Rightarrow> Some v, rq', m')"
    using q_take_rel [OF S R] by blast
  obtain ok sq' m2 where p: "push_nb (2 ^ n) x sq m = Some (ok, sq', m2)" "ok \<longleftrightarrow> \<not> (q_pointer sq = 2 ^ n \<and> C < L * 2 ^ n)"
    using push_nb_rel [OF refl R] by blast
  have "ok \<or> 2 ^ n < length ws" using p(2) R unfolding l by (auto simp: q3_rel_def)
  then show ?thesis using r i q3_rel_room [OF R, folded l] t p(1) by (intro exI conjI) auto
qed


section \<open>The block descriptors\<close>

text \<open>
  The descriptors of the two blocks are allocated per process: the constructor has none, \<^verbatim>\<open>init_ptr\<close> allocates both (\<open>a\<close> and \<open>b\<close> are
  what \<^verbatim>\<open>new\<close> returns), a switch of blocks exchanges the two pointers, the destructor deletes both. \<open>live\<close> is what is allocated.
\<close>

record blk_ptrs =
  startptr :: "nat option"
  prevptr :: "nat option"

definition queue_ctor :: blk_ptrs where
  "queue_ctor = \<lparr>startptr = None, prevptr = None\<rparr>"

definition init_alloc :: "nat \<Rightarrow> nat \<Rightarrow> blk_ptrs \<Rightarrow> nat set \<Rightarrow> blk_ptrs \<times> nat set" where
  "init_alloc a b q live = (q\<lparr>startptr := Some a, prevptr := Some b\<rparr>, live \<union> {a, b})"

definition switch_blk :: "blk_ptrs \<Rightarrow> blk_ptrs" where
  "switch_blk q = \<lparr>startptr = prevptr q, prevptr = startptr q\<rparr>"

definition queue_dtor :: "blk_ptrs \<Rightarrow> nat set \<Rightarrow> blk_ptrs \<times> nat set" where
  "queue_dtor q live =
     (case (startptr q, prevptr q) of
        (Some a, Some b) \<Rightarrow> if a \<noteq> b then (\<lparr>startptr = None, prevptr = None\<rparr>, live - {a, b}) else (q, live)
      | _ \<Rightarrow> (q, live))"

text \<open>The destructor gives back what \<^verbatim>\<open>init_ptr\<close> allocated, after any number of switches, and nothing else.\<close>

lemma descriptors_released:
  assumes "a \<noteq> b" "a \<notin> live" "b \<notin> live" "init_alloc a b queue_ctor live = (q, live')"
  shows "snd (queue_dtor ((switch_blk ^^ n) q) live') = live"
proof -
  have q: "q = \<lparr>startptr = Some a, prevptr = Some b\<rparr>" and l: "live' = live \<union> {a, b}" using assms(4) by (auto simp: init_alloc_def queue_ctor_def)
  have "(switch_blk ^^ n) q = q \<or> (switch_blk ^^ n) q = \<lparr>startptr = Some b, prevptr = Some a\<rparr>"
    by (induction n) (auto simp: switch_blk_def q)
  then show ?thesis using assms(1-3) by (auto simp: queue_dtor_def q l)
qed

text \<open>A second \<^verbatim>\<open>init_ptr\<close> on a queue in use loses the descriptors of the first.\<close>

lemma reinit_leaks:
  assumes "distinct [a, b, c, d]"
  shows "case init_alloc a b queue_ctor {} of (q, l) \<Rightarrow> case init_alloc c d q l of (q', l') \<Rightarrow> snd (queue_dtor q' l') = {a, b}"
  using assms by (auto simp: init_alloc_def queue_ctor_def queue_dtor_def)

end
