(* ===== verification/Credit_Queue.thy ===== *)
theory Credit_Queue
  imports Lockless_Queue
begin

text \<open>
  The credit-based queue of the legacy data and control planes, \<^verbatim>\<open>common/locklessqueue_n.hpp\<close>. The sender spends a credit per element; the
  receiver counts the slots it freed and gives back \<^verbatim>\<open>CREDITS_PER_RETURN\<close> of them at once through a flag. Sender and
  receiver share the ring, or each has a copy and writes to the other's by RDMA; posted writes are
  events, delivered later and in order. Pointers and credits are 32-bit words that wrap. \<open>None\<close> is an
  access outside the ring, or a loop that does not end.
\<close>

section \<open>Data\<close>

record 'a cq_mem =
  cq_ring :: "'a element list"
  cq_flag :: bool

record cq =
  cq_pointer :: u32
  cq_mask :: u32
  cq_credits :: u32
  credits_per_return :: u32
  credit_disabled :: bool
  isRDMA :: bool

datatype 'a rdma_post = Post_slot nat "'a element" | Post_flag

definition cq_new :: "nat \<Rightarrow> cq \<Rightarrow> cq" where
  "cq_new SZ q = q\<lparr>isRDMA := False, cq_pointer := 0, cq_mask := of_nat (SZ - 1)\<rparr>"

definition cq_init :: "nat \<Rightarrow> bool \<Rightarrow> 'a cq_mem \<Rightarrow> cq \<times> 'a cq_mem" where
  "cq_init SZ is_rcv m =
     (\<lparr>cq_pointer = 0, cq_mask = of_nat (SZ - 1), cq_credits = (if is_rcv then 0 else of_nat SZ),
       credits_per_return = of_nat (SZ div 2 + 1), credit_disabled = False, isRDMA = False\<rparr>, m\<lparr>cq_flag := False\<rparr>)"

definition cq_initRDMA :: "cq \<Rightarrow> cq" where
  "cq_initRDMA q = q\<lparr>isRDMA := True\<rparr>"

definition cq_init_mem :: "'a \<Rightarrow> nat \<Rightarrow> 'a cq_mem \<Rightarrow> 'a cq_mem" where
  "cq_init_mem zero SZ m = m\<lparr>cq_ring := replicate SZ \<lparr>el_data = zero, el_valid = False, el_del = False\<rparr> @ drop SZ (cq_ring m)\<rparr>"

definition cq_setpointer :: "u32 \<Rightarrow> cq \<Rightarrow> cq" where
  "cq_setpointer p q = q\<lparr>cq_pointer := p\<rparr>"

definition cq_disable_credit :: "cq \<Rightarrow> cq" where
  "cq_disable_credit q = q\<lparr>credit_disabled := True\<rparr>"

definition cq_enable_credit :: "cq \<Rightarrow> cq" where
  "cq_enable_credit q = q\<lparr>credit_disabled := False\<rparr>"

definition cq_is_full :: "cq \<Rightarrow> bool" where
  "cq_is_full q \<longleftrightarrow> \<not> credit_disabled q \<and> cq_credits q < 16"

definition cq_getmemsize :: "nat \<Rightarrow> nat" where
  "cq_getmemsize SZ = 16 * SZ + 64"

definition slot_idx :: "cq \<Rightarrow> u32 \<Rightarrow> nat" where
  "slot_idx q loc = unat (and loc (cq_mask q))"

definition put_slot :: "nat \<Rightarrow> 'a element \<Rightarrow> 'a cq_mem \<Rightarrow> 'a cq_mem option" where
  "put_slot i e m = (if i < length (cq_ring m) then Some (m\<lparr>cq_ring := (cq_ring m)[i := e]\<rparr>) else None)"

definition get_slot :: "nat \<Rightarrow> 'a cq_mem \<Rightarrow> 'a element option" where
  "get_slot i m = (if i < length (cq_ring m) then Some (cq_ring m ! i) else None)"


section \<open>Operations\<close>

definition cq_fill :: "'a \<Rightarrow> cq \<Rightarrow> 'a cq_mem \<Rightarrow> (bool \<times> cq \<times> 'a cq_mem \<times> 'a rdma_post list) option" where
  "cq_fill x q m =
     (let ele = \<lparr>el_data = x, el_valid = True, el_del = False\<rparr>; local_ptr = slot_idx q (cq_pointer q)
      in map_option (\<lambda>m'. (True, q\<lparr>cq_pointer := cq_pointer q + 1, cq_credits := cq_credits q - 1\<rparr>, m',
                           if isRDMA q then [Post_slot local_ptr ele] else []))
           (put_slot local_ptr ele m))"

definition cq_push_nb :: "'a \<Rightarrow> cq \<Rightarrow> 'a cq_mem \<Rightarrow> (bool \<times> cq \<times> 'a cq_mem \<times> 'a rdma_post list) option" where
  "cq_push_nb x q m =
     (if \<not> credit_disabled q \<and> cq_credits q = 0
      then if cq_flag m
           then cq_fill x (q\<lparr>cq_credits := cq_credits q + credits_per_return q\<rparr>) (m\<lparr>cq_flag := False\<rparr>)
           else Some (False, q, m, [])
      else cq_fill x q m)"

text \<open>One pass of the loop in \<^verbatim>\<open>del\<close>: the head slot is freed and its credit counted.\<close>

definition cq_release :: "'a element \<Rightarrow> cq \<Rightarrow> 'a cq_mem \<Rightarrow> (cq \<times> 'a cq_mem \<times> 'a rdma_post list) option" where
  "cq_release e q m =
     map_option (\<lambda>m'.
         let q' = q\<lparr>cq_pointer := cq_pointer q + 1, cq_credits := cq_credits q + 1\<rparr>
         in if cq_credits q' = credits_per_return q'
            then (q'\<lparr>cq_credits := 0\<rparr>, m'\<lparr>cq_flag := True\<rparr>, if isRDMA q then [Post_flag] else [])
            else (q', m', []))
       (put_slot (slot_idx q (cq_pointer q)) (e\<lparr>el_valid := False\<rparr>) m)"

partial_function (option) cq_collect :: "cq \<Rightarrow> 'a cq_mem \<Rightarrow> (cq \<times> 'a cq_mem \<times> 'a rdma_post list) option" where
  "cq_collect q m =
     Option.bind (get_slot (slot_idx q (cq_pointer q)) m) (\<lambda>e.
       if el_valid e \<and> el_del e
       then Option.bind (cq_release e q m) (\<lambda>(q', m', ps).
              Option.bind (cq_collect q' m') (\<lambda>(q'', m'', ps'). Some (q'', m'', ps @ ps')))
       else Some (q, m, []))"

definition cq_del :: "u32 \<Rightarrow> cq \<Rightarrow> 'a cq_mem \<Rightarrow> (cq \<times> 'a cq_mem \<times> 'a rdma_post list) option" where
  "cq_del loc q m =
     Option.bind (get_slot (slot_idx q loc) m) (\<lambda>e.
       Option.bind (put_slot (slot_idx q loc) (e\<lparr>el_del := True\<rparr>) m) (\<lambda>m'.
         if slot_idx q loc = slot_idx q (cq_pointer q) then cq_collect q m' else Some (q, m', [])))"

definition cq_pop_nb :: "cq \<Rightarrow> 'a cq_mem \<Rightarrow> ('a option \<times> cq \<times> 'a cq_mem \<times> 'a rdma_post list) option" where
  "cq_pop_nb q m =
     Option.bind (get_slot (slot_idx q (cq_pointer q)) m) (\<lambda>e.
       if \<not> el_valid e then Some (None, q, m, [])
       else map_option (\<lambda>(q', m', ps). (Some (el_data e), q', m', ps)) (cq_del (and (cq_pointer q) (cq_mask q)) q m))"

definition cq_peek :: "u32 \<Rightarrow> cq \<Rightarrow> 'a cq_mem \<Rightarrow> ((bool \<times> bool) \<times> 'a) option" where
  "cq_peek loc q m = map_option (\<lambda>e. ((el_valid e, el_del e), el_data e)) (get_slot (slot_idx q loc) m)"

definition cq_set :: "u32 \<Rightarrow> 'a \<Rightarrow> cq \<Rightarrow> 'a cq_mem \<Rightarrow> 'a cq_mem option" where
  "cq_set loc x q m = Option.bind (get_slot (slot_idx q loc) m) (\<lambda>e. put_slot (slot_idx q loc) (e\<lparr>el_data := x\<rparr>) m)"

partial_function (option) empty_from :: "u32 \<Rightarrow> cq \<Rightarrow> 'a cq_mem \<Rightarrow> bool option" where
  "empty_from tmp_tail q m =
     Option.bind (get_slot (slot_idx q tmp_tail) m) (\<lambda>e.
       if \<not> el_valid e then Some True
       else if \<not> el_del e then Some False
       else empty_from (tmp_tail + 1) q m)"

definition cq_isempty :: "cq \<Rightarrow> 'a cq_mem \<Rightarrow> bool option" where
  "cq_isempty q m = empty_from (cq_pointer q) q m"

text \<open>The delivery of a posted write.\<close>

definition deliver :: "'a rdma_post \<Rightarrow> 'a cq_mem \<Rightarrow> 'a cq_mem option" where
  "deliver p m = (case p of Post_slot i e \<Rightarrow> put_slot i e m | Post_flag \<Rightarrow> Some (m\<lparr>cq_flag := True\<rparr>))"

section \<open>Ring contents\<close>

text \<open>\<open>xs\<close> are the queued elements with their deletion marks, the first at position \<open>C\<close> of the stream of all elements.\<close>

definition ring_holds :: "nat \<Rightarrow> nat \<Rightarrow> ('a \<times> bool) list \<Rightarrow> 'a element list \<Rightarrow> bool" where
  "ring_holds SZ C xs r \<longleftrightarrow> length r = SZ \<and> length xs \<le> SZ
     \<and> (\<forall>i<length xs. r ! ((C + i) mod SZ) = element_of (xs ! i))
     \<and> (\<forall>j<SZ. (\<forall>i<length xs. (C + i) mod SZ \<noteq> j) \<longrightarrow> \<not> el_valid (r ! j))"

lemma mod_window:
  fixes SZ :: nat
  assumes "i < n" "j < n" "n \<le> SZ" "(C + i) mod SZ = (C + j) mod SZ"
  shows "i = j"
proof -
  have "\<not> a < b" if "a < n" "b < n" "(C + a) mod SZ = (C + b) mod SZ" for a b
  proof
    assume "a < b"
    then have "SZ dvd b - a" using that(3) mod_eq_dvd_iff_nat [of "C + a" "C + b" SZ] by simp
    then have "SZ \<le> b - a" using \<open>a < b\<close> by (simp add: dvd_imp_le)
    then show False using that(2) assms(3) \<open>a < b\<close> by simp
  qed
  from this [of i j] this [of j i] show ?thesis using assms by auto
qed

lemma ring_holds_push:
  assumes "ring_holds SZ C xs r" "length xs < SZ"
  shows "ring_holds SZ C (xs @ [x]) (r[(C + length xs) mod SZ := element_of x])"
proof -
  let ?p = "(C + length xs) mod SZ"
  have p: "?p < SZ" using assms(2) by simp
  have ne: "(C + i) mod SZ \<noteq> ?p" if "i < length xs" for i
    using mod_window [of i "Suc (length xs)" "length xs" SZ C] that assms(2) by auto
  have h: "length r = SZ" "\<And>i. i < length xs \<Longrightarrow> r ! ((C + i) mod SZ) = element_of (xs ! i)"
    "\<And>j. j < SZ \<Longrightarrow> \<forall>i<length xs. (C + i) mod SZ \<noteq> j \<Longrightarrow> \<not> el_valid (r ! j)"
    using assms(1) by (auto simp: ring_holds_def)
  have "r[?p := element_of x] ! ((C + i) mod SZ) = element_of ((xs @ [x]) ! i)" if "i < Suc (length xs)" for i
    using that ne [of i] h(1,2) p by (cases "i = length xs") (auto simp: nth_append)
  moreover have "\<not> el_valid (r[?p := element_of x] ! j)" if "j < SZ" "\<forall>i<Suc (length xs). (C + i) mod SZ \<noteq> j" for j
    using that h(1) h(3) [of j] by simp
  ultimately show ?thesis using assms(2) h(1) by (simp add: ring_holds_def)
qed

lemma ring_holds_mark:
  assumes "ring_holds SZ C xs r" "i < length xs"
  shows "ring_holds SZ C (xs[i := y]) (r[(C + i) mod SZ := element_of y])"
proof -
  have l: "length xs \<le> SZ" "0 < SZ" using assms by (auto simp: ring_holds_def)
  have ne: "(C + j) mod SZ = (C + i) mod SZ \<longleftrightarrow> j = i" if "j < length xs" for j
    using mod_window [OF that assms(2) l(1)] by auto
  have h: "length r = SZ" "\<And>i. i < length xs \<Longrightarrow> r ! ((C + i) mod SZ) = element_of (xs ! i)"
    "\<And>j. j < SZ \<Longrightarrow> \<forall>i<length xs. (C + i) mod SZ \<noteq> j \<Longrightarrow> \<not> el_valid (r ! j)"
    using assms(1) by (auto simp: ring_holds_def)
  have "r[(C + i) mod SZ := element_of y] ! ((C + j) mod SZ) = element_of (xs[i := y] ! j)" if "j < length xs" for j
    using that ne [OF that] h(1,2) l(2) assms(2) by (cases "j = i") auto
  moreover have "\<not> el_valid (r[(C + i) mod SZ := element_of y] ! j)" if "j < SZ" "\<forall>i<length xs. (C + i) mod SZ \<noteq> j" for j
    using that h(1) h(3) [of j] assms(2) by simp
  ultimately show ?thesis using l(1) h(1) by (simp add: ring_holds_def)
qed

lemma ring_holds_release:
  assumes "ring_holds SZ C (x # xs) r" "\<not> el_valid e"
  shows "ring_holds SZ (Suc C) xs (r[C mod SZ := e])"
proof -
  have l: "Suc (length xs) \<le> SZ" "0 < SZ" using assms by (auto simp: ring_holds_def)
  have ne: "(Suc C + j) mod SZ \<noteq> C mod SZ" if "j < length xs" for j
    using mod_window [of "Suc j" "Suc (length xs)" 0 SZ C] that l by auto
  have h: "r ! ((Suc C + j) mod SZ) = element_of (xs ! j)" if "j < length xs" for j
    using assms(1) that unfolding ring_holds_def by (metis Suc_less_eq add_Suc add_Suc_right length_Cons nth_Cons_Suc)
  have u: "\<not> el_valid (r ! j)" if "j < SZ" "j \<noteq> C mod SZ" "\<And>i. i < length xs \<Longrightarrow> (Suc C + i) mod SZ \<noteq> j" for j
  proof -
    have "(C + i) mod SZ \<noteq> j" if "i < length (x # xs)" for i
      using \<open>j \<noteq> C mod SZ\<close> \<open>\<And>i. i < length xs \<Longrightarrow> (Suc C + i) mod SZ \<noteq> j\<close> that by (cases i) auto
    then show ?thesis using assms(1) \<open>j < SZ\<close> unfolding ring_holds_def by blast
  qed
  have len: "length r = SZ" using assms(1) by (simp add: ring_holds_def)
  have "r[C mod SZ := e] ! ((Suc C + j) mod SZ) = element_of (xs ! j)" if "j < length xs" for j
    using ne [OF that] h [OF that] by simp
  moreover have "\<not> el_valid (r[C mod SZ := e] ! j)" if "j < SZ" "\<forall>i<length xs. (Suc C + i) mod SZ \<noteq> j" for j
    using u [OF that(1)] that(2) assms(2) len l by (cases "j = C mod SZ") auto
  ultimately show ?thesis using l len unfolding ring_holds_def by simp
qed

lemma ring_holds_head:
  assumes "ring_holds SZ C xs r" "0 < SZ"
  shows "C mod SZ < length r" "xs = [] \<Longrightarrow> \<not> el_valid (r ! (C mod SZ))" "xs = x # ys \<Longrightarrow> r ! (C mod SZ) = element_of x"
proof -
  show "C mod SZ < length r" "xs = [] \<Longrightarrow> \<not> el_valid (r ! (C mod SZ))" using assms by (auto simp: ring_holds_def)
  show "r ! (C mod SZ) = element_of x" if "xs = x # ys" using assms(1) that unfolding ring_holds_def by (metis add_0_right length_greater_0_conv list.distinct(1) nth_Cons_0)
qed


section \<open>Credits\<close>

text \<open>
  Every slot is accounted for: a credit of the sender, an element under way or in the ring, a credit counted by the
  receiver, or part of the one return that the flag (or its posted write) stands for. As a return is more than half of the
  slots, there is never a second one, so setting the flag never loses credits.
\<close>

definition per_return :: "nat \<Rightarrow> nat" where
  "per_return SZ = SZ div 2 + 1"

definition credit_rel :: "nat \<Rightarrow> nat \<Rightarrow> nat \<Rightarrow> nat \<Rightarrow> bool \<Rightarrow> bool" where
  "credit_rel SZ cs n cr F \<longleftrightarrow> cs + n + cr + (if F then per_return SZ else 0) = SZ \<and> cr < per_return SZ"

definition cq_conf :: "nat \<Rightarrow> cq \<Rightarrow> bool" where
  "cq_conf SZ q \<longleftrightarrow> cq_mask q = of_nat (SZ - 1) \<and> credits_per_return q = of_nat (per_return SZ) \<and> \<not> credit_disabled q"

lemma credit_release:
  assumes "credit_rel SZ cs (Suc n) cr F" "Suc cr = per_return SZ"
  shows "\<not> F" "credit_rel SZ cs n 0 True"
  using assms by (auto simp: credit_rel_def per_return_def split: if_splits)

lemma credit_count:
  assumes "credit_rel SZ cs (Suc n) cr F" "Suc cr \<noteq> per_return SZ"
  shows "credit_rel SZ cs n (Suc cr) F"
  using assms by (auto simp: credit_rel_def)

definition pow2_size :: "nat \<Rightarrow> bool" where
  "pow2_size SZ \<longleftrightarrow> (\<exists>n<32. SZ = 2 ^ n)"

lemma pow2_size_bounds: "pow2_size SZ \<Longrightarrow> 0 < SZ \<and> SZ < 2 ^ 32 \<and> per_return SZ < 2 ^ 32"
proof -
  assume "pow2_size SZ"
  then obtain n where n: "n < 32" "SZ = 2 ^ n" by (auto simp: pow2_size_def)
  have "n \<le> 31" using n by simp
  then have "SZ \<le> 2 ^ 31" using n(2) power_increasing [of n 31 "2 :: nat"] by simp
  then show ?thesis using n by (auto simp: per_return_def)
qed

lemma slot_idx_of_nat:
  assumes "pow2_size SZ" "cq_mask q = of_nat (SZ - 1)"
  shows "slot_idx q (of_nat k) = k mod SZ" "slot_idx q (and (of_nat k) (cq_mask q)) = k mod SZ"
proof -
  obtain n where n: "n < 32" "SZ = 2 ^ n" using assms(1) by (auto simp: pow2_size_def)
  have m: "cq_mask q = mask n" using assms(2) n by (simp add: mask_eq_exp_minus_1 of_nat_diff)
  have "unat (and (of_nat k :: u32) (mask n)) = k mod SZ"
  proof -
    have "unat (take_bit n (of_nat k :: u32)) = take_bit n (take_bit 32 k)"
      unfolding unsigned_take_bit_eq by (simp only: unsigned_of_nat) simp
    also have "\<dots> = take_bit n k" using n(1) by simp
    also have "\<dots> = k mod SZ" by (simp add: n(2) take_bit_eq_mod)
    finally show ?thesis by (simp only: take_bit_eq_mask)
  qed
  then show "slot_idx q (of_nat k) = k mod SZ" "slot_idx q (and (of_nat k) (cq_mask q)) = k mod SZ"
    by (simp_all add: slot_idx_def m and.assoc)
qed


section \<open>The operations on a queue in order\<close>

definition sender_rel :: "nat \<Rightarrow> nat \<Rightarrow> cq \<Rightarrow> bool" where
  "sender_rel SZ P q \<longleftrightarrow> cq_conf SZ q \<and> cq_pointer q = of_nat P"

definition receiver_rel :: "nat \<Rightarrow> nat \<Rightarrow> ('a \<times> bool) list \<Rightarrow> cq \<Rightarrow> 'a cq_mem \<Rightarrow> bool" where
  "receiver_rel SZ C xs q m \<longleftrightarrow> cq_conf SZ q \<and> cq_pointer q = of_nat C \<and> ring_holds SZ C xs (cq_ring m)"

definition slot_post :: "nat \<Rightarrow> nat \<Rightarrow> 'a \<Rightarrow> 'a rdma_post" where
  "slot_post SZ k x = Post_slot (k mod SZ) (element_of (x, False))"

lemma fill_op:
  assumes S: "pow2_size SZ" and q: "sender_rel SZ P q" and l: "length (cq_ring m) = SZ" and c: "cq_credits q \<noteq> 0"
  shows "\<exists>q'. cq_fill x q m = Some (True, q', m\<lparr>cq_ring := (cq_ring m)[P mod SZ := element_of (x, False)]\<rparr>,
      if isRDMA q then [slot_post SZ P x] else [])
    \<and> sender_rel SZ (Suc P) q' \<and> isRDMA q' = isRDMA q \<and> unat (cq_credits q) = Suc (unat (cq_credits q'))"
proof -
  have i: "slot_idx q (cq_pointer q) = P mod SZ" using slot_idx_of_nat [OF S] q by (simp add: sender_rel_def cq_conf_def)
  let ?q = "q\<lparr>cq_pointer := cq_pointer q + 1, cq_credits := cq_credits q - 1\<rparr>"
  have "P mod SZ < SZ" using pow2_size_bounds [OF S] by simp
  then have "cq_fill x q m = Some (True, ?q, m\<lparr>cq_ring := (cq_ring m)[P mod SZ := element_of (x, False)]\<rparr>,
      if isRDMA q then [slot_post SZ P x] else [])"
    using l by (simp add: cq_fill_def Let_def i put_slot_def slot_post_def element_of_def)
  moreover have "sender_rel SZ (Suc P) ?q" using q by (simp add: sender_rel_def cq_conf_def add.commute)
  moreover have "unat (cq_credits q) = Suc (unat (cq_credits q - 1))" using c by (simp add: unat_minus_one unat_gt_0)
  ultimately show ?thesis by (intro exI [of _ ?q]) simp
qed

lemma push_op:
  assumes S: "pow2_size SZ" and q: "sender_rel SZ P q" and l: "length (cq_ring m) = SZ"
    and K: "credit_rel SZ (unat (cq_credits q)) n cr (cq_flag m \<or> pend)" and ex: "\<not> (cq_flag m \<and> pend)"
  shows "(cq_push_nb x q m = Some (False, q, m, []) \<and> unat (cq_credits q) = 0 \<and> \<not> cq_flag m)
    \<or> (\<exists>q' m'. cq_push_nb x q m = Some (True, q', m', if isRDMA q then [slot_post SZ P x] else [])
        \<and> sender_rel SZ (Suc P) q' \<and> isRDMA q' = isRDMA q \<and> n < SZ
        \<and> cq_ring m' = (cq_ring m)[P mod SZ := element_of (x, False)]
        \<and> credit_rel SZ (unat (cq_credits q')) (Suc n) cr (cq_flag m' \<or> pend) \<and> \<not> (cq_flag m' \<and> pend))"
proof -
  have conf: "\<not> credit_disabled q" "credits_per_return q = of_nat (per_return SZ)" using q by (simp_all add: sender_rel_def cq_conf_def)
  have ret: "unat (of_nat (per_return SZ) :: u32) = per_return SZ" using pow2_size_bounds [OF S] by (simp add: unat_of_nat_small)
  show ?thesis
  proof (cases "cq_credits q = 0")
    case False
    then have "unat (cq_credits q) \<noteq> 0" by (simp add: unat_eq_zero)
    then have "n < SZ" using K by (auto simp: credit_rel_def split: if_splits)
    obtain q' where f: "cq_fill x q m = Some (True, q', m\<lparr>cq_ring := (cq_ring m)[P mod SZ := element_of (x, False)]\<rparr>,
        if isRDMA q then [slot_post SZ P x] else [])" "sender_rel SZ (Suc P) q'" "isRDMA q' = isRDMA q"
      "unat (cq_credits q) = Suc (unat (cq_credits q'))" using fill_op [OF S q l False, of x] by blast
    have "cq_push_nb x q m = cq_fill x q m" using conf False by (simp add: cq_push_nb_def)
    with f \<open>n < SZ\<close> K ex show ?thesis
      by (intro disjI2 exI [of _ q'] exI [of _ "m\<lparr>cq_ring := (cq_ring m)[P mod SZ := element_of (x, False)]\<rparr>"])
        (auto simp: credit_rel_def split: if_splits)
  next
    case z: True
    show ?thesis
    proof (cases "cq_flag m")
      case False
      then show ?thesis using z conf by (simp add: cq_push_nb_def)
    next
      case True
      let ?q = "q\<lparr>cq_credits := of_nat (per_return SZ)\<rparr>" and ?m = "m\<lparr>cq_flag := False\<rparr>"
      have nz: "cq_credits ?q \<noteq> 0" using ret by (auto simp: per_return_def unat_eq_zero [symmetric])
      have q': "sender_rel SZ P ?q" using q by (simp add: sender_rel_def cq_conf_def)
      have "n < SZ" using K True by (auto simp: credit_rel_def per_return_def)
      obtain q1 where f: "cq_fill x ?q ?m = Some (True, q1, ?m\<lparr>cq_ring := (cq_ring ?m)[P mod SZ := element_of (x, False)]\<rparr>,
          if isRDMA ?q then [slot_post SZ P x] else [])" "sender_rel SZ (Suc P) q1" "isRDMA q1 = isRDMA ?q"
        "unat (cq_credits ?q) = Suc (unat (cq_credits q1))" using fill_op [OF S q' _ nz, of ?m x] l by auto
      have "cq_push_nb x q m = cq_fill x ?q ?m" using conf z True by (simp add: cq_push_nb_def)
      with f \<open>n < SZ\<close> K ex True z ret show ?thesis
        by (intro disjI2 exI [of _ q1] exI [of _ "?m\<lparr>cq_ring := (cq_ring ?m)[P mod SZ := element_of (x, False)]\<rparr>"])
          (auto simp: credit_rel_def split: if_splits)
    qed
  qed
qed

lemma release_op:
  assumes S: "pow2_size SZ" and q: "receiver_rel SZ C (x # xs) q m" and K: "credit_rel SZ cs (Suc n) (unat (cq_credits q)) F"
  shows "\<exists>q' m' fl. cq_release e q m = Some (q', m', if isRDMA q \<and> fl then [Post_flag] else [])
    \<and> receiver_rel SZ (Suc C) xs q' m' \<and> isRDMA q' = isRDMA q \<and> cq_flag m' = (cq_flag m \<or> fl) \<and> \<not> (F \<and> fl)
    \<and> credit_rel SZ cs n (unat (cq_credits q')) (F \<or> fl)"
proof -
  have conf: "cq_conf SZ q" "cq_pointer q = of_nat C" "ring_holds SZ C (x # xs) (cq_ring m)" using q by (simp_all add: receiver_rel_def)
  have i: "slot_idx q (cq_pointer q) = C mod SZ" using slot_idx_of_nat [OF S] conf by (simp add: cq_conf_def)
  have b: "C mod SZ < length (cq_ring m)" using ring_holds_head(1) [OF conf(3)] pow2_size_bounds [OF S] by simp
  let ?q = "q\<lparr>cq_pointer := cq_pointer q + 1, cq_credits := cq_credits q + 1\<rparr>" and ?m = "m\<lparr>cq_ring := (cq_ring m)[C mod SZ := e\<lparr>el_valid := False\<rparr>]\<rparr>"
  have "unat (cq_credits q) < per_return SZ" using K by (simp add: credit_rel_def)
  then have s: "unat (cq_credits q + 1) = Suc (unat (cq_credits q))"
    using pow2_size_bounds [OF S] by (simp add: unat_word_ariths)
  have ret: "unat (credits_per_return q) = per_return SZ"
    using pow2_size_bounds [OF S] conf(1) by (simp add: cq_conf_def unat_of_nat_small)
  have eq: "cq_credits q + 1 = credits_per_return q \<longleftrightarrow> Suc (unat (cq_credits q)) = per_return SZ"
    unfolding word_unat_eq_iff s ret ..
  have R: "receiver_rel SZ (Suc C) xs ?q ?m" "receiver_rel SZ (Suc C) xs (?q\<lparr>cq_credits := 0\<rparr>) (?m\<lparr>cq_flag := True\<rparr>)"
    using conf ring_holds_release [OF conf(3), of "e\<lparr>el_valid := False\<rparr>"] by (simp_all add: receiver_rel_def cq_conf_def add.commute)
  show ?thesis
  proof (cases "Suc (unat (cq_credits q)) = per_return SZ")
    case True
    have "cq_release e q m = Some (?q\<lparr>cq_credits := 0\<rparr>, ?m\<lparr>cq_flag := True\<rparr>, if isRDMA q \<and> True then [Post_flag] else [])"
      using True eq b by (simp add: cq_release_def i put_slot_def Let_def)
    with R(2) credit_release [OF K True] show ?thesis by (intro exI [of _ "?q\<lparr>cq_credits := 0\<rparr>"] exI [of _ "?m\<lparr>cq_flag := True\<rparr>"] exI [of _ True]) simp
  next
    case False
    have "cq_release e q m = Some (?q, ?m, if isRDMA q \<and> False then [Post_flag] else [])"
      using False eq b by (simp add: cq_release_def i put_slot_def Let_def)
    with R(1) credit_count [OF K False] s show ?thesis by (intro exI [of _ ?q] exI [of _ ?m] exI [of _ False]) simp
  qed
qed

lemma collect_op:
  assumes S: "pow2_size SZ"
  shows "receiver_rel SZ C xs q m \<Longrightarrow> credit_rel SZ cs (length xs + k) (unat (cq_credits q)) F \<Longrightarrow>
    \<exists>q' m' fl. cq_collect q m = Some (q', m', if isRDMA q \<and> fl then [Post_flag] else [])
    \<and> receiver_rel SZ (C + length (takeWhile snd xs)) (dropWhile snd xs) q' m' \<and> isRDMA q' = isRDMA q
    \<and> cq_flag m' = (cq_flag m \<or> fl) \<and> \<not> (F \<and> fl) \<and> credit_rel SZ cs (length (dropWhile snd xs) + k) (unat (cq_credits q')) (F \<or> fl)"
proof (induction xs arbitrary: C q m F)
  case Nil
  have r: "ring_holds SZ C [] (cq_ring m)" "cq_conf SZ q" "cq_pointer q = of_nat C" using Nil.prems(1) by (simp_all add: receiver_rel_def)
  have i: "slot_idx q (cq_pointer q) = C mod SZ" using slot_idx_of_nat [OF S] r by (simp add: cq_conf_def)
  note h = ring_holds_head [OF r(1), simplified]
  have "cq_collect q m = Some (q, m, [])" using h pow2_size_bounds [OF S] i by (subst cq_collect.simps) (simp add: get_slot_def)
  then show ?case using Nil.prems by (intro exI [of _ q] exI [of _ m] exI [of _ False]) simp
next
  case (Cons x xs)
  have r: "ring_holds SZ C (x # xs) (cq_ring m)" "cq_conf SZ q" "cq_pointer q = of_nat C" using Cons.prems(1) by (simp_all add: receiver_rel_def)
  have i: "slot_idx q (cq_pointer q) = C mod SZ" using slot_idx_of_nat [OF S] r by (simp add: cq_conf_def)
  have g: "get_slot (slot_idx q (cq_pointer q)) m = Some (element_of x)"
    using ring_holds_head(1,3) [OF r(1)] pow2_size_bounds [OF S] by (simp add: get_slot_def i)
  show ?case
  proof (cases "snd x")
    case False
    then have "cq_collect q m = Some (q, m, [])" using g by (subst cq_collect.simps) (simp add: element_of_def)
    then show ?thesis using Cons.prems False by (intro exI [of _ q] exI [of _ m] exI [of _ False]) simp
  next
    case True
    have K: "credit_rel SZ cs (Suc (length xs + k)) (unat (cq_credits q)) F" using Cons.prems(2) by simp
    obtain q1 m1 f1 where a: "cq_release (element_of x) q m = Some (q1, m1, if isRDMA q \<and> f1 then [Post_flag] else [])"
      "receiver_rel SZ (Suc C) xs q1 m1" "isRDMA q1 = isRDMA q" "cq_flag m1 = (cq_flag m \<or> f1)" "\<not> (F \<and> f1)"
      "credit_rel SZ cs (length xs + k) (unat (cq_credits q1)) (F \<or> f1)"
      using release_op [OF S Cons.prems(1) K] by blast
    obtain q2 m2 f2 where b: "cq_collect q1 m1 = Some (q2, m2, if isRDMA q1 \<and> f2 then [Post_flag] else [])"
      "receiver_rel SZ (Suc C + length (takeWhile snd xs)) (dropWhile snd xs) q2 m2" "isRDMA q2 = isRDMA q1"
      "cq_flag m2 = (cq_flag m1 \<or> f2)" "\<not> ((F \<or> f1) \<and> f2)"
      "credit_rel SZ cs (length (dropWhile snd xs) + k) (unat (cq_credits q2)) ((F \<or> f1) \<or> f2)"
      using Cons.IH [OF a(2,6)] by blast
    have "cq_collect q m = Some (q2, m2, if isRDMA q \<and> (f1 \<or> f2) then [Post_flag] else [])"
      using g a(1,3) b(1,5) True by (subst cq_collect.simps) (auto simp: element_of_def)
    then show ?thesis using a b True by (intro exI [of _ q2] exI [of _ m2] exI [of _ "f1 \<or> f2"]) auto
  qed
qed

text \<open>Deletion of the element at position \<open>i\<close>: it is marked, and if it is the head, the deleted elements at the head are released.\<close>

lemma del_op:
  assumes S: "pow2_size SZ" and q: "receiver_rel SZ C xs q m" and K: "credit_rel SZ cs (length xs + k) (unat (cq_credits q)) F" and i: "i < length xs"
  defines "ys \<equiv> xs[i := (fst (xs ! i), True)]"
  shows "\<exists>q' m' fl n. cq_del (of_nat (C + i)) q m = Some (q', m', if isRDMA q \<and> fl then [Post_flag] else [])
    \<and> n = (if i = 0 then length (takeWhile snd ys) else 0) \<and> receiver_rel SZ (C + n) (drop n ys) q' m' \<and> isRDMA q' = isRDMA q
    \<and> cq_flag m' = (cq_flag m \<or> fl) \<and> \<not> (F \<and> fl) \<and> credit_rel SZ cs (length (drop n ys) + k) (unat (cq_credits q')) (F \<or> fl)"
proof -
  have r: "ring_holds SZ C xs (cq_ring m)" "cq_conf SZ q" "cq_pointer q = of_nat C" using q by (simp_all add: receiver_rel_def)
  have l: "length (cq_ring m) = SZ" "length xs \<le> SZ" "0 < SZ" using r(1) pow2_size_bounds [OF S] by (auto simp: ring_holds_def)
  have s: "slot_idx q (of_nat (C + i)) = (C + i) mod SZ" "slot_idx q (cq_pointer q) = C mod SZ"
    using slot_idx_of_nat(1) [OF S, of q] r by (auto simp: cq_conf_def simp del: of_nat_add)
  have h: "(C + i) mod SZ = C mod SZ \<longleftrightarrow> i = 0" using mod_window [OF i _ l(2), of 0 C] i by (cases xs) auto
  have e: "cq_ring m ! ((C + i) mod SZ) = element_of (xs ! i)" using r(1) i by (simp add: ring_holds_def)
  let ?m = "m\<lparr>cq_ring := (cq_ring m)[(C + i) mod SZ := element_of (fst (xs ! i), True)]\<rparr>"
  have q1: "receiver_rel SZ C ys q ?m" using r ring_holds_mark [OF r(1) i] by (simp add: receiver_rel_def ys_def)
  have eq: "cq_del (of_nat (C + i)) q m = (if i = 0 then cq_collect q ?m else Some (q, ?m, []))"
    unfolding cq_del_def s h using l e by (simp add: get_slot_def put_slot_def element_of_def)
  have K1: "credit_rel SZ cs (length ys + k) (unat (cq_credits q)) F" using K by (simp add: ys_def)
  show ?thesis
  proof (cases "i = 0")
    case True
    from collect_op [OF S q1 K1] show ?thesis unfolding eq using True by (simp add: dropWhile_eq_drop)
  next
    case False
    then show ?thesis unfolding eq using q1 K1 by (intro exI [of _ q] exI [of _ ?m] exI [of _ False]) simp
  qed
qed

lemma length_unmarked [simp]: "length (unmarked vs) = length vs"
  by (simp add: unmarked_def)

lemma pop_op:
  assumes S: "pow2_size SZ" and q: "receiver_rel SZ C (unmarked vs) q m" and K: "credit_rel SZ cs (length vs + k) (unat (cq_credits q)) F"
  shows "\<exists>q' m' fl C'. cq_pop_nb q m = Some (case vs of [] \<Rightarrow> None | v # _ \<Rightarrow> Some v, q', m', if isRDMA q \<and> fl then [Post_flag] else [])
    \<and> C' + length (tl vs) = C + length vs \<and> receiver_rel SZ C' (unmarked (tl vs)) q' m' \<and> isRDMA q' = isRDMA q
    \<and> cq_flag m' = (cq_flag m \<or> fl) \<and> \<not> (F \<and> fl) \<and> credit_rel SZ cs (length (tl vs) + k) (unat (cq_credits q')) (F \<or> fl)"
proof -
  have r: "ring_holds SZ C (unmarked vs) (cq_ring m)" "cq_mask q = of_nat (SZ - 1)" "cq_pointer q = of_nat C"
    using q by (simp_all add: receiver_rel_def cq_conf_def)
  have i: "slot_idx q (cq_pointer q) = C mod SZ" using slot_idx_of_nat [OF S r(2)] r(3) by simp
  have b: "C mod SZ < length (cq_ring m)" using ring_holds_head(1) [OF r(1)] pow2_size_bounds [OF S] by simp
  show ?thesis
  proof (cases vs)
    case Nil
    then have "\<not> el_valid (cq_ring m ! (C mod SZ))" using ring_holds_head(2) [OF r(1)] pow2_size_bounds [OF S] by (simp add: unmarked_def)
    then have "cq_pop_nb q m = Some (None, q, m, [])" using b by (simp add: cq_pop_nb_def get_slot_def i)
    then show ?thesis using Nil q K by (intro exI [of _ q] exI [of _ m] exI [of _ False] exI [of _ C]) simp
  next
    case (Cons v ws)
    have u: "unmarked vs = (v, False) # unmarked ws" using Cons by (simp add: unmarked_def)
    have w: "takeWhile snd (unmarked ws) = []" by (cases ws) (simp_all add: unmarked_def)
    have e: "cq_ring m ! (C mod SZ) = element_of (v, False)" using ring_holds_head(3) [OF r(1) _ u] pow2_size_bounds [OF S] by simp
    have d: "cq_del (and (cq_pointer q) (cq_mask q)) q m = cq_del (of_nat (C + 0)) q m"
      using slot_idx_of_nat [OF S r(2), of C] by (simp add: cq_del_def r(3))
    have K': "credit_rel SZ cs (length (unmarked vs) + k) (unat (cq_credits q)) F" using K by simp
    obtain q' m' fl where D: "cq_del (of_nat (C + 0)) q m = Some (q', m', if isRDMA q \<and> fl then [Post_flag] else [])"
      "receiver_rel SZ (Suc C) (unmarked ws) q' m'" "isRDMA q' = isRDMA q" "cq_flag m' = (cq_flag m \<or> fl)" "\<not> (F \<and> fl)"
      "credit_rel SZ cs (length ws + k) (unat (cq_credits q')) (F \<or> fl)"
      using del_op [OF S q K', of 0] u w by auto
    have "cq_pop_nb q m = Some (Some v, q', m', if isRDMA q \<and> fl then [Post_flag] else [])"
      unfolding cq_pop_nb_def d D(1) using b e by (simp add: get_slot_def i element_of_def)
    then show ?thesis using D Cons by (intro exI [of _ q'] exI [of _ m'] exI [of _ fl] exI [of _ "Suc C"]) simp
  qed
qed

text \<open>The receiver's test for emptiness looks at the head only, as long as nothing is deleted out of order.\<close>

lemma isempty_op:
  assumes S: "pow2_size SZ" and q: "receiver_rel SZ C (unmarked vs) q m"
  shows "cq_isempty q m = Some (vs = [])"
proof -
  have r: "ring_holds SZ C (unmarked vs) (cq_ring m)" "cq_mask q = of_nat (SZ - 1)" "cq_pointer q = of_nat C"
    using q by (simp_all add: receiver_rel_def cq_conf_def)
  have i: "slot_idx q (cq_pointer q) = C mod SZ" using slot_idx_of_nat [OF S r(2)] r(3) by simp
  note h = ring_holds_head [OF r(1)]
  show ?thesis using h pow2_size_bounds [OF S]
    by (cases vs; subst cq_isempty_def, subst empty_from.simps) (auto simp: get_slot_def i unmarked_def element_of_def)
qed


section \<open>Runs over shared memory\<close>

text \<open>A schedule: \<open>Some x\<close> is an attempt of the sender to push \<open>x\<close>, \<open>None\<close> an attempt of the receiver to pop.\<close>

fun cq_run :: "'a option list \<Rightarrow> cq \<times> cq \<times> 'a cq_mem \<Rightarrow> ('a list \<times> 'a list \<times> cq \<times> cq \<times> 'a cq_mem) option" where
  "cq_run [] (sq, rq, m) = Some ([], [], sq, rq, m)"
| "cq_run (Some x # ops) (sq, rq, m) =
     Option.bind (cq_push_nb x sq m) (\<lambda>(ok, sq', m', _).
       map_option (\<lambda>(ins, outs, s). (if ok then x # ins else ins, outs, s)) (cq_run ops (sq', rq, m')))"
| "cq_run (None # ops) (sq, rq, m) =
     Option.bind (cq_pop_nb rq m) (\<lambda>(y, rq', m', _).
       map_option (\<lambda>(ins, outs, s). (ins, case y of None \<Rightarrow> outs | Some v \<Rightarrow> v # outs, s)) (cq_run ops (sq, rq', m')))"

definition shared_rel :: "nat \<Rightarrow> nat \<Rightarrow> 'a list \<Rightarrow> cq \<Rightarrow> cq \<Rightarrow> 'a cq_mem \<Rightarrow> bool" where
  "shared_rel SZ C vs sq rq m \<longleftrightarrow> sender_rel SZ (C + length vs) sq \<and> receiver_rel SZ C (unmarked vs) rq m
     \<and> credit_rel SZ (unat (cq_credits sq)) (length vs) (unat (cq_credits rq)) (cq_flag m)"

lemma shared_push:
  assumes S: "pow2_size SZ" and R: "shared_rel SZ C vs sq rq m"
  shows "\<exists>ok sq' m' ps. cq_push_nb x sq m = Some (ok, sq', m', ps) \<and> shared_rel SZ C (if ok then vs @ [x] else vs) sq' rq m'
    \<and> (ok \<or> SZ \<le> 2 * length vs)"
proof -
  have q: "sender_rel SZ (C + length vs) sq" and r: "ring_holds SZ C (unmarked vs) (cq_ring m)" "cq_conf SZ rq" "cq_pointer rq = of_nat C"
    and K: "credit_rel SZ (unat (cq_credits sq)) (length vs) (unat (cq_credits rq)) (cq_flag m \<or> False)"
    using R by (simp_all add: shared_rel_def receiver_rel_def)
  have l: "length (cq_ring m) = SZ" using r(1) by (simp add: ring_holds_def)
  from push_op [OF S q l K, of x] consider (no) "cq_push_nb x sq m = Some (False, sq, m, [])" "unat (cq_credits sq) = 0" "\<not> cq_flag m"
    | (yes) q' m' ps where "cq_push_nb x sq m = Some (True, q', m', ps)" "sender_rel SZ (Suc (C + length vs)) q'" "length vs < SZ"
        "cq_ring m' = (cq_ring m)[(C + length vs) mod SZ := element_of (x, False)]"
        "credit_rel SZ (unat (cq_credits q')) (Suc (length vs)) (unat (cq_credits rq)) (cq_flag m')" by auto
  then show ?thesis
  proof cases
    case no
    have "SZ \<le> 2 * length vs" using K no(2,3) by (auto simp: credit_rel_def per_return_def)
    then show ?thesis using no(1) R by auto
  next
    case yes
    have u: "unmarked (vs @ [x]) = unmarked vs @ [(x, False)]" by (simp add: unmarked_def)
    have "ring_holds SZ C (unmarked (vs @ [x])) (cq_ring m')"
      using ring_holds_push [OF r(1), of "(x, False)"] yes(3,4) by (simp add: u)
    then show ?thesis using yes r by (auto simp: shared_rel_def receiver_rel_def)
  qed
qed

lemma shared_pop:
  assumes S: "pow2_size SZ" and R: "shared_rel SZ C vs sq rq m"
  shows "\<exists>C' rq' m' ps. cq_pop_nb rq m = Some (case vs of [] \<Rightarrow> None | v # _ \<Rightarrow> Some v, rq', m', ps) \<and> shared_rel SZ C' (tl vs) sq rq' m'"
proof -
  have q: "sender_rel SZ (C + length vs) sq" "receiver_rel SZ C (unmarked vs) rq m"
    and K: "credit_rel SZ (unat (cq_credits sq)) (length vs + 0) (unat (cq_credits rq)) (cq_flag m)"
    using R by (simp_all add: shared_rel_def)
  from pop_op [OF S q(2) K] show ?thesis using q(1) by (fastforce simp: shared_rel_def)
qed

lemma cq_run_rel:
  assumes S: "pow2_size SZ"
  shows "shared_rel SZ C vs sq rq m \<Longrightarrow> \<exists>ins outs ws sq' rq' m' C'.
    cq_run ops (sq, rq, m) = Some (ins, outs, sq', rq', m') \<and> vs @ ins = outs @ ws \<and> shared_rel SZ C' ws sq' rq' m'"
proof (induction ops arbitrary: C vs sq rq m)
  case Nil
  then show ?case by auto
next
  case (Cons p ops)
  show ?case
  proof (cases p)
    case None
    obtain C' rq' m' ps where t: "cq_pop_nb rq m = Some (case vs of [] \<Rightarrow> None | v # _ \<Rightarrow> Some v, rq', m', ps)"
      and R: "shared_rel SZ C' (tl vs) sq rq' m'" using shared_pop [OF S Cons.prems] by blast
    obtain ins outs ws sq2 rq2 m2 C2 where g: "cq_run ops (sq, rq', m') = Some (ins, outs, sq2, rq2, m2)" "tl vs @ ins = outs @ ws"
      and R2: "shared_rel SZ C2 ws sq2 rq2 m2" using Cons.IH [OF R] by blast
    have "cq_run (p # ops) (sq, rq, m) = Some (ins, (case vs of [] \<Rightarrow> outs | v # _ \<Rightarrow> v # outs), sq2, rq2, m2)"
      "vs @ ins = (case vs of [] \<Rightarrow> outs | v # _ \<Rightarrow> v # outs) @ ws"
      using g None t by (simp_all split: list.splits)
    with R2 show ?thesis by blast
  next
    case (Some x)
    obtain ok sq' m' ps where t: "cq_push_nb x sq m = Some (ok, sq', m', ps)"
      and R: "shared_rel SZ C (if ok then vs @ [x] else vs) sq' rq m'" using shared_push [OF S Cons.prems] by blast
    from Cons.IH [OF R] obtain ins outs ws sq2 rq2 m2 C2 where g: "cq_run ops (sq', rq, m') = Some (ins, outs, sq2, rq2, m2)"
      "(if ok then vs @ [x] else vs) @ ins = outs @ ws" and R2: "shared_rel SZ C2 ws sq2 rq2 m2" by blast
    then have "cq_run (p # ops) (sq, rq, m) = Some (if ok then x # ins else ins, outs, sq2, rq2, m2)"
      "vs @ (if ok then x # ins else ins) = outs @ ws" using Some t by (auto split: if_splits)
    with R2 show ?thesis by blast
  qed
qed


section \<open>Runs over RDMA\<close>

text \<open>
  Each side has its own copy of the memory and posts writes to the other's. A turn is an attempt of either side, or
  the delivery of the oldest posted write of one direction: the network may be as slow as it likes, but keeps the order.
\<close>

record 'a cq_link =
  l_sq :: cq
  l_sm :: "'a cq_mem"
  l_rq :: cq
  l_rm :: "'a cq_mem"
  to_rcv :: "'a rdma_post list"
  to_snd :: "'a rdma_post list"

datatype 'a cq_turn = T_send 'a | T_take | T_deliver_rcv | T_deliver_snd

definition link_turn :: "'a cq_turn \<Rightarrow> 'a cq_link \<Rightarrow> ('a list \<times> 'a list \<times> 'a cq_link) option" where
  "link_turn t L = (case t of
     T_send x \<Rightarrow> map_option (\<lambda>(ok, q, m, ps). (if ok then [x] else [], [], L\<lparr>l_sq := q, l_sm := m, to_rcv := to_rcv L @ ps\<rparr>))
       (cq_push_nb x (l_sq L) (l_sm L))
   | T_take \<Rightarrow> map_option (\<lambda>(y, q, m, ps). ([], case y of None \<Rightarrow> [] | Some v \<Rightarrow> [v], L\<lparr>l_rq := q, l_rm := m, to_snd := to_snd L @ ps\<rparr>))
       (cq_pop_nb (l_rq L) (l_rm L))
   | T_deliver_rcv \<Rightarrow> (case to_rcv L of [] \<Rightarrow> Some ([], [], L)
       | p # ps \<Rightarrow> map_option (\<lambda>m. ([], [], L\<lparr>l_rm := m, to_rcv := ps\<rparr>)) (deliver p (l_rm L)))
   | T_deliver_snd \<Rightarrow> (case to_snd L of [] \<Rightarrow> Some ([], [], L)
       | p # ps \<Rightarrow> map_option (\<lambda>m. ([], [], L\<lparr>l_sm := m, to_snd := ps\<rparr>)) (deliver p (l_sm L))))"

fun link_run :: "'a cq_turn list \<Rightarrow> 'a cq_link \<Rightarrow> ('a list \<times> 'a list \<times> 'a cq_link) option" where
  "link_run [] L = Some ([], [], L)"
| "link_run (t # ts) L = Option.bind (link_turn t L) (\<lambda>(i, out, L').
     map_option (\<lambda>(ins, outs, L''). (i @ ins, out @ outs, L'')) (link_run ts L'))"

fun posts_from :: "nat \<Rightarrow> nat \<Rightarrow> 'a list \<Rightarrow> 'a rdma_post list" where
  "posts_from SZ k [] = []"
| "posts_from SZ k (y # ys) = slot_post SZ k y # posts_from SZ (Suc k) ys"

lemma posts_from_snoc: "posts_from SZ k (ys @ [y]) = posts_from SZ k ys @ [slot_post SZ (k + length ys) y]"
  by (induction ys arbitrary: k) simp_all

text \<open>\<open>vs\<close> are the elements that have arrived, \<open>ys\<close> those under way.\<close>

definition link_rel :: "nat \<Rightarrow> nat \<Rightarrow> 'a list \<Rightarrow> 'a list \<Rightarrow> 'a cq_link \<Rightarrow> bool" where
  "link_rel SZ C vs ys L \<longleftrightarrow> sender_rel SZ (C + length vs + length ys) (l_sq L) \<and> isRDMA (l_sq L) \<and> isRDMA (l_rq L)
     \<and> length (cq_ring (l_sm L)) = SZ \<and> receiver_rel SZ C (unmarked vs) (l_rq L) (l_rm L)
     \<and> to_rcv L = posts_from SZ (C + length vs) ys \<and> (to_snd L = [] \<or> to_snd L = [Post_flag] \<and> \<not> cq_flag (l_sm L))
     \<and> credit_rel SZ (unat (cq_credits (l_sq L))) (length vs + length ys) (unat (cq_credits (l_rq L))) (cq_flag (l_sm L) \<or> to_snd L \<noteq> [])"

lemma link_send:
  assumes S: "pow2_size SZ" and R: "link_rel SZ C vs ys L"
  shows "\<exists>ok q m ps. cq_push_nb x (l_sq L) (l_sm L) = Some (ok, q, m, ps)
    \<and> link_rel SZ C vs (if ok then ys @ [x] else ys) (L\<lparr>l_sq := q, l_sm := m, to_rcv := to_rcv L @ ps\<rparr>)
    \<and> (ok \<or> SZ \<le> 2 * (length vs + length ys) \<or> to_snd L \<noteq> [])"
proof -
  let ?pend = "to_snd L \<noteq> []"
  have q: "sender_rel SZ (C + length vs + length ys) (l_sq L)" "length (cq_ring (l_sm L)) = SZ" "isRDMA (l_sq L)"
    and K: "credit_rel SZ (unat (cq_credits (l_sq L))) (length vs + length ys) (unat (cq_credits (l_rq L))) (cq_flag (l_sm L) \<or> ?pend)"
    and ex: "\<not> (cq_flag (l_sm L) \<and> ?pend)" using R by (auto simp: link_rel_def)
  from push_op [OF S q(1,2) K ex, of x] q(3) consider
      (no) "cq_push_nb x (l_sq L) (l_sm L) = Some (False, l_sq L, l_sm L, [])" "unat (cq_credits (l_sq L)) = 0" "\<not> cq_flag (l_sm L)"
    | (yes) q' m' where "cq_push_nb x (l_sq L) (l_sm L) = Some (True, q', m', [slot_post SZ (C + length vs + length ys) x])"
        "sender_rel SZ (Suc (C + length vs + length ys)) q'" "isRDMA q'"
        "cq_ring m' = (cq_ring (l_sm L))[(C + length vs + length ys) mod SZ := element_of (x, False)]"
        "credit_rel SZ (unat (cq_credits q')) (Suc (length vs + length ys)) (unat (cq_credits (l_rq L))) (cq_flag m' \<or> ?pend)" "\<not> (cq_flag m' \<and> ?pend)"
    by auto
  then show ?thesis
  proof cases
    case no
    have "SZ \<le> 2 * (length vs + length ys) \<or> ?pend" using K no(2,3) by (auto simp: credit_rel_def per_return_def)
    then show ?thesis using no(1) R by auto
  next
    case yes
    have "link_rel SZ C vs (ys @ [x]) (L\<lparr>l_sq := q', l_sm := m', to_rcv := to_rcv L @ [slot_post SZ (C + length vs + length ys) x]\<rparr>)"
      using R yes(2-6) by (auto simp: link_rel_def posts_from_snoc)
    with yes(1) show ?thesis by auto
  qed
qed

lemma link_take:
  assumes S: "pow2_size SZ" and R: "link_rel SZ C vs ys L"
  shows "\<exists>C' q m ps. cq_pop_nb (l_rq L) (l_rm L) = Some (case vs of [] \<Rightarrow> None | v # _ \<Rightarrow> Some v, q, m, ps)
    \<and> link_rel SZ C' (tl vs) ys (L\<lparr>l_rq := q, l_rm := m, to_snd := to_snd L @ ps\<rparr>)"
proof -
  let ?F = "cq_flag (l_sm L) \<or> to_snd L \<noteq> []"
  have q: "receiver_rel SZ C (unmarked vs) (l_rq L) (l_rm L)" "isRDMA (l_rq L)"
    and K: "credit_rel SZ (unat (cq_credits (l_sq L))) (length vs + length ys) (unat (cq_credits (l_rq L))) ?F"
    using R by (auto simp: link_rel_def)
  obtain q' m' fl C' where p: "cq_pop_nb (l_rq L) (l_rm L) = Some (case vs of [] \<Rightarrow> None | v # _ \<Rightarrow> Some v, q', m', if fl then [Post_flag] else [])"
    "C' + length (tl vs) = C + length vs" "receiver_rel SZ C' (unmarked (tl vs)) q' m'" "isRDMA q'" "\<not> (?F \<and> fl)"
    "credit_rel SZ (unat (cq_credits (l_sq L))) (length (tl vs) + length ys) (unat (cq_credits q')) (?F \<or> fl)"
    using pop_op [OF S q(1) K] q(2) by auto
  have "link_rel SZ C' (tl vs) ys (L\<lparr>l_rq := q', l_rm := m', to_snd := to_snd L @ (if fl then [Post_flag] else [])\<rparr>)"
    using R p(2-6) by (auto simp: link_rel_def)
  with p(1) show ?thesis by blast
qed

lemma link_deliver:
  assumes S: "pow2_size SZ" and R: "link_rel SZ C vs ys L"
  shows "\<exists>L' vs' ys'. link_turn T_deliver_rcv L = Some ([], [], L') \<and> vs' @ ys' = vs @ ys \<and> link_rel SZ C vs' ys' L'"
    and "\<exists>L'. link_turn T_deliver_snd L = Some ([], [], L') \<and> link_rel SZ C vs ys L'"
proof -
  show "\<exists>L' vs' ys'. link_turn T_deliver_rcv L = Some ([], [], L') \<and> vs' @ ys' = vs @ ys \<and> link_rel SZ C vs' ys' L'"
  proof (cases ys)
    case Nil
    then have "link_turn T_deliver_rcv L = Some ([], [], L)" using R by (simp add: link_turn_def link_rel_def)
    then show ?thesis using R by blast
  next
    case (Cons y zs)
    have r: "ring_holds SZ C (unmarked vs) (cq_ring (l_rm L))" "cq_conf SZ (l_rq L)" "cq_pointer (l_rq L) = of_nat C"
      and t: "to_rcv L = slot_post SZ (C + length vs) y # posts_from SZ (Suc (C + length vs)) zs"
      using R Cons by (simp_all add: link_rel_def receiver_rel_def)
    have l: "length vs < SZ" "length (cq_ring (l_rm L)) = SZ" using R Cons r(1) by (auto simp: link_rel_def credit_rel_def ring_holds_def)
    let ?m = "(l_rm L)\<lparr>cq_ring := (cq_ring (l_rm L))[(C + length vs) mod SZ := element_of (y, False)]\<rparr>"
    have "link_turn T_deliver_rcv L = Some ([], [], L\<lparr>l_rm := ?m, to_rcv := posts_from SZ (Suc (C + length vs)) zs\<rparr>)"
      using t l by (simp add: link_turn_def deliver_def slot_post_def put_slot_def)
    moreover have "ring_holds SZ C (unmarked (vs @ [y])) (cq_ring ?m)"
      using ring_holds_push [OF r(1), of "(y, False)"] l by (simp add: unmarked_def)
    then have "link_rel SZ C (vs @ [y]) zs (L\<lparr>l_rm := ?m, to_rcv := posts_from SZ (Suc (C + length vs)) zs\<rparr>)"
      using R Cons r by (simp add: link_rel_def receiver_rel_def)
    ultimately show ?thesis using Cons by (intro exI conjI) auto
  qed
  show "\<exists>L'. link_turn T_deliver_snd L = Some ([], [], L') \<and> link_rel SZ C vs ys L'"
    using R by (auto simp: link_turn_def link_rel_def deliver_def)
qed

lemma link_turn_rel:
  assumes S: "pow2_size SZ" and R: "link_rel SZ C vs ys L"
  shows "\<exists>i out C' vs' ys' L'. link_turn t L = Some (i, out, L') \<and> vs @ ys @ i = out @ vs' @ ys' \<and> link_rel SZ C' vs' ys' L'"
proof (cases t)
  case (T_send x)
  obtain ok q m ps where p: "cq_push_nb x (l_sq L) (l_sm L) = Some (ok, q, m, ps)"
    and r: "link_rel SZ C vs (if ok then ys @ [x] else ys) (L\<lparr>l_sq := q, l_sm := m, to_rcv := to_rcv L @ ps\<rparr>)"
    using link_send [OF S R] by blast
  have "link_turn t L = Some (if ok then [x] else [], [], L\<lparr>l_sq := q, l_sm := m, to_rcv := to_rcv L @ ps\<rparr>)"
    using T_send p by (simp add: link_turn_def)
  moreover have "vs @ ys @ (if ok then [x] else []) = [] @ vs @ (if ok then ys @ [x] else ys)" by simp
  ultimately show ?thesis using r by blast
next
  case T_take
  obtain C' q m ps where p: "cq_pop_nb (l_rq L) (l_rm L) = Some (case vs of [] \<Rightarrow> None | v # _ \<Rightarrow> Some v, q, m, ps)"
    and r: "link_rel SZ C' (tl vs) ys (L\<lparr>l_rq := q, l_rm := m, to_snd := to_snd L @ ps\<rparr>)" using link_take [OF S R] by blast
  have "link_turn t L = Some ([], case vs of [] \<Rightarrow> [] | v # _ \<Rightarrow> [v], L\<lparr>l_rq := q, l_rm := m, to_snd := to_snd L @ ps\<rparr>)"
    using T_take p by (cases vs) (simp_all add: link_turn_def)
  moreover have "vs @ ys @ [] = (case vs of [] \<Rightarrow> [] | v # _ \<Rightarrow> [v]) @ tl vs @ ys" by (cases vs) simp_all
  ultimately show ?thesis using r by blast
next
  case T_deliver_rcv
  then show ?thesis using link_deliver(1) [OF S R] by (metis append_Nil append_Nil2 append.assoc)
next
  case T_deliver_snd
  then show ?thesis using link_deliver(2) [OF S R] by (metis append_Nil append_Nil2)
qed

lemma link_run_rel:
  assumes S: "pow2_size SZ"
  shows "link_rel SZ C vs ys L \<Longrightarrow> \<exists>ins outs C' vs' ys' L'. link_run ts L = Some (ins, outs, L')
    \<and> vs @ ys @ ins = outs @ vs' @ ys' \<and> link_rel SZ C' vs' ys' L'"
proof (induction ts arbitrary: C vs ys L)
  case Nil
  then show ?case by auto
next
  case (Cons t ts)
  obtain i out C1 vs1 ys1 L1 where a: "link_turn t L = Some (i, out, L1)" "vs @ ys @ i = out @ vs1 @ ys1" "link_rel SZ C1 vs1 ys1 L1"
    using link_turn_rel [OF S Cons.prems] by blast
  obtain ins outs C' vs' ys' L' where b: "link_run ts L1 = Some (ins, outs, L')" "vs1 @ ys1 @ ins = outs @ vs' @ ys'" "link_rel SZ C' vs' ys' L'"
    using Cons.IH [OF a(3)] by blast
  have "vs @ ys @ i @ ins = (out @ outs) @ vs' @ ys'" using a(2) b(2) by (metis append.assoc)
  moreover have "link_run (t # ts) L = Some (i @ ins, out @ outs, L')" using a(1) b(1) by simp
  ultimately show ?case using b(3) by (metis append.assoc)
qed


section \<open>Properties\<close>

text \<open>A queue that both sides have initialised, over one memory and over two.\<close>

definition fresh_mem :: "'a \<Rightarrow> nat \<Rightarrow> 'a cq_mem" where
  "fresh_mem zero SZ = snd (cq_init SZ True (cq_init_mem zero SZ \<lparr>cq_ring = [], cq_flag = True\<rparr>))"

definition fresh_link :: "'a \<Rightarrow> nat \<Rightarrow> 'a cq_link" where
  "fresh_link zero SZ = \<lparr>l_sq = cq_initRDMA (fst (cq_init SZ False (fresh_mem zero SZ))), l_sm = fresh_mem zero SZ,
     l_rq = cq_initRDMA (fst (cq_init SZ True (fresh_mem zero SZ))), l_rm = fresh_mem zero SZ, to_rcv = [], to_snd = []\<rparr>"

lemma fresh_ring: "ring_holds SZ 0 [] (cq_ring (fresh_mem zero SZ))" "cq_flag (fresh_mem zero SZ) = False" "length (cq_ring (fresh_mem zero SZ)) = SZ"
  by (simp_all add: fresh_mem_def cq_init_def cq_init_mem_def ring_holds_def)

lemma fresh_conf:
  assumes "pow2_size SZ"
  shows "cq_conf SZ (fst (cq_init SZ b (fresh_mem zero SZ)))" "cq_pointer (fst (cq_init SZ b (fresh_mem zero SZ))) = 0"
    "unat (cq_credits (fst (cq_init SZ False (fresh_mem zero SZ)))) = SZ" "cq_credits (fst (cq_init SZ True (fresh_mem zero SZ))) = 0"
  using pow2_size_bounds [OF assms] by (simp_all add: cq_conf_def cq_init_def per_return_def unat_of_nat_small)

lemma fresh_shared:
  assumes "pow2_size SZ"
  shows "shared_rel SZ 0 [] (fst (cq_init SZ False (fresh_mem zero SZ))) (fst (cq_init SZ True (fresh_mem zero SZ))) (fresh_mem zero SZ)"
  using fresh_conf [OF assms, where zero = zero] fresh_ring [where SZ = SZ and zero = zero]
  by (simp add: shared_rel_def sender_rel_def receiver_rel_def unmarked_def credit_rel_def per_return_def)

lemma fresh_link_rel:
  assumes "pow2_size SZ"
  shows "link_rel SZ 0 [] [] (fresh_link zero SZ)"
  using fresh_conf [OF assms, where zero = zero] fresh_ring [where SZ = SZ and zero = zero]
  by (simp add: link_rel_def fresh_link_def sender_rel_def receiver_rel_def unmarked_def credit_rel_def per_return_def cq_initRDMA_def cq_conf_def)

text \<open>
  C36. Over shared memory the credit queue is a FIFO under every order of attempts: with a size that is a power of two below \<open>2^32\<close>, no access leaves
  the ring and every call returns; what was popped is a prefix of what was accepted, in that order, and the rest is queued, at most
  the size of the ring; the emptiness test is exact; and a push is refused only when at least half of the
  slots are in use, so that no credit is ever lost. The 32-bit pointers may wrap.
\<close>

theorem credit_queue_fifo:
  fixes ops :: "'a option list"
  assumes "pow2_size SZ"
  shows "\<exists>ins outs ws sq rq m. cq_run ops (fst (cq_init SZ False (fresh_mem zero SZ)), fst (cq_init SZ True (fresh_mem zero SZ)), fresh_mem zero SZ)
      = Some (ins, outs, sq, rq, m)
    \<and> ins = outs @ ws \<and> length ws \<le> SZ \<and> cq_isempty rq m = Some (ws = [])
    \<and> (\<exists>ok sq' m' ps. cq_push_nb x sq m = Some (ok, sq', m', ps) \<and> (ok \<or> SZ \<le> 2 * length ws))"
proof -
  obtain ins outs ws sq rq m C where r: "cq_run ops (fst (cq_init SZ False (fresh_mem zero SZ)), fst (cq_init SZ True (fresh_mem zero SZ)), fresh_mem zero SZ)
      = Some (ins, outs, sq, rq, m)" "[] @ ins = outs @ ws" and R: "shared_rel SZ C ws sq rq m"
    using cq_run_rel [OF assms fresh_shared [OF assms], of ops zero] by blast
  have q: "receiver_rel SZ C (unmarked ws) rq m" "length ws \<le> SZ" using R by (auto simp: shared_rel_def credit_rel_def)
  obtain ok sq' m' ps where p: "cq_push_nb x sq m = Some (ok, sq', m', ps)" "ok \<or> SZ \<le> 2 * length ws" using shared_push [OF assms R] by blast
  have "ins = outs @ ws" using r(2) by simp
  with r(1) isempty_op [OF assms q(1)] q(2) p show ?thesis by blast
qed

text \<open>
  C37. Over RDMA the queue is the same FIFO, however late the posted writes arrive, as long as each direction keeps their order: what was popped is a
  prefix of what was accepted; the rest is in the receiver's ring or under way, and together fits the ring. A push is
  refused only when half of the slots are in use or a return of credits is under way.
\<close>

theorem rdma_queue_fifo:
  fixes ts :: "'a cq_turn list"
  assumes "pow2_size SZ"
  shows "\<exists>ins outs vs ys L. link_run ts (fresh_link zero SZ) = Some (ins, outs, L) \<and> ins = outs @ vs @ ys \<and> length (vs @ ys) \<le> SZ
    \<and> length (to_rcv L) = length ys \<and> cq_isempty (l_rq L) (l_rm L) = Some (vs = [])
    \<and> (\<exists>ok q m ps. cq_push_nb x (l_sq L) (l_sm L) = Some (ok, q, m, ps) \<and> (ok \<or> SZ \<le> 2 * length (vs @ ys) \<or> to_snd L \<noteq> []))"
proof -
  obtain ins outs C vs ys L where r: "link_run ts (fresh_link zero SZ) = Some (ins, outs, L)" "[] @ [] @ ins = outs @ vs @ ys"
    and R: "link_rel SZ C vs ys L" using link_run_rel [OF assms fresh_link_rel [OF assms], of ts zero] by blast
  have len: "length (posts_from SZ k zs) = length zs" for k and zs :: "'a list" by (induction zs arbitrary: k) simp_all
  have q: "receiver_rel SZ C (unmarked vs) (l_rq L) (l_rm L)" "length (vs @ ys) \<le> SZ" "length (to_rcv L) = length ys"
    using R by (auto simp: link_rel_def credit_rel_def len)
  obtain ok q m ps where p: "cq_push_nb x (l_sq L) (l_sm L) = Some (ok, q, m, ps)" "ok \<or> SZ \<le> 2 * length (vs @ ys) \<or> to_snd L \<noteq> []"
    using link_send [OF assms R, of x] by auto
  have "ins = outs @ vs @ ys" using r(2) by simp
  with r(1) isempty_op [OF assms q(1)] q(2,3) p show ?thesis by blast
qed

lemma size_256: "pow2_size 256"
  unfolding pow2_size_def by (rule exI [of _ 8]) simp

theorem credit_queue_fifo_witness:
  "\<exists>ins outs ws sq rq m. cq_run [Some CHR ''a'', Some CHR ''b'', None] (fst (cq_init 256 False (fresh_mem CHR ''z'' 256)), fst (cq_init 256 True (fresh_mem CHR ''z'' 256)), fresh_mem CHR ''z'' 256)
      = Some (ins, outs, sq, rq, m) \<and> ins = outs @ ws \<and> cq_isempty rq m = Some (ws = [])"
  using credit_queue_fifo [OF size_256, of "[Some CHR ''a'', Some CHR ''b'', None]" "CHR ''z''"] by blast

theorem rdma_queue_fifo_witness:
  "\<exists>ins outs vs ys L. link_run [T_send True, T_deliver_rcv, T_take, T_send False] (fresh_link False 256) = Some (ins, outs, L) \<and> ins = outs @ vs @ ys
    \<and> length (vs @ ys) \<le> 256"
  using rdma_queue_fifo [OF size_256, of "[T_send True, T_deliver_rcv, T_take, T_send False]" False] by blast

text \<open>
  \<^verbatim>\<open>is_full\<close> compares the credits with a packet size in bytes: it reports a full queue while credits for fifteen more elements are left.
\<close>

lemma is_full_early: "unat (cq_credits q) = 15 \<Longrightarrow> \<not> credit_disabled q \<Longrightarrow> length (cq_ring m) = SZ \<Longrightarrow> pow2_size SZ \<Longrightarrow> sender_rel SZ P q \<Longrightarrow>
  cq_is_full q \<and> (\<exists>q' m' ps. cq_push_nb x q m = Some (True, q', m', ps))"
proof -
  assume a: "unat (cq_credits q) = 15" "\<not> credit_disabled q" "length (cq_ring m) = SZ" "pow2_size SZ" "sender_rel SZ P q"
  have "cq_credits q \<noteq> 0" using a(1) by auto
  then show ?thesis using fill_op [OF a(4,5,3), of x] a(1,2) by (auto simp: cq_is_full_def cq_push_nb_def word_less_nat_alt)
qed

end
