(* ===== verification/Meta_Queue.thy ===== *)
theory Meta_Queue
  imports Credit_Queue Rdma_Conn
begin

text \<open>
  The control queues between a process and the legacy monitor, \<^verbatim>\<open>common/metaqueue.h\<close>: four credit queues in one shared segment, and messages
  longer than an element, which travel as a head and a sequence of pieces of at most 13 bytes.
\<close>

section \<open>Elements\<close>

text \<open>The 13 bytes of the union and the command byte. The commands are those of \<^verbatim>\<open>common/helper.h\<close>.\<close>

record metaqueue_ctl_element =
  ctl_raw :: "u8 list"
  ctl_command :: u8

definition LONG_MSG :: u8 where
  "LONG_MSG = 19"

definition LONG_MSG_HEAD :: u8 where
  "LONG_MSG_HEAD = 20"

definition RDMA_QP_INFO :: u8 where
  "RDMA_QP_INFO = 21"

text \<open>The head overlays two 32-bit integers on the first eight bytes.\<close>

definition set_head :: "u32 \<Rightarrow> u32 \<Rightarrow> metaqueue_ctl_element \<Rightarrow> metaqueue_ctl_element" where
  "set_head len sub e = e\<lparr>ctl_raw := le_bytes 4 len @ le_bytes 4 sub @ drop 8 (ctl_raw e)\<rparr>"

definition head_len :: "metaqueue_ctl_element \<Rightarrow> u32" where
  "head_len e = le_word (take 4 (ctl_raw e))"

definition head_sub :: "metaqueue_ctl_element \<Rightarrow> u32" where
  "head_sub e = le_word (take 4 (drop 4 (ctl_raw e)))"

text \<open>The elements that \<^verbatim>\<open>push_longmsg\<close> pushes one after the other; \<open>ele\<close> is its uninitialised local variable.\<close>

function long_pieces :: "u8 list \<Rightarrow> metaqueue_ctl_element \<Rightarrow> metaqueue_ctl_element list" where
  "long_pieces msg ele =
     (if msg = [] then []
      else let this_len = (if length msg > 13 then 13 else length msg);
               ele' = ele\<lparr>ctl_command := LONG_MSG, ctl_raw := take this_len msg @ drop this_len (ctl_raw ele)\<rparr>
           in ele' # long_pieces (drop this_len msg) ele')"
  by pat_completeness auto
termination by (relation "measure (length \<circ> fst)") (auto split: if_splits)

declare long_pieces.simps [simp del]

definition push_longmsg :: "u8 list \<Rightarrow> u8 \<Rightarrow> metaqueue_ctl_element \<Rightarrow> metaqueue_ctl_element list" where
  "push_longmsg msg subcommand ele =
     (let hd_ele = set_head (of_nat (length msg)) (ucast subcommand) (ele\<lparr>ctl_command := LONG_MSG_HEAD\<rparr>)
      in hd_ele # long_pieces msg hd_ele)"

text \<open>One attempt of the sender, inside its \<^verbatim>\<open>while (!q[0].push_nb(ele))\<close>; \<open>es\<close> is what it has still to push.\<close>

definition push_attempt :: "metaqueue_ctl_element list \<Rightarrow> cq \<Rightarrow> metaqueue_ctl_element cq_mem
    \<Rightarrow> (metaqueue_ctl_element list \<times> cq \<times> metaqueue_ctl_element cq_mem) option" where
  "push_attempt es q m = (case es of [] \<Rightarrow> Some ([], q, m)
     | e # es' \<Rightarrow> map_option (\<lambda>(ok, q', m', _). (if ok then es' else es, q', m')) (cq_push_nb e q m))"

text \<open>
  The receiver: it waits for a head, whose length is a 32-bit integer widened to \<^verbatim>\<open>size_t\<close>, and then runs \<^verbatim>\<open>pop_longmsg\<close> with
  \<open>len_left\<close> bytes to go. \<open>None\<close> is the fatal error on an element of another kind. The allocation of the buffer is taken to succeed.
\<close>

datatype lm_recv = Wait_head | Body nat "u8 list"

definition take_head :: "metaqueue_ctl_element \<Rightarrow> lm_recv option" where
  "take_head e = (if ctl_command e \<noteq> LONG_MSG_HEAD \<or> head_sub e \<noteq> ucast RDMA_QP_INFO then None
                  else Some (Body (unat (scast (head_len e) :: u64)) []))"

definition pop_longmsg :: "metaqueue_ctl_element \<Rightarrow> nat \<Rightarrow> u8 list \<Rightarrow> lm_recv option" where
  "pop_longmsg e len_left bs =
     (if ctl_command e \<noteq> LONG_MSG then None
      else let this_len = (if len_left > 13 then 13 else len_left)
           in Some (Body (len_left - this_len) (bs @ take this_len (ctl_raw e))))"

fun long_done :: "lm_recv \<Rightarrow> bool" where
  "long_done (Body 0 _) = True"
| "long_done _ = False"

definition recv_element :: "lm_recv \<Rightarrow> metaqueue_ctl_element \<Rightarrow> lm_recv option" where
  "recv_element r e = (case r of Wait_head \<Rightarrow> take_head e | Body n bs \<Rightarrow> pop_longmsg e n bs)"

definition pop_attempt :: "lm_recv \<Rightarrow> cq \<Rightarrow> metaqueue_ctl_element cq_mem \<Rightarrow> (lm_recv \<times> cq \<times> metaqueue_ctl_element cq_mem) option" where
  "pop_attempt r q m =
     (if long_done r then Some (r, q, m)
      else Option.bind (cq_pop_nb q m) (\<lambda>(y, q', m', _).
        case y of None \<Rightarrow> Some (r, q', m') | Some e \<Rightarrow> map_option (\<lambda>r'. (r', q', m')) (recv_element r e)))"


section \<open>Memory layout\<close>

text \<open>
  A \<^verbatim>\<open>metaqueue_t\<close>: queue 0 of a pair sends and queue 1 receives, at the address of its ring. The memory of the machine is a map from the address of a ring to
  its contents. With RDMA a queue also has the address of its ring at the peer.
\<close>

type_synonym ctl_mem = "nat \<Rightarrow> metaqueue_ctl_element cq_mem"

record metaqueue_t =
  mq_q :: "nat \<Rightarrow> nat \<times> cq"
  mq_q_emergency :: "nat \<Rightarrow> nat \<times> cq"
  mq_remote :: "nat \<Rightarrow> nat"
  mq_remote_emergency :: "nat \<Rightarrow> nat"

definition get_sharememsize :: nat where
  "get_sharememsize = cq_getmemsize 256 * 2 + cq_getmemsize 256 * 2"

definition queue_at :: "nat \<Rightarrow> nat \<Rightarrow> ctl_mem \<Rightarrow> (nat \<times> cq) \<times> ctl_mem" where
  "queue_at base i M = (let (q, m) = cq_init 256 (i \<noteq> 0) (M base) in ((base, q), M(base := m)))"

definition init_memlayout :: "nat \<Rightarrow> nat \<Rightarrow> metaqueue_t \<Rightarrow> ctl_mem \<Rightarrow> metaqueue_t \<times> ctl_mem" where
  "init_memlayout baseaddr loc Q M =
     (let (a, M1) = queue_at baseaddr loc M;
          b1 = baseaddr + cq_getmemsize 256;
          (b, M2) = queue_at b1 (1 - loc) M1;
          b2 = b1 + cq_getmemsize 256;
          (c, M3) = queue_at b2 loc M2;
          b3 = b2 + cq_getmemsize 256;
          (d, M4) = queue_at b3 (1 - loc) M3
      in (Q\<lparr>mq_q := (mq_q Q)(loc := a, 1 - loc := b), mq_q_emergency := (mq_q_emergency Q)(loc := c, 1 - loc := d)\<rparr>, M4))"

definition zero_ring :: "metaqueue_ctl_element \<Rightarrow> nat \<Rightarrow> ctl_mem \<Rightarrow> ctl_mem" where
  "zero_ring zero a M = M(a := cq_init_mem zero 256 (M a))"

definition mem_init :: "metaqueue_ctl_element \<Rightarrow> metaqueue_t \<Rightarrow> ctl_mem \<Rightarrow> ctl_mem" where
  "mem_init zero Q M =
     zero_ring zero (fst (mq_q_emergency Q 1)) (zero_ring zero (fst (mq_q_emergency Q 0)) (zero_ring zero (fst (mq_q Q 1)) (zero_ring zero (fst (mq_q Q 0)) M)))"

definition mq_initRDMA :: "nat \<Rightarrow> nat \<Rightarrow> metaqueue_t \<Rightarrow> metaqueue_t" where
  "mq_initRDMA remote_addr loc Q =
     (let r1 = remote_addr + cq_getmemsize 256; r2 = r1 + cq_getmemsize 256; r3 = r2 + cq_getmemsize 256;
          rdma = (\<lambda>f. f(loc := apsnd cq_initRDMA (f loc), 1 - loc := apsnd cq_initRDMA (f (1 - loc))))
      in Q\<lparr>mq_q := rdma (mq_q Q), mq_remote := (mq_remote Q)(loc := remote_addr, 1 - loc := r1),
           mq_q_emergency := rdma (mq_q_emergency Q), mq_remote_emergency := (mq_remote_emergency Q)(loc := r2, 1 - loc := r3)\<rparr>)"

text \<open>
  The set-up of a control queue: the monitor lays out the segment as end 0 and clears it, and then the process lays it out as end 1; \<open>A\<close> and \<open>B\<close> are the objects
  of the two before. The segment may have held anything.
\<close>

definition setup_pair :: "metaqueue_ctl_element \<Rightarrow> nat \<Rightarrow> metaqueue_t \<Rightarrow> metaqueue_t \<Rightarrow> ctl_mem \<Rightarrow> metaqueue_t \<times> metaqueue_t \<times> ctl_mem" where
  "setup_pair zero base A B M =
     (let (Q0, M1) = init_memlayout base 0 A M;
          M2 = mem_init zero Q0 M1;
          (Q1, M3) = init_memlayout base 1 B M2
      in (Q0, Q1, M3))"

text \<open>
  Both ends agree on each queue: what one sends on the other receives on, and the ring is as \<open>fresh_mem\<close> has it; the four rings do not overlap and fit the segment.
\<close>

definition ends_agree :: "metaqueue_ctl_element \<Rightarrow> (nat \<times> cq) \<Rightarrow> (nat \<times> cq) \<Rightarrow> ctl_mem \<Rightarrow> bool" where
  "ends_agree zero s r M \<longleftrightarrow> fst s = fst r \<and> snd s = fst (cq_init 256 False (fresh_mem zero 256)) \<and> snd r = fst (cq_init 256 True (fresh_mem zero 256))
     \<and> M (fst s) = fresh_mem zero 256"

definition setup_ok :: "metaqueue_ctl_element \<Rightarrow> nat \<Rightarrow> metaqueue_t \<times> metaqueue_t \<times> ctl_mem \<Rightarrow> bool" where
  "setup_ok zero base S = (case S of (Q0, Q1, M) \<Rightarrow>
     fst (mq_q Q0 0) = base \<and> ends_agree zero (mq_q Q0 0) (mq_q Q1 1) M \<and> ends_agree zero (mq_q Q1 0) (mq_q Q0 1) M
     \<and> ends_agree zero (mq_q_emergency Q0 0) (mq_q_emergency Q1 1) M \<and> ends_agree zero (mq_q_emergency Q1 0) (mq_q_emergency Q0 1) M
     \<and> sorted_wrt (\<lambda>a b. a + cq_getmemsize 256 \<le> b)
         [fst (mq_q Q0 0), fst (mq_q Q0 1), fst (mq_q_emergency Q0 0), fst (mq_q_emergency Q0 1), base + get_sharememsize])"

definition ring_addr :: "nat \<Rightarrow> nat \<Rightarrow> nat" where
  "ring_addr base k = base + k * cq_getmemsize 256"

lemma ring_addr_eq [simp]: "ring_addr base k = ring_addr base l \<longleftrightarrow> k = l"
  by (simp add: ring_addr_def cq_getmemsize_def)

lemma ring_addr_0 [simp]: "ring_addr base 0 = base" "ring_addr base k = base \<longleftrightarrow> k = 0" "base = ring_addr base k \<longleftrightarrow> k = 0"
  by (simp_all add: ring_addr_def cq_getmemsize_def)

lemma ring_addr_Suc: "ring_addr base k + cq_getmemsize 256 = ring_addr base (Suc k)"
  by (simp add: ring_addr_def)

definition at_ring :: "(metaqueue_ctl_element cq_mem \<Rightarrow> metaqueue_ctl_element cq_mem) \<Rightarrow> nat \<Rightarrow> ctl_mem \<Rightarrow> ctl_mem" where
  "at_ring f a M = M(a := f (M a))"

lemma at_rings:
  assumes "distinct [b, c, d, e]"
  shows "at_ring f e (at_ring f d (at_ring f c (at_ring f b M))) a = (if a \<in> {b, c, d, e} then f (M a) else M a)"
proof -
  have "at_ring f x N y = (if y = x then f (N y) else N y)" for x y N by (simp add: at_ring_def)
  then show ?thesis using assms by simp
qed

lemma queue_at_eq: "queue_at a i M = ((a, fst (cq_init 256 (i \<noteq> 0) (fresh_mem zero 256))), at_ring (\<lambda>m. m\<lparr>cq_flag := False\<rparr>) a M)"
  by (simp add: queue_at_def cq_init_def at_ring_def)

lemma ring_addrs_4: "(\<exists>k<4. a = ring_addr base k) \<longleftrightarrow> a \<in> {base, ring_addr base 1, ring_addr base 2, ring_addr base 3}"
proof -
  have "k < 4 \<longleftrightarrow> k = 0 \<or> k = 1 \<or> k = 2 \<or> k = (3 :: nat)" for k by arith
  then show ?thesis by (simp add: conj_disj_distribR ex_disj_distrib)
qed

lemma init_memlayout_eq:
  "init_memlayout base loc Q M =
     (let q = (\<lambda>i. fst (cq_init 256 (i \<noteq> 0) (fresh_mem zero 256)))
      in (Q\<lparr>mq_q := (mq_q Q)(loc := (ring_addr base 0, q loc), 1 - loc := (ring_addr base 1, q (1 - loc))),
            mq_q_emergency := (mq_q_emergency Q)(loc := (ring_addr base 2, q loc), 1 - loc := (ring_addr base 3, q (1 - loc)))\<rparr>,
          \<lambda>a. if \<exists>k<4. a = ring_addr base k then M a\<lparr>cq_flag := False\<rparr> else M a))"
proof -
  have b: "base + cq_getmemsize 256 = ring_addr base 1" by (simp add: ring_addr_def)
  have n: "ring_addr base 1 + cq_getmemsize 256 = ring_addr base 2" "ring_addr base 2 + cq_getmemsize 256 = ring_addr base 3"
    by (simp_all add: ring_addr_def)
  have m: "at_ring f (ring_addr base 3) (at_ring f (ring_addr base 2) (at_ring f (ring_addr base 1) (at_ring f base M)))
      = (\<lambda>a. if \<exists>k<4. a = ring_addr base k then f (M a) else M a)" for f
    unfolding ring_addrs_4 by (rule ext, rule at_rings) simp
  show ?thesis
    unfolding init_memlayout_def Let_def b n queue_at_eq [where zero = zero] prod.case ring_addr_0(1) m ..
qed

lemma mem_init_eq:
  assumes "fst (mq_q Q 0) = base" "fst (mq_q Q 1) = ring_addr base 1" "fst (mq_q_emergency Q 0) = ring_addr base 2" "fst (mq_q_emergency Q 1) = ring_addr base 3"
  shows "mem_init zero Q M = (\<lambda>a. if \<exists>k<4. a = ring_addr base k then cq_init_mem zero 256 (M a) else M a)"
proof -
  have "zero_ring zero a M = at_ring (cq_init_mem zero 256) a M" for a M by (simp add: zero_ring_def at_ring_def)
  then show ?thesis unfolding mem_init_def assms ring_addrs_4 by (intro ext) (simp only:, rule at_rings, simp)
qed

lemma cleared_ring:
  assumes "length (cq_ring m) = SZ"
  shows "(cq_init_mem zero SZ (m\<lparr>cq_flag := False\<rparr>))\<lparr>cq_flag := False\<rparr> = fresh_mem zero SZ"
  using assms by (simp add: cq_init_def cq_init_mem_def fresh_mem_def)

lemma setup_pair_ok:
  assumes "\<forall>a. length (cq_ring (M a)) = 256"
  shows "setup_ok zero base (setup_pair zero base A B M)"
proof -
  define q where "q i = fst (cq_init 256 (i \<noteq> 0) (fresh_mem zero 256))" for i :: nat
  define Q0 where "Q0 = fst (init_memlayout base 0 A M)"
  have Q0: "mq_q Q0 0 = (ring_addr base 0, q 0)" "mq_q Q0 1 = (ring_addr base 1, q 1)"
    "mq_q_emergency Q0 0 = (ring_addr base 2, q 0)" "mq_q_emergency Q0 1 = (ring_addr base 3, q 1)"
    unfolding Q0_def init_memlayout_eq [where zero = zero] Let_def by (simp_all add: q_def)
  have Q1: "mq_q (fst (init_memlayout base 1 B N)) 1 = (ring_addr base 0, q 1)" "mq_q (fst (init_memlayout base 1 B N)) 0 = (ring_addr base 1, q 0)"
    "mq_q_emergency (fst (init_memlayout base 1 B N)) 1 = (ring_addr base 2, q 1)" "mq_q_emergency (fst (init_memlayout base 1 B N)) 0 = (ring_addr base 3, q 0)"
    for N unfolding init_memlayout_eq [where zero = zero] Let_def by (simp_all add: q_def)
  define N where "N = mem_init zero Q0 (snd (init_memlayout base 0 A M))"
  have N: "N = (\<lambda>a. if \<exists>k<4. a = ring_addr base k then cq_init_mem zero 256 (snd (init_memlayout base 0 A M) a) else snd (init_memlayout base 0 A M) a)"
    unfolding N_def by (rule mem_init_eq) (simp_all add: Q0 [unfolded One_nat_def])
  have fresh: "snd (init_memlayout base 1 B N) (ring_addr base k) = fresh_mem zero 256" if "k < 4" for k
    using that assms unfolding N init_memlayout_eq [where zero = zero] Let_def by (auto simp: cleared_ring)
  obtain Q1 M' where e: "init_memlayout base 1 B N = (Q1, M')" by (cases "init_memlayout base 1 B N")
  have q1: "mq_q Q1 1 = (base, q 1)" "mq_q Q1 0 = (ring_addr base 1, q 0)" "mq_q_emergency Q1 1 = (ring_addr base 2, q 1)" "mq_q_emergency Q1 0 = (ring_addr base 3, q 0)"
    using Q1 [of N] e by simp_all
  have "M' base = fresh_mem zero 256" "M' (ring_addr base 1) = fresh_mem zero 256" "M' (ring_addr base 2) = fresh_mem zero 256" "M' (ring_addr base 3) = fresh_mem zero 256"
    using fresh [of 0] fresh [of 1] fresh [of 2] fresh [of 3] e by simp_all
  moreover have "setup_pair zero base A B M = (Q0, Q1, M')"
    unfolding setup_pair_def Let_def case_prod_beta N_def [symmetric] Q0_def [symmetric] e by simp
  ultimately show ?thesis
    using Q0 q1 by (simp add: setup_ok_def ends_agree_def q_def) (simp add: ring_addr_def get_sharememsize_def cq_getmemsize_def)
qed


text \<open>Over RDMA, the address that an end writes to for a queue is where the other end, at its own base address, has the opposite queue.\<close>

lemma remote_addresses:
  assumes "loc < 2" "i < 2"
  shows "mq_remote (mq_initRDMA base loc Q) i = fst (mq_q (fst (init_memlayout base (1 - loc) B M)) (1 - i))"
    "mq_remote_emergency (mq_initRDMA base loc Q) i = fst (mq_q_emergency (fst (init_memlayout base (1 - loc) B M)) (1 - i))"
proof -
  have "loc = 0 \<or> loc = 1" "i = 0 \<or> i = 1" using assms by auto
  then show "mq_remote (mq_initRDMA base loc Q) i = fst (mq_q (fst (init_memlayout base (1 - loc) B M)) (1 - i))"
    "mq_remote_emergency (mq_initRDMA base loc Q) i = fst (mq_q_emergency (fst (init_memlayout base (1 - loc) B M)) (1 - i))"
    unfolding init_memlayout_eq [where zero = "\<lparr>ctl_raw = [], ctl_command = 0\<rparr>"] mq_initRDMA_def Let_def by (auto simp: ring_addr_def)
qed


section \<open>Long messages\<close>

lemma long_pieces_step:
  assumes "msg \<noteq> []"
  shows "\<exists>e. long_pieces msg ele = e # long_pieces (drop 13 msg) e \<and> ctl_command e = LONG_MSG
    \<and> take (length msg) (take 13 (ctl_raw e)) = take 13 msg \<and> (length (ctl_raw ele) = 13 \<longrightarrow> length (ctl_raw e) = 13)"
proof -
  define k where "k = (if length msg > 13 then 13 else length msg)"
  define e where "e = ele\<lparr>ctl_command := LONG_MSG, ctl_raw := take k msg @ drop k (ctl_raw ele)\<rparr>"
  have "drop k msg = drop 13 msg" "take k msg = take 13 msg" by (auto simp: k_def)
  then have "long_pieces msg ele = e # long_pieces (drop 13 msg) e"
    using assms by (subst long_pieces.simps) (simp add: k_def [symmetric] e_def Let_def)
  moreover have "take (length msg) (take 13 (ctl_raw e)) = take 13 msg" by (auto simp: e_def k_def)
  moreover have "length (ctl_raw ele) = 13 \<longrightarrow> length (ctl_raw e) = 13" by (auto simp: e_def k_def)
  ultimately show ?thesis by (intro exI [of _ e]) (simp add: e_def)
qed

lemma long_pieces_Nil [simp]: "long_pieces [] ele = []"
  by (subst long_pieces.simps) simp

fun recv_all :: "metaqueue_ctl_element list \<Rightarrow> lm_recv \<Rightarrow> lm_recv option" where
  "recv_all [] r = Some r"
| "recv_all (e # es) r = Option.bind (recv_element r e) (recv_all es)"

lemma recv_all_snoc: "recv_all (es @ [e]) r = Option.bind (recv_all es r) (\<lambda>r'. recv_element r' e)"
  by (induction es arbitrary: r) (auto simp: Option.bind_assoc split: Option.bind_splits)

text \<open>After \<open>k\<close> pieces the receiver has the first \<open>13 * k\<close> bytes.\<close>

lemma recv_pieces:
  "taken @ rest = long_pieces msg ele \<Longrightarrow> length (ctl_raw ele) = 13 \<Longrightarrow>
   recv_all taken (Body (length msg) bs) = Some (Body (length msg - 13 * length taken) (bs @ take (13 * length taken) msg))
   \<and> (rest = [] \<longleftrightarrow> length msg \<le> 13 * length taken)"
proof (induction taken arbitrary: msg ele bs)
  case Nil
  show ?case
  proof (cases "msg = []")
    case False
    then show ?thesis using long_pieces_step [OF False, of ele] Nil by auto
  qed (use Nil in simp)
next
  case (Cons t taken)
  have "msg \<noteq> []" using Cons.prems(1) by auto
  then obtain e where e: "long_pieces msg ele = e # long_pieces (drop 13 msg) e" "ctl_command e = LONG_MSG"
    "take (length msg) (take 13 (ctl_raw e)) = take 13 msg" "length (ctl_raw e) = 13"
    using long_pieces_step [of msg ele] Cons.prems(2) by blast
  then have t: "t = e" "taken @ rest = long_pieces (drop 13 msg) e" using Cons.prems(1) by simp_all
  let ?k = "if length msg > 13 then 13 else length msg"
  have "take ?k (ctl_raw e) = take 13 msg" using e(3) by (simp add: min_def split: if_splits)
  then have "recv_element (Body (length msg) bs) t = Some (Body (length (drop 13 msg)) (bs @ take 13 msg))"
    using e(2) t(1) by (auto simp: recv_element_def pop_longmsg_def Let_def)
  moreover have "take 13 msg @ take (13 * length taken) (drop 13 msg) = take (13 * length (t # taken)) msg"
    by (simp add: take_add [symmetric])
  ultimately show ?case using Cons.IH [OF t(2) e(4), of "bs @ take 13 msg"] by (auto simp: Option.bind_assoc)
qed

lemma widen_len: "n < 2 ^ 31 \<Longrightarrow> unat (scast (of_nat n :: u32) :: u64) = n"
proof -
  assume n: "n < 2 ^ 31"
  have "sint (of_nat n :: u32) = signed_take_bit 31 (int n)" by (simp add: signed_of_nat)
  also have "\<dots> = int n" using n by (simp add: signed_take_bit_int_eq_self)
  finally have "(scast (of_nat n :: u32) :: u64) = of_nat n" by (simp add: signed_eq_0_iff scast_eq)
  then show ?thesis using n by (simp add: unat_of_nat_small)
qed

lemma recv_prefix:
  assumes "taken @ rest = push_longmsg msg RDMA_QP_INFO ele" "length (ctl_raw ele) = 13" "length msg < 2 ^ 31"
  shows "\<exists>r. recv_all taken Wait_head = Some r \<and> (long_done r \<longleftrightarrow> rest = [])
    \<and> (case r of Wait_head \<Rightarrow> taken = [] | Body n bs \<Rightarrow> n + length bs = length msg \<and> bs = take (length bs) msg)"
proof (cases taken)
  case Nil
  then show ?thesis using assms(1) by (intro exI [of _ Wait_head]) (auto simp: push_longmsg_def Let_def)
next
  case (Cons t ts)
  define h where "h = set_head (of_nat (length msg)) (ucast RDMA_QP_INFO) (ele\<lparr>ctl_command := LONG_MSG_HEAD\<rparr>)"
  have t: "t = h" "ts @ rest = long_pieces msg h" using assms(1) Cons by (simp_all add: push_longmsg_def Let_def h_def)
  have h: "length (ctl_raw h) = 13" "head_len h = of_nat (length msg)" "head_sub h = ucast RDMA_QP_INFO" "ctl_command h = LONG_MSG_HEAD"
    using assms(2) by (simp_all add: h_def set_head_def head_len_def head_sub_def le_words)
  have "recv_element Wait_head t = Some (Body (length msg) [])"
    by (simp add: recv_element_def take_head_def t(1) h widen_len [OF assms(3)])
  then have "recv_all taken Wait_head = Some (Body (length msg - 13 * length ts) (take (13 * length ts) msg))"
    "rest = [] \<longleftrightarrow> length msg \<le> 13 * length ts"
    using recv_pieces [OF t(2) h(1), of "[]"] Cons by simp_all
  then show ?thesis by (cases "length msg - 13 * length ts") auto
qed


section \<open>Runs\<close>

text \<open>A schedule of attempts: \<open>True\<close> is one of the sender, \<open>False\<close> one of the receiver.\<close>

type_synonym lm_state = "metaqueue_ctl_element list \<times> lm_recv \<times> cq \<times> cq \<times> metaqueue_ctl_element cq_mem"

definition lm_step :: "bool \<Rightarrow> lm_state \<Rightarrow> lm_state option" where
  "lm_step t s = (case s of (es, r, sq, rq, m) \<Rightarrow>
     if t then map_option (\<lambda>(es', sq', m'). (es', r, sq', rq, m')) (push_attempt es sq m)
     else map_option (\<lambda>(r', rq', m'). (es, r', sq, rq', m')) (pop_attempt r rq m))"

fun lm_run :: "bool list \<Rightarrow> lm_state \<Rightarrow> lm_state option" where
  "lm_run [] s = Some s"
| "lm_run (t # ts) s = Option.bind (lm_step t s) (lm_run ts)"

lemma lm_run_append: "lm_run (ts @ us) s = Option.bind (lm_run ts s) (lm_run us)"
  by (induction ts arbitrary: s) (auto split: Option.bind_splits)

text \<open>The elements of the message are taken, queued or still to be pushed. The measure counts the attempts that have still to succeed.\<close>

definition lm_rel :: "u8 list \<Rightarrow> metaqueue_ctl_element \<Rightarrow> metaqueue_ctl_element list \<Rightarrow> lm_state \<Rightarrow> bool" where
  "lm_rel msg ele vs s = (case s of (es, r, sq, rq, m) \<Rightarrow> \<exists>C taken. shared_rel 256 C vs sq rq m
     \<and> taken @ vs @ es = push_longmsg msg RDMA_QP_INFO ele \<and> recv_all taken Wait_head = Some r)"

definition lm_left :: "metaqueue_ctl_element list \<Rightarrow> lm_state \<Rightarrow> nat" where
  "lm_left vs s = 2 * length (fst s) + length vs"

lemma lm_send:
  assumes R: "lm_rel msg ele vs s"
  shows "\<exists>vs' s'. lm_step True s = Some s' \<and> lm_rel msg ele vs' s'
    \<and> (lm_left vs' s' < lm_left vs s \<or> vs' = vs \<and> fst s' = fst s \<and> (fst s = [] \<or> vs \<noteq> []))"
proof -
  obtain es r sq rq m where s: "s = (es, r, sq, rq, m)" by (cases s) auto
  obtain C taken where r: "shared_rel 256 C vs sq rq m" "taken @ vs @ es = push_longmsg msg RDMA_QP_INFO ele" "recv_all taken Wait_head = Some r"
    using R s by (auto simp: lm_rel_def)
  show ?thesis
  proof (cases es)
    case Nil
    then have "lm_step True s = Some s" by (simp add: lm_step_def s push_attempt_def)
    then show ?thesis using R Nil s by auto
  next
    case (Cons e es')
    obtain ok sq' m' ps where p: "cq_push_nb e sq m = Some (ok, sq', m', ps)" and q: "shared_rel 256 C (if ok then vs @ [e] else vs) sq' rq m'"
      "ok \<or> 256 \<le> 2 * length vs" using shared_push [OF size_256 r(1)] by blast
    let ?s = "(if ok then es' else es, r, sq', rq, m')" and ?vs = "if ok then vs @ [e] else vs"
    have "lm_step True s = Some ?s" using p Cons by (simp add: lm_step_def s push_attempt_def)
    moreover have "lm_rel msg ele ?vs ?s" using q(1) r(2,3) Cons by (auto simp: lm_rel_def)
    moreover have "lm_left ?vs ?s < lm_left vs s \<or> ?vs = vs \<and> fst ?s = fst s \<and> (fst s = [] \<or> vs \<noteq> [])"
      using q(2) Cons s by (auto simp: lm_left_def)
    ultimately show ?thesis by blast
  qed
qed

lemma lm_take:
  assumes R: "lm_rel msg ele vs s" and l: "length (ctl_raw ele) = 13" "length msg < 2 ^ 31"
  shows "\<exists>vs' s'. lm_step False s = Some s' \<and> lm_rel msg ele vs' s'
    \<and> (lm_left vs' s' < lm_left vs s \<or> vs' = vs \<and> fst s' = fst s \<and> vs = [])"
proof -
  obtain es r sq rq m where s: "s = (es, r, sq, rq, m)" by (cases s) auto
  obtain C taken where r: "shared_rel 256 C vs sq rq m" "taken @ vs @ es = push_longmsg msg RDMA_QP_INFO ele" "recv_all taken Wait_head = Some r"
    using R s by (auto simp: lm_rel_def)
  have d: "long_done r \<longleftrightarrow> vs @ es = []" using recv_prefix [OF r(2) l] r(3) by auto
  show ?thesis
  proof (cases "long_done r")
    case True
    then have "lm_step False s = Some s" by (simp add: lm_step_def s pop_attempt_def)
    then show ?thesis using R d True by auto
  next
    case False
    obtain C' rq' m' ps where p: "cq_pop_nb rq m = Some (case vs of [] \<Rightarrow> None | v # _ \<Rightarrow> Some v, rq', m', ps)"
      "shared_rel 256 C' (tl vs) sq rq' m'" using shared_pop [OF size_256 r(1)] by blast
    show ?thesis
    proof (cases vs)
      case Nil
      then have "lm_step False s = Some (es, r, sq, rq', m')" using p(1) False by (simp add: lm_step_def s pop_attempt_def)
      moreover have "lm_rel msg ele [] (es, r, sq, rq', m')" using p(2) r(2,3) Nil by (auto simp: lm_rel_def)
      ultimately show ?thesis using Nil s by auto
    next
      case (Cons v vs')
      obtain r' where r': "recv_all (taken @ [v]) Wait_head = Some r'"
        using recv_prefix [of "taken @ [v]" "vs' @ es", OF _ l] r(2) Cons by auto
      then have e: "recv_element r v = Some r'" using r(3) by (simp add: recv_all_snoc)
      have "lm_step False s = Some (es, r', sq, rq', m')" using p(1) False e Cons by (simp add: lm_step_def s pop_attempt_def)
      moreover have "lm_rel msg ele vs' (es, r', sq, rq', m')"
        unfolding lm_rel_def prod.case using p(2) r(2) r' Cons by (intro exI [of _ C'] exI [of _ "taken @ [v]"]) simp
      moreover have "lm_left vs' (es, r', sq, rq', m') < lm_left vs s" using Cons s by (simp add: lm_left_def)
      ultimately show ?thesis by blast
    qed
  qed
qed

lemma lm_run_rel:
  assumes l: "length (ctl_raw ele) = 13" "length msg < 2 ^ 31"
  shows "lm_rel msg ele vs s \<Longrightarrow> \<exists>vs' s'. lm_run ts s = Some s' \<and> lm_rel msg ele vs' s'
    \<and> (lm_left vs' s' < lm_left vs s \<or> vs' = vs \<and> fst s' = fst s
        \<and> (True \<in> set ts \<longrightarrow> fst s = [] \<or> vs \<noteq> []) \<and> (False \<in> set ts \<longrightarrow> vs = []))"
proof (induction ts arbitrary: vs s)
  case Nil
  then show ?case by auto
next
  case (Cons t ts)
  obtain vs1 s1 where a: "lm_step t s = Some s1" "lm_rel msg ele vs1 s1"
    "lm_left vs1 s1 < lm_left vs s \<or> vs1 = vs \<and> fst s1 = fst s \<and> (t \<longrightarrow> fst s = [] \<or> vs \<noteq> []) \<and> (\<not> t \<longrightarrow> vs = [])"
  proof (cases t)
    case True
    then show ?thesis using lm_send [OF Cons.prems] that by auto
  next
    case False
    then show ?thesis using lm_take [OF Cons.prems l] that by auto
  qed
  obtain vs2 s2 where b: "lm_run ts s1 = Some s2" "lm_rel msg ele vs2 s2"
    "lm_left vs2 s2 < lm_left vs1 s1 \<or> vs2 = vs1 \<and> fst s2 = fst s1
      \<and> (True \<in> set ts \<longrightarrow> fst s1 = [] \<or> vs1 \<noteq> []) \<and> (False \<in> set ts \<longrightarrow> vs1 = [])" using Cons.IH [OF a(2)] by blast
  have "lm_left vs2 s2 < lm_left vs s \<or> vs2 = vs \<and> fst s2 = fst s
      \<and> (True \<in> set (t # ts) \<longrightarrow> fst s = [] \<or> vs \<noteq> []) \<and> (False \<in> set (t # ts) \<longrightarrow> vs = [])"
    using a(3) b(3) by (cases t) (auto simp: lm_left_def)
  with a(1) b(1,2) show ?case by auto
qed

text \<open>Each round in which both sides make an attempt brings the transfer forward, until it is complete.\<close>

lemma lm_rounds:
  assumes l: "length (ctl_raw ele) = 13" "length msg < 2 ^ 31"
  shows "lm_rel msg ele vs s \<Longrightarrow> list_all (\<lambda>ts. True \<in> set ts \<and> False \<in> set ts) rounds \<Longrightarrow>
    \<exists>vs' s'. lm_run (concat rounds) s = Some s' \<and> lm_rel msg ele vs' s' \<and> lm_left vs' s' \<le> lm_left vs s - length rounds"
proof (induction rounds arbitrary: vs s)
  case Nil
  then show ?case by auto
next
  case (Cons ts rounds)
  obtain vs1 s1 where a: "lm_run ts s = Some s1" "lm_rel msg ele vs1 s1"
    "lm_left vs1 s1 < lm_left vs s \<or> vs1 = vs \<and> fst s1 = fst s \<and> fst s = [] \<and> vs = []"
    using lm_run_rel [OF l Cons.prems(1), of ts] Cons.prems(2) by auto
  obtain vs2 s2 where b: "lm_run (concat rounds) s1 = Some s2" "lm_rel msg ele vs2 s2" "lm_left vs2 s2 \<le> lm_left vs1 s1 - length rounds"
    using Cons.IH [OF a(2)] Cons.prems(2) by auto
  have "lm_left vs1 s1 \<le> lm_left vs s - 1" using a(3) by (auto simp: lm_left_def)
  then have "lm_left vs2 s2 \<le> lm_left vs s - length (ts # rounds)" using b(3) by simp
  with a(1) b(1,2) show ?case by (auto simp: lm_run_append)
qed

lemma length_pieces: "length (long_pieces msg ele) = (length msg + 12) div 13"
proof (induction "length msg" arbitrary: msg ele rule: less_induct)
  case less
  show ?case
  proof (cases "msg = []")
    case False
    then obtain e where e: "long_pieces msg ele = e # long_pieces (drop 13 msg) e" using long_pieces_step by blast
    have "length (long_pieces (drop 13 msg) e) = (length (drop 13 msg) + 12) div 13" using less [of "drop 13 msg" e] False by simp
    then show ?thesis using e False by (cases "length msg \<le> 13") (auto simp: le_div_geq Suc_le_eq div_eq_dividend_iff intro: div_nat_eqI [symmetric])
  qed simp
qed

text \<open>A message from the process to the monitor (\<open>up\<close>) or back, over a control queue that the two have set up.\<close>

definition lm_start :: "u8 list \<Rightarrow> metaqueue_ctl_element \<Rightarrow> bool \<Rightarrow> metaqueue_t \<times> metaqueue_t \<times> ctl_mem \<Rightarrow> lm_state" where
  "lm_start msg ele up S = (case S of (Q0, Q1, M) \<Rightarrow>
     let (s, r) = (if up then (mq_q Q1 0, mq_q Q0 1) else (mq_q Q0 0, mq_q Q1 1))
     in (push_longmsg msg RDMA_QP_INFO ele, Wait_head, snd s, snd r, M (fst s)))"

lemma lm_start_rel:
  assumes "\<forall>a. length (cq_ring (M a)) = 256"
  shows "lm_rel msg ele [] (lm_start msg ele up (setup_pair zero base A B M))"
    "lm_left [] (lm_start msg ele up (setup_pair zero base A B M)) = 2 * Suc ((length msg + 12) div 13)"
proof -
  obtain Q0 Q1 N where S: "setup_pair zero base A B M = (Q0, Q1, N)" by (metis prod_cases3)
  have ok: "ends_agree zero (mq_q Q0 0) (mq_q Q1 1) N" "ends_agree zero (mq_q Q1 0) (mq_q Q0 1) N"
    using setup_pair_ok [OF assms, of zero base A B] unfolding S setup_ok_def prod.case by blast+
  have e: "lm_start msg ele up (setup_pair zero base A B M) = (push_longmsg msg RDMA_QP_INFO ele, Wait_head, fst (cq_init 256 False (fresh_mem zero 256)),
     fst (cq_init 256 True (fresh_mem zero 256)), fresh_mem zero 256)"
    using ok unfolding S lm_start_def ends_agree_def by (cases up) force+
  show "lm_rel msg ele [] (lm_start msg ele up (setup_pair zero base A B M))"
    unfolding e lm_rel_def prod.case
    by (intro exI [of _ 0] exI [of _ "[]"] conjI fresh_shared [OF size_256]) simp_all
  show "lm_left [] (lm_start msg ele up (setup_pair zero base A B M)) = 2 * Suc ((length msg + 12) div 13)"
    unfolding e by (simp add: lm_left_def push_longmsg_def Let_def length_pieces)
qed

lemma lm_rel_sound:
  assumes R: "lm_rel msg ele vs (es, r, sq, rq, m)" and l: "length (ctl_raw ele) = 13" "length msg < 2 ^ 31"
  shows "case r of Wait_head \<Rightarrow> True | Body n bs \<Rightarrow> n + length bs = length msg \<and> bs = take (length bs) msg"
    and "vs @ es = [] \<Longrightarrow> r = Body 0 msg"
proof -
  obtain taken where t: "taken @ vs @ es = push_longmsg msg RDMA_QP_INFO ele" "recv_all taken Wait_head = Some r"
    using R by (auto simp: lm_rel_def)
  have p: "long_done r \<longleftrightarrow> vs @ es = []" "case r of Wait_head \<Rightarrow> taken = [] | Body n bs \<Rightarrow> n + length bs = length msg \<and> bs = take (length bs) msg"
    using recv_prefix [OF t(1) l] t(2) by auto
  then show "case r of Wait_head \<Rightarrow> True | Body n bs \<Rightarrow> n + length bs = length msg \<and> bs = take (length bs) msg" by (cases r) auto
  show "r = Body 0 msg" if "vs @ es = []" using p that by (cases r rule: long_done.cases) auto
qed

text \<open>
  C38. The monitor and a process that set up a control segment agree on it, and a message of fewer than \<open>2^31\<close> bytes sent by \<^verbatim>\<open>push_longmsg\<close> and taken by \<^verbatim>\<open>pop_longmsg\<close>
  arrives whole, in either direction. After the set-up every queue that one end sends on is at the address where the other receives, empty and with
  all credits, whatever the segment held before, and the four rings are disjoint and fit the segment. Under every
  order of the attempts of the two sides the receiver's fatal errors do not occur, and what it has got is a prefix of the message, with
  the number of bytes that it still waits for. After \<open>2 * (n + 1)\<close> rounds in which each side makes an attempt, where \<open>n\<close> is the number of pieces,
  both have returned and the receiver has the message.
\<close>

theorem long_message_delivered:
  assumes "length (ctl_raw ele) = 13" "length msg < 2 ^ 31" "\<forall>a. length (cq_ring (M a)) = 256"
  shows "setup_ok zero base (setup_pair zero base A B M)
    \<and> (\<exists>es r sq rq m. lm_run ts (lm_start msg ele up (setup_pair zero base A B M)) = Some (es, r, sq, rq, m)
      \<and> (case r of Wait_head \<Rightarrow> True | Body n bs \<Rightarrow> n + length bs = length msg \<and> bs = take (length bs) msg))
    \<and> (list_all (\<lambda>ts. True \<in> set ts \<and> False \<in> set ts) rounds \<and> 2 * Suc ((length msg + 12) div 13) \<le> length rounds \<longrightarrow>
      (\<exists>sq rq m. lm_run (concat rounds) (lm_start msg ele up (setup_pair zero base A B M)) = Some ([], Body 0 msg, sq, rq, m)))"
    (is "_ \<and> _ \<and> (_ \<longrightarrow> (\<exists>sq rq m. lm_run _ ?S = _))")
proof (intro conjI impI, goal_cases)
  case 1
  show ?case by (rule setup_pair_ok [OF assms(3)])
next
  case 2
  obtain vs s where "lm_run ts ?S = Some s" "lm_rel msg ele vs s"
    using lm_run_rel [OF assms(1,2) lm_start_rel(1) [OF assms(3)]] by blast
  then show ?case using lm_rel_sound(1) [OF _ assms(1,2)] by (cases s) blast
next
  case 3
  then have rounds: "list_all (\<lambda>ts. True \<in> set ts \<and> False \<in> set ts) rounds" and n: "2 * Suc ((length msg + 12) div 13) \<le> length rounds" by simp_all
  obtain vs es r sq rq m where f: "lm_run (concat rounds) ?S = Some (es, r, sq, rq, m)" "lm_rel msg ele vs (es, r, sq, rq, m)"
    "lm_left vs (es, r, sq, rq, m) \<le> lm_left [] ?S - length rounds"
    using lm_rounds [OF assms(1,2) lm_start_rel(1) [OF assms(3)] rounds] by (metis prod_cases5)
  then have "vs = []" "es = []" using n unfolding lm_start_rel(2) [OF assms(3)] by (simp_all add: lm_left_def)
  with f lm_rel_sound(2) [OF f(2) assms(1,2)] show ?case by simp
qed

text \<open>A segment with garbage in its rings, and objects that were never initialised.\<close>

definition garbage_mem :: ctl_mem where
  "garbage_mem = (\<lambda>a. \<lparr>cq_ring = replicate 256 \<lparr>el_data = \<lparr>ctl_raw = replicate 13 9, ctl_command = 3\<rparr>, el_valid = True, el_del = False\<rparr>, cq_flag = True\<rparr>)"

definition blank_mq :: metaqueue_t where
  "blank_mq = (let q = \<lparr>cq_pointer = 0, cq_mask = 0, cq_credits = 0, credits_per_return = 0, credit_disabled = True, isRDMA = False\<rparr>
     in \<lparr>mq_q = (\<lambda>i. (0, q)), mq_q_emergency = (\<lambda>i. (0, q)), mq_remote = (\<lambda>i. 0), mq_remote_emergency = (\<lambda>i. 0)\<rparr>)"

theorem long_message_delivered_witness:
  "\<exists>sq rq m. lm_run (concat (replicate 6 [True, False])) (lm_start [1, 2, 3, 4, 5, 6, 7, 8, 9, 10, 11, 12, 13, 14, 15] \<lparr>ctl_raw = replicate 13 7, ctl_command = 0\<rparr> True
      (setup_pair \<lparr>ctl_raw = replicate 13 0, ctl_command = 0\<rparr> 4096 blank_mq blank_mq garbage_mem)) = Some ([], Body 0 [1, 2, 3, 4, 5, 6, 7, 8, 9, 10, 11, 12, 13, 14, 15], sq, rq, m)"
proof -
  have "\<forall>a. length (cq_ring (garbage_mem a)) = 256" by (simp add: garbage_mem_def)
  from long_message_delivered [OF _ _ this, where ele = "\<lparr>ctl_raw = replicate 13 7, ctl_command = 0\<rparr>" and msg = "[1, 2, 3, 4, 5, 6, 7, 8, 9, 10, 11, 12, 13, 14, 15]"
      and zero = "\<lparr>ctl_raw = replicate 13 0, ctl_command = 0\<rparr>" and rounds = "replicate 6 [True, False]" and A = blank_mq and B = blank_mq and base = 4096 and up = True]
  show ?thesis by (simp del: lm_run.simps concat.simps add: list_all_iff)
qed

end
