(* ===== verification/Legacy_Monitor.thy ===== *)
theory Legacy_Monitor
  imports Adj_List Meta_Queue
begin

text \<open>
  The legacy monitor: the registry of listening ports and of the segments between processes (\<^verbatim>\<open>monitor/sock_monitor.cpp\<close>), the
  table of processes (\<^verbatim>\<open>monitor/process.cpp\<close>) and the handlers of their requests (also in \<^verbatim>\<open>monitor/rdma_monitor.cpp\<close> and \<^verbatim>\<open>monitor/main.cpp\<close>). A request is the member of the
  union that its command selects. What a handler pushes on control queues is a list of messages, in order; the queues are those of theory
  \<^verbatim>\<open>Meta_Queue\<close>. Process ids, thread ids, queue ids and keys are integers without a bound: the
  counters \<^verbatim>\<open>current_q_counter\<close> and \<^verbatim>\<open>counter\<close> are signed in the source, where passing their greatest value is undefined. \<open>None\<close> is a fatal error, an access outside an array, or a loop that does not end.
\<close>

section \<open>State\<close>

record monitor_sock_adjlist_t =
  peer_fd :: int
  peer_qid :: int
  is_accepting :: bool

record monitor_sock_node_t =
  is_listening :: int
  is_blocking :: int
  is_addrreuse :: int

record interprocess_buf_map_t =
  buffer_key :: int
  buf_loc :: int

record process_sturc =
  ps_isRDMA :: bool
  ps_pid :: int
  ps_tid :: int
  uniq_shmem_id :: int
  ps_token :: u64
  ps_queue :: metaqueue_t
  glb_ref :: u64

text \<open>The messages to processes. An error response may leave the error code unset.\<close>

datatype mon_msg =
    M_error "nat option"
  | M_success
  | M_connect int int
  | M_newconnection int int int nat bool
  | M_fork int int
  | M_push_fork int int int
  | M_fin_fork
  | M_relay int int int
  | M_ack int
  | M_long "u8 list"
  | M_ping u64

type_synonym port_list = "(monitor_sock_node_t, monitor_sock_adjlist_t) adjlist"

record lmon =
  ports :: port_list
  buf_idx :: "int \<rightharpoonup> (int \<rightharpoonup> interprocess_buf_map_t list)"
  current_q_counter :: int
  key2tid :: "int \<rightharpoonup> int \<times> int"
  rdma_id2key :: "int \<rightharpoonup> (int \<rightharpoonup> interprocess_buf_map_t)"
  rdma_key2qid :: "int \<rightharpoonup> int \<times> int"
  processes :: "process_sturc darray"
  tidmap :: "int \<rightharpoonup> int"
  pushed :: "(int \<times> bool \<times> mon_msg) list"
  thr_counter :: int

text \<open>A push on the ordinary or the emergency queue to the process \<open>qid\<close>.\<close>

definition push_msg :: "int \<Rightarrow> bool \<Rightarrow> mon_msg \<Rightarrow> lmon \<Rightarrow> lmon option" where
  "push_msg qid emergency x S = map_option (\<lambda>_. S\<lparr>pushed := pushed S @ [(qid, emergency, x)]\<rparr>) (at_idx (processes S) qid)"


section \<open>Segments between processes\<close>

definition add_buf :: "int \<Rightarrow> int \<Rightarrow> interprocess_buf_map_t \<Rightarrow> lmon \<Rightarrow> lmon" where
  "add_buf a b e S =
     (let row = (case buf_idx S a of None \<Rightarrow> Map.empty | Some r \<Rightarrow> r); bufs = (case row b of None \<Rightarrow> [] | Some v \<Rightarrow> v)
      in S\<lparr>buf_idx := (buf_idx S)(a \<mapsto> row(b \<mapsto> bufs @ [e]))\<rparr>)"

text \<open>\<open>shm\<close> is whether the segment of a key can be made and attached.\<close>

definition buffer_new :: "(int \<Rightarrow> bool) \<Rightarrow> int \<Rightarrow> int \<Rightarrow> int \<Rightarrow> lmon \<Rightarrow> (int \<times> lmon) option" where
  "buffer_new shm tid_from tid_to loc S =
     (let shm_key = 9837423 + current_q_counter S;
          S1 = S\<lparr>current_q_counter := current_q_counter S + 1\<rparr>
      in if \<not> shm shm_key then None
         else let S2 = add_buf tid_from tid_to \<lparr>buffer_key = shm_key, buf_loc = loc\<rparr> S1;
                  S3 = add_buf tid_to tid_from \<lparr>buffer_key = shm_key, buf_loc = (if loc = 0 then 1 else 0)\<rparr> S2
              in Some (shm_key, S3\<lparr>key2tid := (key2tid S3)(shm_key \<mapsto> (tid_from, tid_to))\<rparr>))"

definition buffer_new_rdma :: "int \<Rightarrow> int \<Rightarrow> int \<Rightarrow> lmon \<Rightarrow> int \<times> lmon" where
  "buffer_new_rdma qid rdmaqid loc S =
     (let shm_key = 9837423 + current_q_counter S;
          row = (case rdma_id2key S qid of None \<Rightarrow> Map.empty | Some r \<Rightarrow> r)
      in (shm_key, S\<lparr>current_q_counter := current_q_counter S + 1,
            rdma_id2key := (rdma_id2key S)(qid \<mapsto> row(rdmaqid \<mapsto> \<lparr>buffer_key = shm_key, buf_loc = loc\<rparr>)),
            rdma_key2qid := (rdma_key2qid S)(shm_key \<mapsto> (qid, rdmaqid))\<rparr>))"

definition buff_get_handler :: "int \<Rightarrow> lmon \<Rightarrow> (int \<rightharpoonup> interprocess_buf_map_t list) option" where
  "buff_get_handler tid S = buf_idx S tid"

definition erase_buf :: "int \<Rightarrow> int \<Rightarrow> lmon \<Rightarrow> lmon" where
  "erase_buf a b S = (let row = (case buf_idx S a of None \<Rightarrow> Map.empty | Some r \<Rightarrow> r) in S\<lparr>buf_idx := (buf_idx S)(a \<mapsto> row(b := None))\<rparr>)"

definition buffer_del :: "int \<Rightarrow> int \<Rightarrow> lmon \<Rightarrow> lmon" where
  "buffer_del tid_from tid_to S =
     (let bufs = (case buf_idx S tid_from of None \<Rightarrow> [] | Some r \<Rightarrow> (case r tid_to of None \<Rightarrow> [] | Some v \<Rightarrow> v));
          S1 = S\<lparr>key2tid := fold (\<lambda>b m. m(buffer_key b := None)) bufs (key2tid S)\<rparr>
      in erase_buf tid_to tid_from (erase_buf tid_from tid_to S1))"


section \<open>Processes\<close>

definition process_init :: "process_sturc \<Rightarrow> lmon \<Rightarrow> lmon" where
  "process_init dflt S = S\<lparr>processes := darray_init dflt 1024 (processes S)\<rparr>"

text \<open>
  The arguments are the random token, the key that \<^verbatim>\<open>ftok\<close> gives for a process number, and the address at which the segment is attached; \<open>None\<close> for a call that
  failed. \<open>undef\<close> is the object before initialisation, and \<open>M\<close> the memory of the segments.
\<close>

definition process_add :: "process_sturc \<Rightarrow> metaqueue_ctl_element \<Rightarrow> u64 \<Rightarrow> (nat \<Rightarrow> int option) \<Rightarrow> (int \<Rightarrow> nat option) \<Rightarrow> process_sturc
    \<Rightarrow> int \<Rightarrow> int \<Rightarrow> lmon \<Rightarrow> ctl_mem \<Rightarrow> ((int \<times> u64) \<times> lmon \<times> ctl_mem) option" where
  "process_add dflt zero token ftok attach undef pid tid S M = do {
     (id, d) \<leftarrow> darray_add dflt undef (processes S);
     key \<leftarrow> ftok (id + 2);
     baseaddr \<leftarrow> attach key;
     let (Q, M1) = init_memlayout baseaddr 0 (ps_queue undef) M;
     let M2 = mem_init zero Q M1;
     let p = undef\<lparr>ps_tid := tid, ps_pid := pid, ps_isRDMA := False, ps_token := token, uniq_shmem_id := key, ps_queue := Q\<rparr>;
     d' \<leftarrow> darray_set id p d;
     Some ((key, token), S\<lparr>processes := d', tidmap := (tidmap S)(tid \<mapsto> int id)\<rparr>, M2) }"

text \<open>\<^verbatim>\<open>(uint64_t)(1<<64)\<close> shifts a 32-bit integer by 64, which is undefined; its value is the argument \<open>bias\<close>.\<close>

definition process_add_rdma :: "process_sturc \<Rightarrow> u64 \<Rightarrow> process_sturc \<Rightarrow> metaqueue_t \<Rightarrow> int \<Rightarrow> lmon \<Rightarrow> lmon option" where
  "process_add_rdma dflt bias undef Q rdma_proc_idx S = do {
     (_, d) \<leftarrow> darray_add dflt (undef\<lparr>ps_queue := Q, ps_isRDMA := True, glb_ref := bias + word_of_int rdma_proc_idx\<rparr>) (processes S);
     Some (S\<lparr>processes := d\<rparr>) }"

definition process_gettid :: "int \<Rightarrow> lmon \<Rightarrow> int option" where
  "process_gettid qid S = map_option ps_tid (at_idx (processes S) qid)"

definition process_isRDMA :: "int \<Rightarrow> lmon \<Rightarrow> bool option" where
  "process_isRDMA qid S = map_option ps_isRDMA (at_idx (processes S) qid)"

definition process_isexist :: "int \<Rightarrow> lmon \<Rightarrow> bool option" where
  "process_isexist qid S = valid_idx (processes S) qid"

definition process_del :: "int \<Rightarrow> lmon \<Rightarrow> lmon option" where
  "process_del qid S = map_option (\<lambda>d. S\<lparr>processes := d\<rparr>) (darray_del (nat qid) (processes S))"

text \<open>\<open>alive\<close> is whether \<^verbatim>\<open>/proc\<close> has a directory for the process and thread.\<close>

partial_function (option) chk_remove_from :: "(int \<Rightarrow> int \<Rightarrow> bool) \<Rightarrow> int \<Rightarrow> lmon \<Rightarrow> lmon option" where
  "chk_remove_from alive i S =
     (if i = - 1 then Some S
      else do {
        p \<leftarrow> at_idx (processes S) i;
        S' \<leftarrow> (if ps_isRDMA p \<or> alive (ps_pid p) (ps_tid p) then Some S
               else process_del i (S\<lparr>tidmap := (tidmap S)(ps_tid p := None)\<rparr>));
        j \<leftarrow> iterator_next (processes S') (nat i);
        chk_remove_from alive j S' })"

definition process_chk_remove :: "(int \<Rightarrow> int \<Rightarrow> bool) \<Rightarrow> lmon \<Rightarrow> lmon option" where
  "process_chk_remove alive S = do { i \<leftarrow> iterator_init (processes S); chk_remove_from alive i S }"

section \<open>Ports\<close>

text \<open>Stores through \<^verbatim>\<open>ports[port]\<close> and through an iterator.\<close>

definition set_key_data :: "nat \<Rightarrow> 'a \<Rightarrow> ('a, 'b) adjlist \<Rightarrow> ('a, 'b) adjlist option" where
  "set_key_data k x A = do {
     e \<leftarrow> darray_get (ad_index A) k;
     ix \<leftarrow> darray_set k (e\<lparr>ix_data := x\<rparr>) (ad_index A);
     Some (A\<lparr>ad_index := ix\<rparr>) }"

definition adj_store :: "adjlist_iterator \<Rightarrow> 'b \<Rightarrow> ('a, 'b) adjlist \<Rightarrow> ('a, 'b) adjlist option" where
  "adj_store it x A = do {
     e \<leftarrow> at_idx (ad_list A) (ai_curr it);
     l \<leftarrow> darray_set (nat (ai_curr it)) (e\<lparr>adjdata := x\<rparr>) (ad_list A);
     Some (A\<lparr>ad_list := l\<rparr>) }"

definition sock_monitor_init :: "monitor_sock_node_t index_t \<Rightarrow> lmon \<Rightarrow> lmon option" where
  "sock_monitor_init da S = do {
     A \<leftarrow> adj_init da 65536 65536 \<lparr>is_listening = 0, is_blocking = 1, is_addrreuse = 0\<rparr> (ports S);
     Some (S\<lparr>ports := A\<rparr>) }"

definition listen_handler :: "monitor_sock_adjlist_t adj_element \<Rightarrow> nat \<Rightarrow> int \<Rightarrow> int \<Rightarrow> lmon \<Rightarrow> (mon_msg \<times> lmon) option" where
  "listen_handler db port is_reuseaddr qid S = do {
     nd \<leftarrow> key_data (ports S) port;
     if is_listening nd \<noteq> 0 \<and> is_addrreuse nd = 0 then Some (M_error (Some 98), S)
     else do {
       A \<leftarrow> (if is_listening nd = 0 then set_key_data port (nd\<lparr>is_listening := 1, is_addrreuse := is_reuseaddr\<rparr>) (ports S) else Some (ports S));
       (_, A') \<leftarrow> add_element db (int port) \<lparr>peer_fd = - 1, peer_qid = qid, is_accepting = False\<rparr> A;
       Some (M_success, S\<lparr>ports := A'\<rparr>) } }"

partial_function (option) accept_scan :: "int \<Rightarrow> adjlist_iterator \<Rightarrow> port_list \<Rightarrow> port_list option" where
  "accept_scan qid it A =
     (if adj_end it then Some A
      else do {
        x \<leftarrow> adj_deref A it;
        if peer_qid x = qid then adj_store it (x\<lparr>is_accepting := True\<rparr>) A
        else do { (it', A') \<leftarrow> adj_iter_next it A; accept_scan qid it' A' } })"

definition accept_handler :: "nat \<Rightarrow> int \<Rightarrow> lmon \<Rightarrow> lmon option" where
  "accept_handler port qid S = do {
     nd \<leftarrow> key_data (ports S) port;
     if is_listening nd = 0 then Some S
     else do {
       it \<leftarrow> adj_begin (int port) (ports S);
       A \<leftarrow> accept_scan qid it (ports S);
       Some (S\<lparr>ports := A\<rparr>) } }"

text \<open>The search of \<^verbatim>\<open>connect_handler\<close>; \<open>d\<close> is its variable \<^verbatim>\<open>adjdata\<close>.\<close>

partial_function (option) find_accepting :: "monitor_sock_adjlist_t \<Rightarrow> adjlist_iterator \<Rightarrow> port_list
    \<Rightarrow> (monitor_sock_adjlist_t \<times> adjlist_iterator \<times> port_list) option" where
  "find_accepting d it A =
     (if adj_end it then Some (d, it, A)
      else do {
        x \<leftarrow> adj_deref A it;
        if is_accepting x then Some (x, it, A)
        else do { (it', A') \<leftarrow> adj_iter_next it A; find_accepting x it' A' } })"

text \<open>The round-robin step after a listener was found.\<close>

definition advance_port :: "nat \<Rightarrow> adjlist_iterator \<Rightarrow> port_list \<Rightarrow> port_list option" where
  "advance_port port it A = do {
     A1 \<leftarrow> set_ptr_to (int port) it A;
     (it', A2) \<leftarrow> adj_iter_next it A1;
     if \<not> adj_end it' then set_ptr_to (int port) it' A2 else Some A2 }"

definition new_buffer :: "(int \<Rightarrow> bool) \<Rightarrow> bool \<Rightarrow> int \<Rightarrow> int \<Rightarrow> lmon \<Rightarrow> (int \<times> lmon) option" where
  "new_buffer shm rdma qid peer S =
     (if \<not> rdma
      then do {
        selftid \<leftarrow> process_gettid qid S;
        peertid \<leftarrow> process_gettid peer S;
        buffer_new shm selftid peertid 0 S }
      else Some (buffer_new_rdma peer qid 0 S))"

text \<open>\<open>garbage\<close> is the uninitialised variable \<^verbatim>\<open>adjdata\<close>, whose flag is cleared first.\<close>

definition connect_handler :: "(int \<Rightarrow> bool) \<Rightarrow> monitor_sock_adjlist_t \<Rightarrow> nat \<Rightarrow> int \<Rightarrow> bool \<Rightarrow> int \<Rightarrow> lmon \<Rightarrow> (mon_msg \<times> lmon) option" where
  "connect_handler shm garbage port fd rdma qid S = do {
     nd \<leftarrow> key_data (ports S) port;
     if is_listening nd = 0 then Some (M_error None, S)
     else do {
       it0 \<leftarrow> adj_begin (int port) (ports S);
       (d, it, A) \<leftarrow> find_accepting (garbage\<lparr>is_accepting := False\<rparr>) it0 (ports S);
       if \<not> is_accepting d then Some (M_error None, S\<lparr>ports := A\<rparr>)
       else do {
         A' \<leftarrow> advance_port port it A;
         (key, S') \<leftarrow> new_buffer shm rdma qid (peer_qid d) (S\<lparr>ports := A'\<rparr>);
         S'' \<leftarrow> push_msg (peer_qid d) False (M_newconnection key 1 fd port rdma) S';
         Some (M_connect key 0, S'') } } }"

text \<open>A port whose last listener was deleted does not listen any more.\<close>

definition stop_if_empty :: "nat \<Rightarrow> port_list \<Rightarrow> port_list option" where
  "stop_if_empty port A = do {
     it \<leftarrow> adj_begin (int port) A;
     if adj_end it then do { nd \<leftarrow> key_data A port; set_key_data port (nd\<lparr>is_listening := 0\<rparr>) A } else Some A }"

partial_function (option) close_loop :: "nat \<Rightarrow> int \<Rightarrow> adjlist_iterator \<Rightarrow> port_list \<Rightarrow> port_list option" where
  "close_loop port qid it A =
     (if adj_end it then Some A
      else do {
        x \<leftarrow> adj_deref A it;
        if peer_qid x = qid
        then do { (_, A') \<leftarrow> del_element it A; stop_if_empty port A' }
        else do { (it', A') \<leftarrow> adj_iter_next it A; close_loop port qid it' A' } })"

definition close_handler :: "nat \<Rightarrow> int \<Rightarrow> lmon \<Rightarrow> lmon option" where
  "close_handler port qid S = do {
     nd \<leftarrow> key_data (ports S) port;
     if is_listening nd = 0 then Some S
     else do {
       it \<leftarrow> adj_begin (int port) (ports S);
       A \<leftarrow> close_loop port qid it (ports S);
       Some (S\<lparr>ports := A\<rparr>) } }"

text \<open>Garbage collection of one port, and of all ports; \<open>exist\<close> is \<^verbatim>\<open>process_isexist\<close>.\<close>

partial_function (option) gc_loop :: "(int \<Rightarrow> bool option) \<Rightarrow> nat \<Rightarrow> adjlist_iterator \<Rightarrow> port_list \<Rightarrow> port_list option" where
  "gc_loop exist port it A =
     (if adj_end it then Some A
      else do {
        x \<leftarrow> adj_deref A it;
        ex \<leftarrow> exist (peer_qid x);
        if \<not> ex
        then do {
          (it', A') \<leftarrow> del_element it A;
          A'' \<leftarrow> stop_if_empty port A';
          gc_loop exist port it' A'' }
        else do { (it', A') \<leftarrow> adj_iter_next it A; gc_loop exist port it' A' } })"

definition gc_port :: "(int \<Rightarrow> bool option) \<Rightarrow> nat \<Rightarrow> port_list \<Rightarrow> port_list option" where
  "gc_port exist port A = do {
     nd \<leftarrow> key_data A port;
     if is_listening nd = 0 then Some A
     else do { it \<leftarrow> adj_begin (int port) A; gc_loop exist port it A } }"

fun gc_ports :: "(int \<Rightarrow> bool option) \<Rightarrow> nat list \<Rightarrow> port_list \<Rightarrow> port_list option" where
  "gc_ports exist [] A = Some A"
| "gc_ports exist (p # ps) A = do { A' \<leftarrow> gc_port exist p A; gc_ports exist ps A' }"

definition sock_resource_gc :: "lmon \<Rightarrow> lmon option" where
  "sock_resource_gc S = do {
     A \<leftarrow> gc_ports (\<lambda>qid. process_isexist qid S) [0..<65536] (ports S);
     Some (S\<lparr>ports := A\<rparr>) }"

section \<open>Requests between processes\<close>

text \<open>\<^verbatim>\<open>tidmap[tid]\<close>, which makes an entry for a thread that has none.\<close>

definition tid_at :: "int \<Rightarrow> lmon \<Rightarrow> int \<times> lmon" where
  "tid_at tid S = (case tidmap S tid of Some q \<Rightarrow> (q, S) | None \<Rightarrow> (0, S\<lparr>tidmap := (tidmap S)(tid \<mapsto> 0)\<rparr>))"

text \<open>
  The loop of \<^verbatim>\<open>fork_handler\<close> over the segments between the parent and one peer. The position is an index into the vector, which the loop's body
  makes longer; when the vector has to move, the iterator of the source is invalid as well.
\<close>

partial_function (option) fork_keys :: "(int \<Rightarrow> bool) \<Rightarrow> int \<Rightarrow> int \<Rightarrow> int \<Rightarrow> int \<Rightarrow> nat \<Rightarrow> lmon \<Rightarrow> lmon option" where
  "fork_keys shm new_tid old_tid peer_tid qid i S = do {
     row \<leftarrow> buf_idx S old_tid;
     bufs \<leftarrow> row peer_tid;
     if length bufs \<le> i then Some S
     else do {
       let b = bufs ! i;
       (key4nproc, S1) \<leftarrow> buffer_new shm new_tid peer_tid (buf_loc b) S;
       (key4oldproc, S2) \<leftarrow> buffer_new shm old_tid peer_tid (buf_loc b) S1;
       S3 \<leftarrow> push_msg qid False (M_fork (buffer_key b) key4nproc) S2;
       let (oq, S4) = tid_at old_tid S3;
       S5 \<leftarrow> push_msg oq False (M_fork (buffer_key b) key4oldproc) S4;
       let (pq, S6) = tid_at peer_tid S5;
       S7 \<leftarrow> push_msg pq True (M_push_fork (buffer_key b) key4oldproc key4nproc) S6;
       fork_keys shm new_tid old_tid peer_tid qid (Suc i) S7 } }"

fun fork_peers :: "(int \<Rightarrow> bool) \<Rightarrow> int \<Rightarrow> int \<Rightarrow> int \<Rightarrow> int list \<Rightarrow> lmon \<Rightarrow> lmon option" where
  "fork_peers shm new_tid old_tid qid [] S = Some S"
| "fork_peers shm new_tid old_tid qid (p # ps) S = do {
     S' \<leftarrow> fork_keys shm new_tid old_tid p qid 0 S;
     fork_peers shm new_tid old_tid qid ps S' }"

text \<open>\<open>order\<close> is the order in which the hash table of a thread gives its peers.\<close>

definition fork_handler :: "(int \<Rightarrow> bool) \<Rightarrow> (int \<Rightarrow> int list) \<Rightarrow> int \<Rightarrow> u64 \<Rightarrow> int \<Rightarrow> lmon \<Rightarrow> lmon option" where
  "fork_handler shm order old_tid token qid S = do {
     new_tid \<leftarrow> process_gettid qid S;
     case tidmap S old_tid of None \<Rightarrow> push_msg qid False (M_error (Some 1)) S
     | Some oq \<Rightarrow> do {
         p \<leftarrow> at_idx (processes S) oq;
         if ps_token p \<noteq> token then push_msg qid False (M_error (Some 1)) S
         else (case buff_get_handler old_tid S of None \<Rightarrow> push_msg qid False M_fin_fork S
           | Some _ \<Rightarrow> do {
               S1 \<leftarrow> fork_peers shm new_tid old_tid qid (order old_tid) S;
               S2 \<leftarrow> push_msg qid False M_fin_fork S1;
               let (oq', S3) = tid_at old_tid S2;
               push_msg oq' False M_fin_fork S3 }) } }"

definition recv_takeover_handler :: "int \<Rightarrow> int \<Rightarrow> int \<Rightarrow> int \<Rightarrow> lmon \<Rightarrow> lmon option" where
  "recv_takeover_handler shmem req_fd pfd qid S = do {
     (t1, t2) \<leftarrow> key2tid S shmem;
     tid \<leftarrow> process_gettid qid S;
     let (dest_qid, S') = tid_at (if tid = t1 then t2 else t1) S;
     push_msg dest_qid True (M_relay shmem req_fd pfd) S' }"

text \<open>\<open>msg\<close> is what \<^verbatim>\<open>pop_longmsg\<close> gives; its first field is the key.\<close>

definition long_msg_handler :: "u32 \<Rightarrow> u8 list \<Rightarrow> int \<Rightarrow> lmon \<Rightarrow> lmon option" where
  "long_msg_handler subcommand msg qid S =
     (if subcommand \<noteq> ucast RDMA_QP_INFO \<or> length msg < 4 then None
      else do {
        (qid1, qid2) \<leftarrow> rdma_key2qid S (sint (le_word (take 4 msg) :: u32));
        rdma \<leftarrow> process_isRDMA qid S;
        let peerqid = (if rdma then qid1 else qid2);
        if peerqid = qid then None else push_msg peerqid False (M_long msg) S })"

definition rdma_ack_handler :: "int \<Rightarrow> int \<Rightarrow> lmon \<Rightarrow> lmon option" where
  "rdma_ack_handler key qid S = do {
     (qid1, qid2) \<leftarrow> rdma_key2qid S key;
     rdma \<leftarrow> process_isRDMA qid1 S;
     let peerqid = (if \<not> rdma then qid1 else qid2);
     if peerqid = qid then None else push_msg peerqid False (M_ack key) S }"

definition thr_test_handler :: "int \<Rightarrow> lmon \<Rightarrow> lmon option" where
  "thr_test_handler cnt_recv S = (if cnt_recv \<noteq> thr_counter S then None else Some (S\<lparr>thr_counter := thr_counter S + 1\<rparr>))"

definition ping_handler :: "u64 \<Rightarrow> mon_msg" where
  "ping_handler payload = M_ping (NOT payload)"

datatype mon_req =
    Q_thrtest int
  | Q_thrtest_init
  | Q_ping u64
  | Q_listen nat int
  | Q_accept nat
  | Q_connect nat int bool
  | Q_close nat
  | Q_fork int u64
  | Q_relay_recv int int int
  | Q_nop
  | Q_long u32 "u8 list"
  | Q_ack int

record mon_env =
  env_db :: "monitor_sock_adjlist_t adj_element"
  env_garbage :: monitor_sock_adjlist_t
  env_shm :: "int \<Rightarrow> bool"
  env_order :: "int \<Rightarrow> int list"

definition event_processer :: "mon_env \<Rightarrow> int \<Rightarrow> mon_req \<Rightarrow> lmon \<Rightarrow> lmon option" where
  "event_processer E qid rq S = (case rq of
     Q_thrtest n \<Rightarrow> thr_test_handler n S
   | Q_thrtest_init \<Rightarrow> Some (S\<lparr>thr_counter := 0\<rparr>)
   | Q_ping x \<Rightarrow> push_msg qid False (ping_handler x) S
   | Q_listen port reuse \<Rightarrow> do { (res, S') \<leftarrow> listen_handler (env_db E) port reuse qid S; push_msg qid False res S' }
   | Q_accept port \<Rightarrow> accept_handler port qid S
   | Q_connect port fd rdma \<Rightarrow> do { (res, S') \<leftarrow> connect_handler (env_shm E) (env_garbage E) port fd rdma qid S; push_msg qid False res S' }
   | Q_close port \<Rightarrow> close_handler port qid S
   | Q_fork old_tid token \<Rightarrow> fork_handler (env_shm E) (env_order E) old_tid token qid S
   | Q_relay_recv k a b \<Rightarrow> recv_takeover_handler k a b qid S
   | Q_nop \<Rightarrow> Some S
   | Q_long sub msg \<Rightarrow> long_msg_handler sub msg qid S
   | Q_ack k \<Rightarrow> rdma_ack_handler k qid S)"

text \<open>
  A fork request of a process that has a segment never returns, unless by the fatal error of a segment that cannot be made: for every segment of the parent that the loop passes it makes a new segment of the
  parent with the same peer, which is appended to the vector that the loop runs over.
\<close>

definition bufs_of :: "int \<Rightarrow> int \<Rightarrow> lmon \<Rightarrow> interprocess_buf_map_t list" where
  "bufs_of a b S = (case buf_idx S a of None \<Rightarrow> [] | Some r \<Rightarrow> (case r b of None \<Rightarrow> [] | Some v \<Rightarrow> v))"

lemma bufs_add: "bufs_of a b (add_buf c d e S) = bufs_of a b S @ (if a = c \<and> b = d then [e] else [])"
  by (auto simp: bufs_of_def add_buf_def Let_def split: option.splits)

lemma bufs_simps [simp]:
  "bufs_of a b (S\<lparr>current_q_counter := n\<rparr>) = bufs_of a b S" "bufs_of a b (S\<lparr>key2tid := m\<rparr>) = bufs_of a b S"
  "bufs_of a b (S\<lparr>pushed := l\<rparr>) = bufs_of a b S" "bufs_of a b (snd (tid_at t S)) = bufs_of a b S"
  by (simp_all add: bufs_of_def tid_at_def split: option.splits)

lemma buffer_new_grows:
  assumes "buffer_new shm a b loc S = Some (k, S')"
  shows "length (bufs_of c d S) + (if c = a \<and> d = b then 1 else 0) \<le> length (bufs_of c d S')"
  using assms by (auto simp: buffer_new_def Let_def bufs_add split: if_splits)

lemma push_msg_bufs: "push_msg q em x S = Some S' \<Longrightarrow> bufs_of a b S' = bufs_of a b S"
  by (auto simp: push_msg_def)

lemma fork_keys_endless:
  assumes "fork_keys shm new_tid old_tid peer_tid qid i S = Some S'"
  shows "length (bufs_of old_tid peer_tid S) \<le> i"
proof (rule fork_keys.raw_induct [OF _ assms], goal_cases)
  case (1 f shm new_tid old_tid peer_tid qid i S S')
  show ?case
  proof (rule ccontr)
    assume n: "\<not> ?case"
    obtain row bufs where r: "buf_idx S old_tid = Some row" "row peer_tid = Some bufs" using 1(2) by (auto split: Option.bind_splits)
    have b: "bufs_of old_tid peer_tid S = bufs" "\<not> length bufs \<le> i" using n r by (simp_all add: bufs_of_def)
    let ?b = "bufs ! i"
    from 1(2) obtain k1 S1 k2 S2 S3 S5 S7 where s: "buffer_new shm new_tid peer_tid (buf_loc ?b) S = Some (k1, S1)"
      "buffer_new shm old_tid peer_tid (buf_loc ?b) S1 = Some (k2, S2)" "push_msg qid False (M_fork (buffer_key ?b) k1) S2 = Some S3"
      "push_msg (fst (tid_at old_tid S3)) False (M_fork (buffer_key ?b) k2) (snd (tid_at old_tid S3)) = Some S5"
      "push_msg (fst (tid_at peer_tid S5)) True (M_push_fork (buffer_key ?b) k2 k1) (snd (tid_at peer_tid S5)) = Some S7"
      "f shm new_tid old_tid peer_tid qid (Suc i) S7 = Some S'"
      unfolding r option.case Option.bind.bind_lunit by (simp add: b(2) Let_def case_prod_beta split: Option.bind_splits) auto
    have "bufs_of old_tid peer_tid S7 = bufs_of old_tid peer_tid S2"
      using push_msg_bufs [OF s(3), of old_tid peer_tid] push_msg_bufs [OF s(4), of old_tid peer_tid] push_msg_bufs [OF s(5), of old_tid peer_tid] by simp
    with 1(1) [OF s(6)] have "length (bufs_of old_tid peer_tid S2) \<le> Suc i" by simp
    then show False using buffer_new_grows [OF s(1), of old_tid peer_tid] buffer_new_grows [OF s(2), of old_tid peer_tid] b by simp
  qed
qed

lemma fork_peers_endless: "fork_peers shm new_tid old_tid qid ps S = Some S' \<Longrightarrow> p \<in> set ps \<Longrightarrow> bufs_of old_tid p S = []"
proof (induction ps arbitrary: S)
  case (Cons a ps)
  obtain S1 where s: "fork_keys shm new_tid old_tid a qid 0 S = Some S1" "fork_peers shm new_tid old_tid qid ps S1 = Some S'"
    using Cons.prems(1) by (auto split: Option.bind_splits)
  have e: "bufs_of old_tid a S = []" using fork_keys_endless [OF s(1)] by simp
  then have "S1 = S" using s(1) by (subst (asm) fork_keys.simps) (auto simp: bufs_of_def split: Option.bind_splits)
  then show ?case using Cons.IH [OF s(2)] Cons.prems(2) e by auto
qed simp

theorem fork_with_segments_never_returns:
  assumes "tidmap S old_tid = Some oq" "at_idx (processes S) oq = Some p" "ps_token p = token"
    and "peer_tid \<in> set (order old_tid)" "bufs_of old_tid peer_tid S \<noteq> []"
  shows "fork_handler shm order old_tid token qid S = None"
proof -
  have "fork_peers shm t old_tid qid (order old_tid) S = None" for t
    using fork_peers_endless [of shm t old_tid qid "order old_tid" S] assms(4,5) by fastforce
  moreover have "buff_get_handler old_tid S \<noteq> None" using assms(5) by (auto simp: bufs_of_def buff_get_handler_def split: option.splits)
  ultimately show ?thesis using assms(1-3) by (auto simp: fork_handler_def split: Option.bind_splits)
qed

end
