(* ===== verification/Legacy_Ports.thy ===== *)
theory Legacy_Ports
  imports Legacy_Monitor
begin

text \<open>
  The ports of the legacy monitor as lists of listeners. The loops of \<^verbatim>\<open>monitor/sock_monitor.cpp\<close> run over rings inside two arrays (theory
  \<^verbatim>\<open>Adj_List\<close>) while they move the ring's pointer and delete from it; here each handler is shown to be an operation on a list.
\<close>

section \<open>Iterators that move the pointer\<close>

text \<open>
  The loops of the monitor use \<^verbatim>\<open>next\<close>, which moves the key's pointer along, so their iterator is always at the first element of the ring. \<open>s\<close> is the slot where the
  round began.
\<close>

definition at_head :: "('a, 'b) adjlist \<Rightarrow> (nat \<Rightarrow> nat list) \<Rightarrow> nat \<Rightarrow> nat \<Rightarrow> adjlist_iterator \<Rightarrow> bool" where
  "at_head A R k s it \<longleftrightarrow> adj_rel A R \<and> k \<in> in_use (ad_index A) \<and> s \<in> set (R k)
     \<and> it = \<lparr>ai_prev = int (last (R k)), ai_start = int s, ai_idx = int k, ai_isvalid = True, ai_curr = int (hd (R k))\<rparr>"

lemma adj_begin_cases:
  assumes R: "adj_rel A R" and k: "k \<in> in_use (ad_index A)"
  shows "R k = [] \<Longrightarrow> \<exists>it. adj_begin (int k) A = Some it \<and> adj_end it"
    "R k \<noteq> [] \<Longrightarrow> \<exists>it. adj_begin (int k) A = Some it \<and> at_head A R k (hd (R k)) it"
proof -
  assume e: "R k = []"
  obtain e where "darray_get (ad_index A) k = Some e" "ix_pointer e = - 1"
    using adj_rel_ptr [OF R k] e by (auto simp: key_ptr_def ptr_of_def)
  then show "\<exists>it. adj_begin (int k) A = Some it \<and> adj_end it"
    using valid_idx_in_use [OF adj_rel_arrays(1) [OF R] k] by (simp add: adj_begin_def at_idx_def new_iterator_def adj_end_def)
next
  assume "R k \<noteq> []"
  then show "\<exists>it. adj_begin (int k) A = Some it \<and> at_head A R k (hd (R k)) it"
    using adj_begin_rel [OF R k] R k by (auto simp: at_head_def)
qed

lemma head_deref:
  assumes "at_head A R k s it"
  shows "\<not> adj_end it" "adj_deref A it = Some (data_at A (hd (R k)))"
proof -
  have "hd (R k) \<in> in_use (ad_list A)" using assms adj_rel_sub [of A R k] by (cases "R k") (auto simp: at_head_def)
  then show "adj_deref A it = Some (data_at A (hd (R k)))"
    using assms in_use_get [of "hd (R k)" "ad_list A"] by (auto simp: at_head_def adj_deref_def at_idx_def data_at_def)
qed (use assms in \<open>simp add: at_head_def adj_end_def\<close>)

lemma set_pointer_rel:
  assumes R: "adj_rel A R" and k: "k \<in> in_use (ad_index A)" and x: "R k = us @ vs" and v: "us \<noteq> []"
  shows "\<exists>A'. set_pointer (int k) (int (last us)) A = Some A' \<and> adj_rel A' (R(k := vs @ us)) \<and> ad_list A' = ad_list A
    \<and> in_use (ad_index A') = in_use (ad_index A)"
proof -
  obtain A' where a: "set_pointer (int k) (int (last us)) A = Some A'" "ad_list A' = ad_list A" "darray_ok (ad_index A')"
    "in_use (ad_index A') = in_use (ad_index A)" "\<And>j. key_ptr A' j = (if j = k then Some (int (last us)) else key_ptr A j)"
    using set_pointer_ok [OF adj_rel_arrays(1) [OF R] k, of "int (last us)"] by blast
  have g: "ring A' xs = ring A xs" for xs using a(2) by (simp add: ring_def links_def [abs_def])
  have "adj_rel A' (R(k := vs @ us))"
  proof (rule adj_rel_update [OF R a(3) _ a(4)])
    show "ring A' (vs @ us)" using ring_rotate [of A us vs] adj_rel_ring [OF R k] x g by simp
    show "key_ptr A' j = (if j = k then Some (ptr_of (vs @ us)) else key_ptr A j)" for j using a(5) v by (simp add: ptr_of_def)
  next
    fix j i assume h: "j \<in> in_use (ad_index A)" "j \<noteq> k" "i \<in> set (R j)"
    then show "i \<in> in_use (ad_list A') \<and> darray_get (ad_list A') i = darray_get (ad_list A) i \<and> i \<notin> set (vs @ us)"
      using adj_rel_sub [OF R h(1)] adj_rel_disjoint [OF R h(1) k h(2)] a(2) x by auto
  qed (use a adj_rel_arrays [OF R] in simp)
  then show ?thesis using a by blast
qed

lemma head_next:
  assumes H: "at_head A R k s it" and x: "R k = c # cs"
  shows "\<exists>it' A'. adj_iter_next it A = Some (it', A') \<and> adj_rel A' (R(k := cs @ [c])) \<and> ad_list A' = ad_list A
    \<and> in_use (ad_index A') = in_use (ad_index A)
    \<and> (if hd (cs @ [c]) = s then adj_end it' else at_head A' (R(k := cs @ [c])) k s it') \<and> ai_idx it' = int k
    \<and> (\<not> adj_end it' \<longrightarrow> ai_prev it' = int c)"
proof -
  have R: "adj_rel A R" and k: "k \<in> in_use (ad_index A)" and s: "s \<in> set (R k)"
    and it: "it = \<lparr>ai_prev = int (last (R k)), ai_start = int s, ai_idx = int k, ai_isvalid = True, ai_curr = int c\<rparr>"
    using H x by (simp_all add: at_head_def)
  obtain A' where a: "set_pointer (int k) (int c) A = Some A'" "adj_rel A' (R(k := cs @ [c]))" "ad_list A' = ad_list A"
    "in_use (ad_index A') = in_use (ad_index A)" using set_pointer_rel [OF R k, of "[c]" cs] x by auto
  have "c \<in> in_use (ad_list A)" using adj_rel_sub [OF R k] x by simp
  then obtain e where e: "darray_get (ad_list A) c = Some e" using in_use_get by blast
  have "links A c (hd (cs @ [c]))" using adj_rel_ring [OF R k] x by (cases cs) (auto simp: ring_def)
  then have n: "adj_next e = int (hd (cs @ [c]))" using e by (simp add: links_def)
  have "adj_iter_next it A = Some (if hd (cs @ [c]) = s then it\<lparr>ai_isvalid := False\<rparr> else it\<lparr>ai_prev := int c, ai_curr := int (hd (cs @ [c]))\<rparr>, A')"
    using a(1,3) e n it by (simp add: adj_iter_next_def next_no_move_ptr_def at_idx_def)
  then show ?thesis using a k s x it by (auto simp: at_head_def adj_end_def)
qed

lemma head_del:
  assumes H: "at_head A R k s it" and x: "R k = c # cs"
  shows "\<exists>it' A'. del_element it A = Some (it', A') \<and> adj_rel A' (R(k := cs)) \<and> in_use (ad_index A') = in_use (ad_index A) \<and> (\<forall>a. data_at A' a = data_at A a)
    \<and> (if cs = [] then adj_end it' else at_head A' (R(k := cs)) k (if s = c then hd cs else s) it')"
proof -
  have R: "adj_rel A R" and k: "k \<in> in_use (ad_index A)" and s: "s \<in> set (R k)"
    and it: "it = \<lparr>ai_prev = int (last (R k)), ai_start = int s, ai_idx = int k, ai_isvalid = True, ai_curr = int c\<rparr>"
    using H x by (simp_all add: at_head_def)
  show ?thesis
  proof (cases "cs = []")
    case True
    then show ?thesis using del_single [OF R k, of c it] x it by (auto simp: adj_end_def new_iterator_def)
  next
    case False
    have p: "ai_prev it = int (last (cs @ []))" using it x False by simp
    obtain A' where a: "del_element it A = Some (it\<lparr>ai_start := (if ai_start it = int c then int (hd cs) else ai_start it), ai_curr := int (hd cs)\<rparr>, A')"
      "adj_rel A' (R(k := cs))" "in_use (ad_index A') = in_use (ad_index A)" "\<forall>a. data_at A' a = data_at A a"
      using del_linked [OF R k, of "[]" c cs it] x False it p by (auto simp: without_def)
    then show ?thesis using False k s x it by (auto simp: at_head_def)
  qed
qed

lemma set_pointer_key_data: "set_pointer k p A = Some A' \<Longrightarrow> key_data A' = key_data A"
  by (auto simp: set_pointer_def at_idx_def darray_set_def key_data_def darray_get_def fun_eq_iff nth_list_update split: Option.bind_splits if_splits)

lemma iter_next_key_data: "adj_iter_next it A = Some (it', A') \<Longrightarrow> key_data A' = key_data A"
  using set_pointer_key_data by (auto simp: adj_iter_next_def split: Option.bind_splits)

lemma set_next_key_data: "set_next i n A = Some A' \<Longrightarrow> key_data A' = key_data A"
  by (auto simp: set_next_def key_data_def [abs_def] split: Option.bind_splits)

lemma list_key_data [simp]: "key_data (A\<lparr>ad_list := l\<rparr>) = key_data A"
  by (simp add: key_data_def [abs_def])

lemma del_key_data: "del_element it A = Some (it', A') \<Longrightarrow> key_data A' = key_data A"
  by (auto simp: del_element_def Let_def split: Option.bind_splits if_splits dest!: set_pointer_key_data set_next_key_data)

lemma add_key_data: "add_element db k x A = Some (it, A') \<Longrightarrow> key_data A' = key_data A"
  by (auto simp: add_element_def add_first_def insert_after_def Let_def split: Option.bind_splits if_splits
      dest!: set_pointer_key_data set_next_key_data)

lemma set_key_data_rel:
  assumes R: "adj_rel A R" and k: "k \<in> in_use (ad_index A)"
  shows "\<exists>A'. set_key_data k x A = Some A' \<and> adj_rel A' R \<and> ad_list A' = ad_list A \<and> in_use (ad_index A') = in_use (ad_index A)
    \<and> key_data A' = (key_data A)(k := Some x)"
proof -
  obtain e where e: "darray_get (ad_index A) k = Some e" using in_use_get [OF k] by blast
  obtain d where d: "darray_set k (e\<lparr>ix_data := x\<rparr>) (ad_index A) = Some d" "darray_ok d" "in_use d = in_use (ad_index A)"
    "\<And>j. darray_get d j = (if j = k then Some (e\<lparr>ix_data := x\<rparr>) else darray_get (ad_index A) j)"
    using darray_set_ok [OF adj_rel_arrays(1) [OF R] k, of "e\<lparr>ix_data := x\<rparr>"] by blast
  have g: "ring (A\<lparr>ad_index := d\<rparr>) xs = ring A xs" for xs by (simp add: ring_def links_def [abs_def])
  have p: "key_ptr (A\<lparr>ad_index := d\<rparr>) j = key_ptr A j" for j using d(4) e by (simp add: key_ptr_def)
  have "adj_rel (A\<lparr>ad_index := d\<rparr>) R" using R d(2,3) by (simp add: adj_rel_def g p)
  moreover have "key_data (A\<lparr>ad_index := d\<rparr>) = (key_data A)(k := Some x)" using d(4) by (auto simp: key_data_def)
  ultimately show ?thesis using e d by (auto simp: set_key_data_def)
qed

lemma head_store:
  assumes H: "at_head A R k s it"
  shows "\<exists>A'. adj_store it x A = Some A' \<and> adj_rel A' R \<and> in_use (ad_index A') = in_use (ad_index A) \<and> key_data A' = key_data A
    \<and> (\<forall>a. data_at A' a = (if a = hd (R k) then x else data_at A a))"
proof -
  have R: "adj_rel A R" and c: "hd (R k) \<in> in_use (ad_list A)" "ai_curr it = int (hd (R k))"
    using H adj_rel_sub [of A R k] by (cases "R k"; auto simp: at_head_def)+
  obtain e where e: "darray_get (ad_list A) (hd (R k)) = Some e" using in_use_get [OF c(1)] by blast
  obtain l where l: "darray_set (hd (R k)) (e\<lparr>adjdata := x\<rparr>) (ad_list A) = Some l" "darray_ok l" "in_use l = in_use (ad_list A)"
    "\<And>j. darray_get l j = (if j = hd (R k) then Some (e\<lparr>adjdata := x\<rparr>) else darray_get (ad_list A) j)"
    using darray_set_ok [OF adj_rel_arrays(2) [OF R] c(1), of "e\<lparr>adjdata := x\<rparr>"] by blast
  have "links (A\<lparr>ad_list := l\<rparr>) a b = links A a b" for a b using l(4) e by (simp add: links_def)
  then have g: "ring (A\<lparr>ad_list := l\<rparr>) xs = ring A xs" for xs using l(3) by (simp add: ring_def)
  have "adj_rel (A\<lparr>ad_list := l\<rparr>) R" using R l(2) by (simp add: adj_rel_def g key_ptr_def)
  then show ?thesis using e l c(2) by (auto simp: adj_store_def at_idx_def data_at_def)
qed

text \<open>The elements still to be visited in a round, \<open>todo\<close>, and those behind the iterator, \<open>dn\<close>.\<close>

definition in_round :: "('a, 'b) adjlist \<Rightarrow> (nat \<Rightarrow> nat list) \<Rightarrow> nat \<Rightarrow> nat list \<Rightarrow> nat list \<Rightarrow> adjlist_iterator \<Rightarrow> bool" where
  "in_round A R k todo dn it \<longleftrightarrow> R k = todo @ dn \<and> todo \<noteq> [] \<and> at_head A R k (hd (dn @ todo)) it"

lemma round_begin:
  assumes "adj_rel A R" "k \<in> in_use (ad_index A)" "R k \<noteq> []"
  shows "\<exists>it. adj_begin (int k) A = Some it \<and> in_round A R k (R k) [] it"
  using adj_begin_cases(2) [OF assms] assms(3) by (auto simp: in_round_def)

lemma round_next:
  assumes H: "in_round A R k (c # t) dn it"
  shows "\<exists>it' A'. adj_iter_next it A = Some (it', A') \<and> adj_rel A' (R(k := t @ dn @ [c])) \<and> data_at A' = data_at A \<and> key_data A' = key_data A
    \<and> in_use (ad_index A') = in_use (ad_index A)
    \<and> (if t = [] then adj_end it' else in_round A' (R(k := t @ dn @ [c])) k t (dn @ [c]) it') \<and> (\<not> adj_end it' \<longrightarrow> ai_prev it' = int c)"
proof -
  have x: "R k = c # (t @ dn)" and a: "at_head A R k (hd (dn @ c # t)) it" using H by (simp_all add: in_round_def)
  have d: "distinct (R k)" using a adj_rel_ring [of A R k] by (simp add: at_head_def ring_def)
  obtain it' A' where n: "adj_iter_next it A = Some (it', A')" "adj_rel A' (R(k := t @ dn @ [c]))" "ad_list A' = ad_list A"
    "in_use (ad_index A') = in_use (ad_index A)" "\<not> adj_end it' \<longrightarrow> ai_prev it' = int c"
    "if hd (t @ dn @ [c]) = hd (dn @ c # t) then adj_end it' else at_head A' (R(k := t @ dn @ [c])) k (hd (dn @ c # t)) it'"
    using head_next [OF a x, unfolded append_assoc] by blast
  have i: "hd (t @ dn @ [c]) = hd (dn @ c # t) \<longleftrightarrow> t = []" using d x by (cases t; cases dn) auto
  have "data_at A' = data_at A" using n(3) by (simp add: data_at_def [abs_def])
  moreover have "if t = [] then adj_end it' else in_round A' (R(k := t @ dn @ [c])) k t (dn @ [c]) it'"
    using n(6) unfolding i by (simp add: in_round_def split: if_splits)
  ultimately show ?thesis using n(1,2,4,5) iter_next_key_data [OF n(1)] by blast
qed

lemma round_del:
  assumes H: "in_round A R k (c # t) dn it"
  shows "\<exists>it' A'. del_element it A = Some (it', A') \<and> adj_rel A' (R(k := t @ dn)) \<and> data_at A' = data_at A \<and> key_data A' = key_data A
    \<and> in_use (ad_index A') = in_use (ad_index A)
    \<and> (if t @ dn = [] then adj_end it' else if t = [] then in_round A' (R(k := t @ dn)) k dn [] it' else in_round A' (R(k := t @ dn)) k t dn it')"
proof -
  have x: "R k = c # (t @ dn)" and a: "at_head A R k (hd (dn @ c # t)) it" using H by (simp_all add: in_round_def)
  have d: "distinct (R k)" using a adj_rel_ring [of A R k] by (simp add: at_head_def ring_def)
  obtain it' A' where n: "del_element it A = Some (it', A')" "adj_rel A' (R(k := t @ dn))" "in_use (ad_index A') = in_use (ad_index A)" "\<forall>a. data_at A' a = data_at A a"
    "if t @ dn = [] then adj_end it' else at_head A' (R(k := t @ dn)) k (if hd (dn @ c # t) = c then hd (t @ dn) else hd (dn @ c # t)) it'"
    using head_del [OF a x] by blast
  have h: "(if hd (dn @ c # t) = c then hd (t @ dn) else hd (dn @ c # t)) = hd (dn @ t)" if "t @ dn \<noteq> []"
    using d x that by (cases dn) auto
  have "if t @ dn = [] then adj_end it' else if t = [] then in_round A' (R(k := t @ dn)) k dn [] it' else in_round A' (R(k := t @ dn)) k t dn it'"
  proof (cases "t @ dn = []")
    case False
    then have "at_head A' (R(k := t @ dn)) k (hd (dn @ t)) it'" using n(5) h [OF False] by (simp only: if_False)
    then show ?thesis using False by (cases "t = []") (simp_all add: in_round_def)
  qed (use n(5) in simp)
  moreover have "data_at A' = data_at A" using n(4) by auto
  ultimately show ?thesis using n(1-3) del_key_data [OF n(1)] by blast
qed

text \<open>The loops that look for a listener: \<open>F\<close> stops with \<open>G\<close> at the first element that satisfies \<open>P\<close>, and with \<open>E\<close> after a round without one.\<close>

definition seeks :: "('b \<Rightarrow> bool) \<Rightarrow> ('b \<Rightarrow> adjlist_iterator \<Rightarrow> ('a, 'b) adjlist \<Rightarrow> 'r option) \<Rightarrow> ('b \<Rightarrow> adjlist_iterator \<Rightarrow> ('a, 'b) adjlist \<Rightarrow> 'r option)
    \<Rightarrow> ('b \<Rightarrow> adjlist_iterator \<Rightarrow> ('a, 'b) adjlist \<Rightarrow> 'r option) \<Rightarrow> bool" where
  "seeks P G E F \<longleftrightarrow> (\<forall>d it A. F d it A = (if adj_end it then E d it A else Option.bind (adj_deref A it) (\<lambda>x.
      if P x then G x it A else Option.bind (adj_iter_next it A) (\<lambda>(it', A'). F x it' A'))))"

definition same_data :: "('a, 'b) adjlist \<Rightarrow> ('a, 'b) adjlist \<Rightarrow> bool" where
  "same_data A A' \<longleftrightarrow> data_at A' = data_at A \<and> key_data A' = key_data A \<and> in_use (ad_index A') = in_use (ad_index A)"

lemma same_data_refl [simp]: "same_data A A"
  by (simp add: same_data_def)

lemma same_data_trans: "same_data A B \<Longrightarrow> same_data B C \<Longrightarrow> same_data A C"
  by (simp add: same_data_def)

lemma seek_step:
  assumes F: "seeks P G E F" and H: "in_round A R k (c # t) dn it"
  shows "P (data_at A c) \<Longrightarrow> F d it A = G (data_at A c) it A"
    "\<not> P (data_at A c) \<Longrightarrow> \<exists>it' A'. F d it A = F (data_at A c) it' A' \<and> same_data A A' \<and> adj_rel A' (R(k := t @ dn @ [c]))
      \<and> (if t = [] then adj_end it' else in_round A' (R(k := t @ dn @ [c])) k t (dn @ [c]) it')"
proof -
  have h: "\<not> adj_end it" "adj_deref A it = Some (data_at A c)"
    using head_deref [of A R k "hd (dn @ c # t)" it] H by (simp_all add: in_round_def)
  have u: "F d it A = (if P (data_at A c) then G (data_at A c) it A else Option.bind (adj_iter_next it A) (\<lambda>(it', A'). F (data_at A c) it' A'))"
    using F [unfolded seeks_def, rule_format, of d it A] h by simp
  show "P (data_at A c) \<Longrightarrow> F d it A = G (data_at A c) it A" using u by simp
  show "\<exists>it' A'. F d it A = F (data_at A c) it' A' \<and> same_data A A' \<and> adj_rel A' (R(k := t @ dn @ [c]))
      \<and> (if t = [] then adj_end it' else in_round A' (R(k := t @ dn @ [c])) k t (dn @ [c]) it')" if n: "\<not> P (data_at A c)"
  proof -
    obtain it' A' where a: "adj_iter_next it A = Some (it', A')" "adj_rel A' (R(k := t @ dn @ [c]))" "same_data A A'"
      "if t = [] then adj_end it' else in_round A' (R(k := t @ dn @ [c])) k t (dn @ [c]) it'"
      using round_next [OF H] unfolding same_data_def by blast
    have "F d it A = F (data_at A c) it' A'" using u n a(1) by simp
    with a(2-4) show ?thesis by blast
  qed
qed

lemma seek_none:
  assumes F: "seeks P G E F"
  shows "in_round A R k todo dn it \<Longrightarrow> \<forall>a\<in>set todo. \<not> P (data_at A a) \<Longrightarrow>
    \<exists>d' it' A'. F d it A = E d' it' A' \<and> \<not> P d' \<and> same_data A A' \<and> adj_rel A' (R(k := dn @ todo))"
proof (induction todo arbitrary: A R dn it d)
  case Nil
  then show ?case by (simp add: in_round_def)
next
  case (Cons c t)
  have p: "\<not> P (data_at A c)" using Cons.prems(2) by simp
  obtain it' A' where n: "F d it A = F (data_at A c) it' A'" "same_data A A'" "adj_rel A' (R(k := t @ dn @ [c]))"
    "if t = [] then adj_end it' else in_round A' (R(k := t @ dn @ [c])) k t (dn @ [c]) it'"
    using seek_step(2) [OF F Cons.prems(1) p, of d] by blast
  show ?case
  proof (cases "t = []")
    case True
    then have "F d it A = E (data_at A c) it' A'" using n(1,4) F [unfolded seeks_def, rule_format, of "data_at A c" it' A'] by simp
    moreover have "adj_rel A' (R(k := dn @ c # t))" using n(3) unfolding True append_Nil .
    ultimately show ?thesis using n(2) p by blast
  next
    case False
    then have "in_round A' (R(k := t @ dn @ [c])) k t (dn @ [c]) it'" using n(4) by simp
    moreover have "\<forall>a\<in>set t. \<not> P (data_at A' a)" using Cons.prems(2) n(2) by (simp add: same_data_def)
    ultimately obtain d' it'' A'' where "F (data_at A c) it' A' = E d' it'' A''" "\<not> P d'" "same_data A' A''" "adj_rel A'' (R(k := (dn @ [c]) @ t))"
      using Cons.IH [of A' "R(k := t @ dn @ [c])" "dn @ [c]" it' "data_at A c", unfolded fun_upd_upd] by blast
    then show ?thesis unfolding n(1) append_assoc append_Cons append_Nil using same_data_trans [OF n(2)] by blast
  qed
qed

lemma seek_found:
  assumes F: "seeks P G E F"
  shows "in_round A R k (us @ c # ws) dn it \<Longrightarrow> \<forall>a\<in>set us. \<not> P (data_at A a) \<Longrightarrow> P (data_at A c) \<Longrightarrow>
    \<exists>it' A'. F d it A = G (data_at A c) it' A' \<and> same_data A A' \<and> in_round A' (R(k := c # ws @ dn @ us)) k (c # ws) (dn @ us) it'"
proof (induction us arbitrary: A R dn it d)
  case Nil
  have "R(k := c # ws @ dn) = R" using Nil.prems(1) by (auto simp: in_round_def)
  then show ?case using seek_step(1) [OF F, of A R k c ws dn it d] Nil.prems by (intro exI [of _ it] exI [of _ A]) simp
next
  case (Cons u us)
  have p: "\<not> P (data_at A u)" using Cons.prems(2) by simp
  obtain it' A' where n: "F d it A = F (data_at A u) it' A'" "same_data A A'"
    "in_round A' (R(k := (us @ c # ws) @ dn @ [u])) k (us @ c # ws) (dn @ [u]) it'"
    using seek_step(2) [OF F Cons.prems(1) [unfolded append_Cons] p, of d] by auto
  have q: "\<forall>a\<in>set us. \<not> P (data_at A' a)" "P (data_at A' c)" "data_at A' = data_at A" using Cons.prems(2,3) n(2) by (simp_all add: same_data_def)
  obtain it'' A'' where "F (data_at A u) it' A' = G (data_at A c) it'' A''" "same_data A' A''"
    "in_round A'' (R(k := c # ws @ dn @ u # us)) k (c # ws) (dn @ u # us) it''"
    using Cons.IH [OF n(3) q(1,2), of "data_at A u", unfolded fun_upd_upd append_assoc append_Cons append_Nil q(3)] by blast
  then show ?case unfolding n(1) using same_data_trans [OF n(2)] by blast
qed

section \<open>Ports as lists of listeners\<close>

text \<open>\<open>V\<close> gives the listeners of each port in the order of iteration, \<open>U\<close> whether the port may be shared; a port listens when it has listeners.\<close>

definition ports_rel :: "port_list \<Rightarrow> (nat \<Rightarrow> nat list) \<Rightarrow> (nat \<Rightarrow> monitor_sock_adjlist_t list) \<Rightarrow> (nat \<Rightarrow> int) \<Rightarrow> bool" where
  "ports_rel A R V U \<longleftrightarrow> adj_rel A R \<and> in_use (ad_index A) = {0..<65536}
     \<and> (\<forall>p<65536. V p = map (data_at A) (R p) \<and> (\<exists>nd. key_data A p = Some nd \<and> is_addrreuse nd = U p \<and> (is_listening nd \<noteq> 0 \<longleftrightarrow> R p \<noteq> [])))"

lemma ports_relD:
  assumes "ports_rel A R V U" "p < 65536"
  shows "adj_rel A R" "p \<in> in_use (ad_index A)" "V p = map (data_at A) (R p)"
    "\<exists>nd. key_data A p = Some nd \<and> is_addrreuse nd = U p \<and> (is_listening nd \<noteq> 0 \<longleftrightarrow> R p \<noteq> [])"
  using assms by (simp_all add: ports_rel_def)

lemma ports_rel_update:
  assumes P: "ports_rel A R V U" and p: "p < 65536" and R: "adj_rel A' (R(p := ys))" and u: "in_use (ad_index A') = in_use (ad_index A)"
    and d: "\<And>j a. j < 65536 \<Longrightarrow> j \<noteq> p \<Longrightarrow> a \<in> set (R j) \<Longrightarrow> data_at A' a = data_at A a"
    and k: "key_data A' = (key_data A)(p := Some nd)" "is_addrreuse nd = w" "is_listening nd \<noteq> 0 \<longleftrightarrow> ys \<noteq> []"
  shows "ports_rel A' (R(p := ys)) (V(p := map (data_at A') ys)) (U(p := w))"
proof -
  have "(V(p := map (data_at A') ys)) j = map (data_at A') ((R(p := ys)) j) \<and> (\<exists>nd. key_data A' j = Some nd \<and> is_addrreuse nd = (U(p := w)) j
      \<and> (is_listening nd \<noteq> 0 \<longleftrightarrow> (R(p := ys)) j \<noteq> []))" if "j < 65536" for j
    using ports_relD(3,4) [OF P that] d [OF that] k by (cases "j = p") simp_all
  then show ?thesis using R u P by (simp add: ports_rel_def)
qed

lemma ports_rel_same:
  assumes P: "ports_rel A R V U" and p: "p < 65536" and R: "adj_rel A' (R(p := ys))" and s: "same_data A A'" and m: "ys = [] \<longleftrightarrow> R p = []"
  shows "ports_rel A' (R(p := ys)) (V(p := map (data_at A) ys)) U"
proof -
  obtain nd where n: "key_data A p = Some nd" "is_addrreuse nd = U p" "is_listening nd \<noteq> 0 \<longleftrightarrow> R p \<noteq> []" using ports_relD(4) [OF P p] by blast
  have "(key_data A)(p := Some nd) = key_data A" "U(p := U p) = U" using n(1) by auto
  then show ?thesis using ports_rel_update [OF P p R, of nd "U p"] s n m by (simp add: same_data_def)
qed

lemma listen_rel:
  assumes P: "ports_rel (ports S) R V U" and p: "p < 65536"
  shows "V p \<noteq> [] \<Longrightarrow> U p = 0 \<Longrightarrow> listen_handler db p reuse qid S = Some (M_error (Some 98), S)"
    "V p = [] \<or> U p \<noteq> 0 \<Longrightarrow> \<exists>A' R'. listen_handler db p reuse qid S = Some (M_success, S\<lparr>ports := A'\<rparr>)
      \<and> ports_rel A' R' (V(p := \<lparr>peer_fd = - 1, peer_qid = qid, is_accepting = False\<rparr> # V p)) (if V p = [] then U(p := reuse) else U)"
proof -
  let ?A = "ports S" and ?x = "\<lparr>peer_fd = - 1, peer_qid = qid, is_accepting = False\<rparr>"
  note D = ports_relD [OF P p]
  obtain nd where n: "key_data ?A p = Some nd" "is_addrreuse nd = U p" "is_listening nd \<noteq> 0 \<longleftrightarrow> R p \<noteq> []" using D(4) by blast
  show "V p \<noteq> [] \<Longrightarrow> U p = 0 \<Longrightarrow> listen_handler db p reuse qid S = Some (M_error (Some 98), S)"
    using n D(3) by (simp add: listen_handler_def)
  assume c: "V p = [] \<or> U p \<noteq> 0"
  define nd' where "nd' = (if R p = [] then nd\<lparr>is_listening := 1, is_addrreuse := reuse\<rparr> else nd)"
  obtain B where B: "(if is_listening nd = 0 then set_key_data p (nd\<lparr>is_listening := 1, is_addrreuse := reuse\<rparr>) ?A else Some ?A) = Some B"
    "adj_rel B R" "ad_list B = ad_list ?A" "in_use (ad_index B) = in_use (ad_index ?A)" "key_data B = (key_data ?A)(p := Some nd')"
  proof (cases "R p = []")
    case True
    then show ?thesis using set_key_data_rel [OF D(1,2), of "nd\<lparr>is_listening := 1, is_addrreuse := reuse\<rparr>"] n(3) that by (auto simp: nd'_def)
  next
    case False
    then show ?thesis using that [of ?A] n D(1) by (simp add: nd'_def fun_upd_idem)
  qed
  obtain m it A' where a: "add_element db (int p) ?x B = Some (it, A')" "adj_rel A' (R(p := m # R p))" "data_at A' m = ?x"
    "in_use (ad_index A') = in_use (ad_index B)" "\<forall>a\<in>in_use (ad_list B). data_at A' a = data_at B a"
    using add_element_rel [OF B(2) D(2) [folded B(4)], of db ?x] by blast
  have eq: "data_at A' i = data_at ?A i" if "j < 65536" "i \<in> set (R j)" for i j
  proof -
    have "i \<in> in_use (ad_list B)" using adj_rel_sub [OF B(2), of j] that B(4) P by (auto simp: ports_rel_def)
    then show ?thesis using a(5) B(3) by (simp add: data_at_def)
  qed
  have "key_data A' = (key_data ?A)(p := Some nd')" using add_key_data [OF a(1)] B(5) by simp
  from ports_rel_update [OF P p a(2) _ _ this refl] have r: "ports_rel A' (R(p := m # R p)) (V(p := map (data_at A') (m # R p))) (U(p := is_addrreuse nd'))"
    using a(4) B(4) eq n(3) by (simp add: nd'_def)
  have v: "map (data_at A') (m # R p) = ?x # V p" using a(3) D(3) eq [OF p] by simp
  have w: "U(p := is_addrreuse nd') = (if V p = [] then U(p := reuse) else U)" using n(2) D(3) by (auto simp: nd'_def)
  have "listen_handler db p reuse qid S = Some (M_success, S\<lparr>ports := A'\<rparr>)"
    using n(1-3) c D(3) B(1) a(1) by (auto simp: listen_handler_def)
  with r show "\<exists>A' R'. listen_handler db p reuse qid S = Some (M_success, S\<lparr>ports := A'\<rparr>)
      \<and> ports_rel A' R' (V(p := ?x # V p)) (if V p = [] then U(p := reuse) else U)" unfolding v w by blast
qed

lemma ports_begin:
  assumes P: "ports_rel A R V U" and p: "p < 65536" and v: "V p \<noteq> []"
  shows "\<exists>nd it. key_data A p = Some nd \<and> is_addrreuse nd = U p \<and> is_listening nd \<noteq> 0 \<and> adj_begin (int p) A = Some it \<and> in_round A R p (R p) [] it"
proof -
  note D = ports_relD [OF P p]
  have "R p \<noteq> []" using D(3) v by auto
  then show ?thesis using round_begin [OF D(1,2)] D(4) by blast
qed

lemma not_listening:
  assumes P: "ports_rel A R V U" and p: "p < 65536" and v: "V p = []"
  shows "\<exists>nd. key_data A p = Some nd \<and> is_listening nd = 0"
  using ports_relD(3,4) [OF P p] v by auto

lemma ports_split:
  assumes "ports_rel A R V U" "p < 65536" "V p = us @ x # ws"
  shows "\<exists>is c js. R p = is @ c # js \<and> us = map (data_at A) is \<and> x = data_at A c \<and> ws = map (data_at A) js \<and> distinct (is @ c # js)"
proof -
  note D = ports_relD [OF assms(1,2)]
  obtain "is" c js where "R p = is @ c # js" "us = map (data_at A) is" "x = data_at A c" "ws = map (data_at A) js"
    using D(3) assms(3) by (auto simp: append_eq_map_conv Cons_eq_map_conv)
  moreover have "distinct (R p)" using adj_rel_ring [OF D(1,2)] by (simp add: ring_def)
  ultimately show ?thesis by auto
qed

lemma accept_seeks: "seeks (\<lambda>x. peer_qid x = qid) (\<lambda>x it. adj_store it (x\<lparr>is_accepting := True\<rparr>)) (\<lambda>d it. Some) (\<lambda>d. accept_scan qid)"
  unfolding seeks_def by (intro allI, rule accept_scan.simps)

lemma accept_rel:
  assumes P: "ports_rel (ports S) R V U" and p: "p < 65536"
  shows "\<forall>x\<in>set (V p). peer_qid x \<noteq> qid \<Longrightarrow> \<exists>A' R'. accept_handler p qid S = Some (S\<lparr>ports := A'\<rparr>) \<and> ports_rel A' R' V U"
    "V p = us @ x # ws \<Longrightarrow> \<forall>u\<in>set us. peer_qid u \<noteq> qid \<Longrightarrow> peer_qid x = qid \<Longrightarrow>
      \<exists>A' R'. accept_handler p qid S = Some (S\<lparr>ports := A'\<rparr>) \<and> ports_rel A' R' (V(p := x\<lparr>is_accepting := True\<rparr> # ws @ us)) U"
proof -
  let ?A = "ports S"
  note D = ports_relD [OF P p]
  assume n: "\<forall>x\<in>set (V p). peer_qid x \<noteq> qid"
  show "\<exists>A' R'. accept_handler p qid S = Some (S\<lparr>ports := A'\<rparr>) \<and> ports_rel A' R' V U"
  proof (cases "V p = []")
    case True
    then show ?thesis using not_listening [OF P p] P by (auto simp: accept_handler_def intro!: exI [of _ ?A])
  next
    case False
    from ports_begin [OF P p False] obtain nd it where b: "key_data ?A p = Some nd" "is_listening nd \<noteq> 0" "adj_begin (int p) ?A = Some it" "in_round ?A R p (R p) [] it" by blast
    have "\<forall>a\<in>set (R p). \<not> peer_qid (data_at ?A a) = qid" using n D(3) by simp
    from seek_none [OF accept_seeks b(4) this] obtain A' where a: "accept_scan qid it ?A = Some A'" "same_data ?A A'" "adj_rel A' (R(p := R p))"
      by auto
    have "ports_rel A' (R(p := R p)) (V(p := map (data_at ?A) (R p))) U" by (rule ports_rel_same [OF P p a(3,2)]) simp
    then have "ports_rel A' R V U" using D(3) by (metis fun_upd_triv)
    then show ?thesis using b a(1) by (auto simp: accept_handler_def)
  qed
next
  let ?A = "ports S"
  note D = ports_relD [OF P p]
  assume v: "V p = us @ x # ws" and n: "\<forall>u\<in>set us. peer_qid u \<noteq> qid" and q: "peer_qid x = qid"
  from ports_begin [OF P p] v obtain nd it where b: "key_data ?A p = Some nd" "is_addrreuse nd = U p" "is_listening nd \<noteq> 0" "adj_begin (int p) ?A = Some it" "in_round ?A R p (R p) [] it" by auto
  obtain "is" c js where r: "R p = is @ c # js" "us = map (data_at ?A) is" "x = data_at ?A c" "ws = map (data_at ?A) js" "distinct (is @ c # js)"
    using ports_split [OF P p v] by blast
  from seek_found [OF accept_seeks b(5) [unfolded r(1)], of qid] obtain it' B where s:
    "accept_scan qid it ?A = adj_store it' (x\<lparr>is_accepting := True\<rparr>) B" "same_data ?A B" "in_round B (R(p := c # js @ is)) p (c # js) is it'"
    using n q r by auto
  have H: "at_head B (R(p := c # js @ is)) p (hd (is @ c # js)) it'" using s(3) by (simp add: in_round_def)
  from head_store [OF H, of "x\<lparr>is_accepting := True\<rparr>"] obtain A' where a: "adj_store it' (x\<lparr>is_accepting := True\<rparr>) B = Some A'" "adj_rel A' (R(p := c # js @ is))"
    "in_use (ad_index A') = in_use (ad_index B)" "key_data A' = key_data B" "\<forall>a. data_at A' a = (if a = c then x\<lparr>is_accepting := True\<rparr> else data_at B a)" by auto
  have c: "c \<notin> set (R j)" if "j < 65536" "j \<noteq> p" for j
    using adj_rel_disjoint [OF D(1) _ D(2) that(2)] that(1) P r(1) by (auto simp: ports_rel_def)
  have "ports_rel A' (R(p := c # js @ is)) (V(p := map (data_at A') (c # js @ is))) (U(p := U p))"
  proof (rule ports_rel_update [OF P p a(2)])
    show "in_use (ad_index A') = in_use (ad_index ?A)" using a(3) s(2) by (simp add: same_data_def)
    show "data_at A' i = data_at ?A i" if "j < 65536" "j \<noteq> p" "i \<in> set (R j)" for i j
      using a(5) s(2) c [OF that(1,2)] that(3) by (auto simp: same_data_def)
    show "key_data A' = (key_data ?A)(p := Some nd)" using a(4) s(2) b(1) by (auto simp: same_data_def)
  qed (use b in auto)
  moreover have "map (data_at A') (c # js @ is) = x\<lparr>is_accepting := True\<rparr> # ws @ us"
    using a(5) s(2) r(2,4,5) by (auto simp: same_data_def)
  moreover have "accept_handler p qid S = Some (S\<lparr>ports := A'\<rparr>)" using b s(1) a(1) by (simp add: accept_handler_def)
  ultimately show "\<exists>A' R'. accept_handler p qid S = Some (S\<lparr>ports := A'\<rparr>) \<and> ports_rel A' R' (V(p := x\<lparr>is_accepting := True\<rparr> # ws @ us)) U"
    by (metis fun_upd_triv)
qed

lemma find_seeks: "seeks is_accepting (\<lambda>x it A. Some (x, it, A)) (\<lambda>d it A. Some (d, it, A)) find_accepting"
  unfolding seeks_def by (intro allI, rule find_accepting.simps)

lemma set_ptr_last:
  assumes R: "adj_rel A R" and k: "k \<in> in_use (ad_index A)" and ne: "R k \<noteq> []" and it: "ai_prev it = int (last (R k))"
  shows "\<exists>A'. set_ptr_to (int k) it A = Some A' \<and> adj_rel A' R \<and> same_data A A'"
proof -
  obtain A' where a: "set_pointer (int k) (int (last (R k))) A = Some A'" "adj_rel A' (R(k := R k))" "ad_list A' = ad_list A" "in_use (ad_index A') = in_use (ad_index A)"
    using set_pointer_rel [OF R k, of "R k" "[]"] ne by auto
  moreover have "same_data A A'" using a(3,4) set_pointer_key_data [OF a(1)] by (simp add: same_data_def data_at_def [abs_def])
  ultimately show ?thesis using it by (simp add: set_ptr_to_def)
qed

lemma advance_rel:
  assumes H: "in_round A R p (c # t) dn it"
  shows "\<exists>A'. advance_port p it A = Some A' \<and> adj_rel A' (R(p := t @ dn @ [c])) \<and> same_data A A'"
proof -
  have h: "adj_rel A R" "p \<in> in_use (ad_index A)" "R p = c # t @ dn" "ai_prev it = int (last (R p))" using H by (simp_all add: in_round_def at_head_def)
  have "R p \<noteq> []" using h(3) by simp
  from set_ptr_last [OF h(1,2) this h(4)] obtain A1 where a: "set_ptr_to (int p) it A = Some A1" "adj_rel A1 R" "same_data A A1" by blast
  have H1: "in_round A1 R p (c # t) dn it" using H a(2,3) by (auto simp: in_round_def at_head_def same_data_def)
  obtain it' A2 where n: "adj_iter_next it A1 = Some (it', A2)" "adj_rel A2 (R(p := t @ dn @ [c]))" "data_at A2 = data_at A1" "key_data A2 = key_data A1"
    "in_use (ad_index A2) = in_use (ad_index A1)" "\<not> adj_end it' \<longrightarrow> ai_prev it' = int c" using round_next [OF H1] by blast
  have s: "same_data A A2" using a(3) n(3-5) by (simp add: same_data_def)
  show ?thesis
  proof (cases "adj_end it'")
    case True
    then show ?thesis using a(1) n(1,2) s by (auto simp: advance_port_def)
  next
    case False
    have q: "p \<in> in_use (ad_index A2)" "(R(p := t @ dn @ [c])) p \<noteq> []" "ai_prev it' = int (last ((R(p := t @ dn @ [c])) p))"
      using h(2) s n(6) False by (simp_all add: same_data_def)
    from set_ptr_last [OF n(2) q] obtain A3 where "set_ptr_to (int p) it' A2 = Some A3" "adj_rel A3 (R(p := t @ dn @ [c]))" "same_data A2 A3" by blast
    then show ?thesis using a(1) n(1) False same_data_trans [OF s] by (auto simp: advance_port_def)
  qed
qed

lemma buffer_new_spec:
  assumes "shm (9837423 + current_q_counter S)"
  shows "\<exists>S'. buffer_new shm a b loc S = Some (9837423 + current_q_counter S, S') \<and> ports S' = ports S \<and> pushed S' = pushed S \<and> processes S' = processes S
    \<and> current_q_counter S' = current_q_counter S + 1 \<and> key2tid S' = (key2tid S)(9837423 + current_q_counter S \<mapsto> (a, b))
    \<and> rdma_key2qid S' = rdma_key2qid S"
  using assms by (simp add: buffer_new_def Let_def add_buf_def)

text \<open>The two ends that a key belongs to.\<close>

definition key_ends :: "bool \<Rightarrow> int \<Rightarrow> lmon \<Rightarrow> (int \<times> int) option" where
  "key_ends rdma key S = (if rdma then rdma_key2qid S key else key2tid S key)"

lemma new_buffer_spec:
  assumes "shm (9837423 + current_q_counter S)" "process_gettid qid S = Some t1" "process_gettid peer S = Some t2"
  shows "\<exists>S'. new_buffer shm rdma qid peer S = Some (9837423 + current_q_counter S, S') \<and> ports S' = ports S \<and> pushed S' = pushed S \<and> processes S' = processes S
    \<and> current_q_counter S' = current_q_counter S + 1
    \<and> key_ends rdma (9837423 + current_q_counter S) S' = Some (if rdma then (peer, qid) else (t1, t2))
    \<and> (\<forall>r k. (r, k) \<noteq> (rdma, 9837423 + current_q_counter S) \<longrightarrow> key_ends r k S' = key_ends r k S)"
proof (cases rdma)
  case True
  then show ?thesis by (auto simp: new_buffer_def buffer_new_rdma_def Let_def key_ends_def)
next
  case False
  obtain S' where "buffer_new shm t1 t2 0 S = Some (9837423 + current_q_counter S, S')" "ports S' = ports S" "pushed S' = pushed S" "processes S' = processes S"
    "current_q_counter S' = current_q_counter S + 1" "key2tid S' = (key2tid S)(9837423 + current_q_counter S \<mapsto> (t1, t2))" "rdma_key2qid S' = rdma_key2qid S"
    using buffer_new_spec [of shm S t1 t2 0] assms(1) by blast
  then show ?thesis using False assms(2,3) by (auto simp: new_buffer_def key_ends_def)
qed

lemma key_ends_simps [simp]: "key_ends r k (S\<lparr>pushed := l\<rparr>) = key_ends r k S" "key_ends r k (S\<lparr>ports := A\<rparr>) = key_ends r k S"
  by (simp_all add: key_ends_def)

lemma new_buffer_ports:
  assumes "shm (9837423 + current_q_counter S)" "process_gettid qid S = Some t1" "process_gettid peer S = Some t2"
  shows "\<exists>S'. new_buffer shm rdma qid peer (S\<lparr>ports := A\<rparr>) = Some (9837423 + current_q_counter S, S') \<and> ports S' = A \<and> pushed S' = pushed S \<and> processes S' = processes S
    \<and> current_q_counter S' = current_q_counter S + 1
    \<and> key_ends rdma (9837423 + current_q_counter S) S' = Some (if rdma then (peer, qid) else (t1, t2))
    \<and> (\<forall>r k. (r, k) \<noteq> (rdma, 9837423 + current_q_counter S) \<longrightarrow> key_ends r k S' = key_ends r k S)"
proof -
  have g: "process_gettid q (S\<lparr>ports := A\<rparr>) = process_gettid q S" for q by (simp add: process_gettid_def)
  have c: "current_q_counter (S\<lparr>ports := A\<rparr>) = current_q_counter S" "pushed (S\<lparr>ports := A\<rparr>) = pushed S" "processes (S\<lparr>ports := A\<rparr>) = processes S" "ports (S\<lparr>ports := A\<rparr>) = A" by simp_all
  show ?thesis by (rule new_buffer_spec [of shm "S\<lparr>ports := A\<rparr>" qid t1 peer t2 rdma, unfolded g c key_ends_simps, OF assms])
qed

lemma connect_none:
  assumes P: "ports_rel (ports S) R V U" and p: "p < 65536" and n: "\<forall>x\<in>set (V p). \<not> is_accepting x"
  shows "\<exists>A' R'. connect_handler shm g p fd rdma qid S = Some (M_error None, S\<lparr>ports := A'\<rparr>) \<and> ports_rel A' R' V U"
proof (cases "V p = []")
  case True
  then show ?thesis using not_listening [OF P p] P by (auto simp: connect_handler_def intro!: exI [of _ "ports S"])
next
  case False
  let ?A = "ports S"
  note D = ports_relD [OF P p]
  from ports_begin [OF P p False] obtain nd it where b: "key_data ?A p = Some nd" "is_listening nd \<noteq> 0" "adj_begin (int p) ?A = Some it" "in_round ?A R p (R p) [] it" by blast
  have "\<forall>a\<in>set (R p). \<not> is_accepting (data_at ?A a)" using n D(3) by simp
  from seek_none [OF find_seeks b(4) this, of "g\<lparr>is_accepting := False\<rparr>"] obtain d' it' A' where
    a: "find_accepting (g\<lparr>is_accepting := False\<rparr>) it ?A = Some (d', it', A')" "\<not> is_accepting d'" "same_data ?A A'" "adj_rel A' (R(p := R p))" by auto
  have "ports_rel A' (R(p := R p)) (V(p := map (data_at ?A) (R p))) U" by (rule ports_rel_same [OF P p a(4,3)]) simp
  then have "ports_rel A' R V U" using D(3) by (metis fun_upd_triv)
  then show ?thesis using b a(1,2) by (auto simp: connect_handler_def)
qed

lemma connect_found:
  assumes P: "ports_rel (ports S) R V U" and p: "p < 65536" and v: "V p = us @ x # ws" and n: "\<forall>u\<in>set us. \<not> is_accepting u" and q: "is_accepting x"
    and k: "shm (9837423 + current_q_counter S)" "process_gettid qid S = Some t1" "process_gettid (peer_qid x) S = Some t2"
  shows "\<exists>S' R'. connect_handler shm g p fd rdma qid S = Some (M_connect (9837423 + current_q_counter S) 0, S')
    \<and> ports_rel (ports S') R' (V(p := ws @ us @ [x])) U \<and> processes S' = processes S \<and> current_q_counter S' = current_q_counter S + 1
    \<and> pushed S' = pushed S @ [(peer_qid x, False, M_newconnection (9837423 + current_q_counter S) 1 fd p rdma)]
    \<and> key_ends rdma (9837423 + current_q_counter S) S' = Some (if rdma then (peer_qid x, qid) else (t1, t2))
    \<and> (\<forall>r k. (r, k) \<noteq> (rdma, 9837423 + current_q_counter S) \<longrightarrow> key_ends r k S' = key_ends r k S)"
proof -
  let ?A = "ports S" and ?key = "9837423 + current_q_counter S"
  from ports_begin [OF P p] v obtain nd it where b: "key_data ?A p = Some nd" "is_listening nd \<noteq> 0" "adj_begin (int p) ?A = Some it" "in_round ?A R p (R p) [] it" by auto
  obtain "is" c js where r: "R p = is @ c # js" "us = map (data_at ?A) is" "x = data_at ?A c" "ws = map (data_at ?A) js"
    using ports_split [OF P p v] by blast
  have m: "\<forall>a\<in>set is. \<not> is_accepting (data_at ?A a)" "is_accepting (data_at ?A c)" using n q r(2,3) by simp_all
  from seek_found [OF find_seeks b(4) [unfolded r(1)] m, of "g\<lparr>is_accepting := False\<rparr>", folded r(3), unfolded append_Nil] obtain it' B where s:
    "find_accepting (g\<lparr>is_accepting := False\<rparr>) it ?A = Some (x, it', B)" "same_data ?A B" "in_round B (R(p := c # js @ is)) p (c # js) is it'"
    by blast
  from advance_rel [OF s(3)] obtain A' where a: "advance_port p it' B = Some A'" "adj_rel A' (R(p := js @ is @ [c]))" "same_data B A'" by auto
  have "ports_rel A' (R(p := js @ is @ [c])) (V(p := map (data_at ?A) (js @ is @ [c]))) U"
    by (rule ports_rel_same [OF P p a(2) same_data_trans [OF s(2) a(3)]]) (simp add: r(1))
  then have P': "ports_rel A' (R(p := js @ is @ [c])) (V(p := ws @ us @ [x])) U" using r(2-4) by simp
  obtain S1 where w: "new_buffer shm rdma qid (peer_qid x) (S\<lparr>ports := A'\<rparr>) = Some (?key, S1)" "ports S1 = A'" "pushed S1 = pushed S" "processes S1 = processes S"
    "current_q_counter S1 = current_q_counter S + 1" "key_ends rdma ?key S1 = Some (if rdma then (peer_qid x, qid) else (t1, t2))"
    "\<forall>r k. (r, k) \<noteq> (rdma, ?key) \<longrightarrow> key_ends r k S1 = key_ends r k S"
    using new_buffer_ports [of shm S qid t1 "peer_qid x" t2 rdma A', OF k] by (elim exE conjE) (rule that)
  define S2 where "S2 = S1\<lparr>pushed := pushed S @ [(peer_qid x, False, M_newconnection ?key 1 fd p rdma)]\<rparr>"
  have f: "ports S2 = A'" "processes S2 = processes S" "current_q_counter S2 = current_q_counter S + 1"
    "pushed S2 = pushed S @ [(peer_qid x, False, M_newconnection ?key 1 fd p rdma)]" "key_ends r i S2 = key_ends r i S1" for r i
    using w(2,4,5) by (simp_all add: S2_def)
  have "push_msg (peer_qid x) False (M_newconnection ?key 1 fd p rdma) S1 = Some S2"
  proof -
    obtain pr where "at_idx (processes S) (peer_qid x) = Some pr" using k(3) by (auto simp: process_gettid_def)
    then show ?thesis unfolding push_msg_def w(3,4) S2_def by simp
  qed
  then have "connect_handler shm g p fd rdma qid S = Some (M_connect ?key 0, S2)"
    unfolding connect_handler_def b(1,3) Option.bind.bind_lunit s(1) prod.case using b(2) q a(1) w(1) by simp
  moreover have "ports_rel (ports S2) (R(p := js @ is @ [c])) (V(p := ws @ us @ [x])) U" using P' f(1) by (simp only:)
  ultimately show ?thesis using f(2-4) w(6,7) unfolding f(5) [symmetric] by (intro exI [of _ S2] exI [of _ "R(p := js @ is @ [c])"] conjI)
qed

lemma round_del_ports:
  assumes P: "ports_rel A R V U" and p: "p < 65536" and H: "in_round A R p (c # t) dn it"
  shows "\<exists>it' A' A''. del_element it A = Some (it', A') \<and> stop_if_empty p A' = Some A'' \<and> data_at A'' = data_at A
    \<and> ports_rel A'' (R(p := t @ dn)) (V(p := map (data_at A) (t @ dn))) U
    \<and> (if t @ dn = [] then adj_end it' else if t = [] then in_round A'' (R(p := t @ dn)) p dn [] it' else in_round A'' (R(p := t @ dn)) p t dn it')"
proof -
  obtain nd where n: "key_data A p = Some nd" "is_addrreuse nd = U p" "is_listening nd \<noteq> 0" using ports_relD(4) [OF P p] H by (auto simp: in_round_def)
  obtain it' A' where d: "del_element it A = Some (it', A')" "adj_rel A' (R(p := t @ dn))" "data_at A' = data_at A" "key_data A' = key_data A" "in_use (ad_index A') = in_use (ad_index A)"
    "if t @ dn = [] then adj_end it' else if t = [] then in_round A' (R(p := t @ dn)) p dn [] it' else in_round A' (R(p := t @ dn)) p t dn it'"
    using round_del [OF H] by blast
  have p': "p \<in> in_use (ad_index A')" using ports_relD(2) [OF P p] d(5) by simp
  have U: "U(p := U p) = U" by simp
  show ?thesis
  proof (cases "t @ dn = []")
    case True
    then have e: "(R(p := t @ dn)) p = []" by simp
    obtain i where i: "adj_begin (int p) A' = Some i" "adj_end i" using adj_begin_cases(1) [OF d(2) p' e] by blast
    obtain A'' where a: "set_key_data p (nd\<lparr>is_listening := 0\<rparr>) A' = Some A''" "adj_rel A'' (R(p := t @ dn))" "ad_list A'' = ad_list A'"
      "in_use (ad_index A'') = in_use (ad_index A')" "key_data A'' = (key_data A')(p := Some (nd\<lparr>is_listening := 0\<rparr>))"
      using set_key_data_rel [OF d(2) p'] by blast
    have D: "data_at A'' = data_at A" using a(3) d(3) by (simp add: data_at_def [abs_def])
    have "ports_rel A'' (R(p := t @ dn)) (V(p := map (data_at A'') (t @ dn))) (U(p := U p))"
      by (rule ports_rel_update [OF P p a(2), of "nd\<lparr>is_listening := 0\<rparr>"]) (use a(4,5) d(4,5) n(2) D True in simp_all)
    moreover have "stop_if_empty p A' = Some A''" using i a(1) n(1) d(4) by (simp add: stop_if_empty_def)
    ultimately show ?thesis using d(1,6) True D unfolding U by auto
  next
    case False
    then have "(R(p := t @ dn)) p \<noteq> []" by simp
    then obtain i where i: "adj_begin (int p) A' = Some i" "\<not> adj_end i" using adj_begin_cases(2) [OF d(2) p'] head_deref(1) by blast
    have "ports_rel A' (R(p := t @ dn)) (V(p := map (data_at A') (t @ dn))) (U(p := U p))"
      by (rule ports_rel_update [OF P p d(2), of nd]) (use d(3-5) n False in auto)
    from this [unfolded d(3) U] have "ports_rel A' (R(p := t @ dn)) (V(p := map (data_at A) (t @ dn))) U" .
    moreover have "stop_if_empty p A' = Some A'" using i by (simp add: stop_if_empty_def)
    ultimately show ?thesis using d(1,3,6) by blast
  qed
qed

lemma close_seeks: "seeks (\<lambda>x. peer_qid x = qid) (\<lambda>x it A. Option.bind (del_element it A) (\<lambda>(_, A'). stop_if_empty p A')) (\<lambda>d it. Some) (\<lambda>d. close_loop p qid)"
  unfolding seeks_def by (intro allI, rule close_loop.simps)

lemma close_none:
  assumes P: "ports_rel (ports S) R V U" and p: "p < 65536" and n: "\<forall>x\<in>set (V p). peer_qid x \<noteq> qid"
  shows "\<exists>A' R'. close_handler p qid S = Some (S\<lparr>ports := A'\<rparr>) \<and> ports_rel A' R' V U"
proof (cases "V p = []")
  case True
  then show ?thesis using not_listening [OF P p] P by (auto simp: close_handler_def intro!: exI [of _ "ports S"])
next
  case False
  let ?A = "ports S"
  note D = ports_relD [OF P p]
  from ports_begin [OF P p False] obtain nd it where b: "key_data ?A p = Some nd" "is_listening nd \<noteq> 0" "adj_begin (int p) ?A = Some it" "in_round ?A R p (R p) [] it" by blast
  have "\<forall>a\<in>set (R p). \<not> peer_qid (data_at ?A a) = qid" using n D(3) by simp
  from seek_none [OF close_seeks [of qid p] b(4) this] obtain A' where a: "close_loop p qid it ?A = Some A'" "same_data ?A A'" "adj_rel A' (R(p := R p))" by auto
  have "ports_rel A' (R(p := R p)) (V(p := map (data_at ?A) (R p))) U" by (rule ports_rel_same [OF P p a(3,2)]) simp
  then have "ports_rel A' R V U" using D(3) by (metis fun_upd_triv)
  then show ?thesis using b a(1) by (auto simp: close_handler_def)
qed

lemma close_found:
  assumes P: "ports_rel (ports S) R V U" and p: "p < 65536" and v: "V p = us @ x # ws" and n: "\<forall>u\<in>set us. peer_qid u \<noteq> qid" and q: "peer_qid x = qid"
  shows "\<exists>A' R'. close_handler p qid S = Some (S\<lparr>ports := A'\<rparr>) \<and> ports_rel A' R' (V(p := ws @ us)) U"
proof -
  let ?A = "ports S"
  from ports_begin [OF P p] v obtain nd it where b: "key_data ?A p = Some nd" "is_listening nd \<noteq> 0" "adj_begin (int p) ?A = Some it" "in_round ?A R p (R p) [] it" by auto
  obtain "is" c js where r: "R p = is @ c # js" "us = map (data_at ?A) is" "x = data_at ?A c" "ws = map (data_at ?A) js"
    using ports_split [OF P p v] by blast
  have m: "\<forall>a\<in>set is. \<not> peer_qid (data_at ?A a) = qid" "peer_qid (data_at ?A c) = qid" using n q r(2,3) by simp_all
  from seek_found [OF close_seeks [of qid p] b(4) [unfolded r(1)] m, folded r(3), unfolded append_Nil] obtain it' B where s:
    "close_loop p qid it ?A = Option.bind (del_element it' B) (\<lambda>(_, A'). stop_if_empty p A')" "same_data ?A B" "in_round B (R(p := c # js @ is)) p (c # js) is it'"
    by blast
  have "adj_rel B (R(p := c # js @ is))" using s(3) by (simp add: in_round_def at_head_def)
  then have PB: "ports_rel B (R(p := c # js @ is)) (V(p := map (data_at ?A) (c # js @ is))) U"
    by (rule ports_rel_same [OF P p _ s(2)]) (simp add: r(1))
  obtain it1 A1 A2 where d: "del_element it' B = Some (it1, A1)" "stop_if_empty p A1 = Some A2"
    "ports_rel A2 (R(p := js @ is)) (V(p := map (data_at B) (js @ is))) U"
    using round_del_ports [OF PB p s(3), unfolded fun_upd_upd] by blast
  have "close_handler p qid S = Some (S\<lparr>ports := A2\<rparr>)" using b s(1) d(1,2) by (simp add: close_handler_def)
  moreover have "map (data_at B) (js @ is) = ws @ us" using s(2) r(2,4) by (simp add: same_data_def)
  ultimately show ?thesis using d(3) by auto
qed

text \<open>Garbage collection keeps the listeners that are alive, in their cyclic order.\<close>

definition rotated :: "'c list \<Rightarrow> 'c list \<Rightarrow> bool" where
  "rotated xs ys \<longleftrightarrow> (\<exists>us vs. xs = us @ vs \<and> ys = vs @ us)"

lemma rotated_refl [simp]: "rotated xs xs"
  unfolding rotated_def by (intro exI [of _ xs] exI [of _ "[]"]) simp

lemma rotated_snoc: "rotated (xs @ [x]) ys \<Longrightarrow> rotated (x # xs) ys"
proof -
  assume "rotated (xs @ [x]) ys"
  then obtain us vs where r: "xs @ [x] = us @ vs" "ys = vs @ us" by (auto simp: rotated_def)
  show "rotated (x # xs) ys"
  proof (cases vs rule: rev_cases)
    case Nil
    then show ?thesis unfolding rotated_def using r by (intro exI [of _ "[x]"] exI [of _ xs]) simp
  next
    case (snoc ws w)
    then show ?thesis unfolding rotated_def using r by (intro exI [of _ "x # us"] exI [of _ ws]) simp
  qed
qed

lemma rotated_map: "rotated xs ys \<Longrightarrow> rotated (map f xs) (map f ys)"
  unfolding rotated_def by (metis map_append)

lemma rotated_set: "rotated xs ys \<Longrightarrow> set ys = set xs \<and> length ys = length xs"
  by (auto simp: rotated_def)

lemma gc_loop_rel:
  assumes p: "p < 65536" and ex: "\<And>q. exist q = Some (live q)"
  shows "ports_rel A R V U \<Longrightarrow> in_round A R p todo dn it \<Longrightarrow> list_all (\<lambda>a. live (peer_qid (data_at A a))) dn \<Longrightarrow>
    \<exists>A' ys. gc_loop exist p it A = Some A' \<and> ports_rel A' (R(p := ys)) (V(p := map (data_at A) ys)) U
      \<and> rotated (filter (\<lambda>a. live (peer_qid (data_at A a))) (todo @ dn)) ys"
proof (induction "(length todo + length dn) * (length todo + length dn) + length todo" arbitrary: A R V todo dn it rule: less_induct)
  case less
  obtain c t where c: "todo = c # t" using less.prems(2) by (cases todo) (auto simp: in_round_def)
  note H = less.prems(2) [unfolded c]
  have h: "\<not> adj_end it" "adj_deref A it = Some (data_at A c)"
    using head_deref [of A R p "hd (dn @ c # t)" it] H by (simp_all add: in_round_def)
  have e: "exist (peer_qid (data_at A c)) = Some (live (peer_qid (data_at A c)))" by (rule ex)
  show ?case
  proof (cases "live (peer_qid (data_at A c))")
    case True
    obtain it' A' where n: "adj_iter_next it A = Some (it', A')" "adj_rel A' (R(p := t @ dn @ [c]))" "same_data A A'"
      "if t = [] then adj_end it' else in_round A' (R(p := t @ dn @ [c])) p t (dn @ [c]) it'"
      using round_next [OF H] unfolding same_data_def by blast
    have g: "gc_loop exist p it A = gc_loop exist p it' A'" using h e n(1) True by (subst gc_loop.simps) simp
    have P: "ports_rel A' (R(p := t @ dn @ [c])) (V(p := map (data_at A) (t @ dn @ [c]))) U"
      by (rule ports_rel_same [OF less.prems(1) p n(2,3)]) (use H in \<open>simp add: in_round_def\<close>)
    have D: "data_at A' = data_at A" using n(3) by (simp add: same_data_def)
    have l: "list_all (\<lambda>a. live (peer_qid (data_at A a))) (dn @ [c])" using less.prems(3) True by simp
    show ?thesis
    proof (cases "t = []")
      case t: True
      have "gc_loop exist p it' A' = Some A'" using n(4) t by (subst gc_loop.simps) simp
      moreover have "filter (\<lambda>a. live (peer_qid (data_at A a))) (dn @ [c]) = dn @ [c]" using l by (simp add: list_all_iff filter_id_conv)
      then have "rotated (filter (\<lambda>a. live (peer_qid (data_at A a))) (todo @ dn)) (dn @ [c])"
        using c t True by (auto intro!: rotated_snoc)
      ultimately show ?thesis using P [unfolded t append_Nil] unfolding g by blast
    next
      case False
      then have I: "in_round A' (R(p := t @ dn @ [c])) p t (dn @ [c]) it'" using n(4) by simp
      obtain A2 ys where "gc_loop exist p it' A' = Some A2" "ports_rel A2 (R(p := ys)) (V(p := map (data_at A) ys)) U"
        "rotated (filter (\<lambda>a. live (peer_qid (data_at A a))) (t @ dn @ [c])) ys"
        using less.hyps [OF _ P I, unfolded D fun_upd_upd, OF _ l] c by auto
      then show ?thesis using g c True by (auto intro!: rotated_snoc)
    qed
  next
    case False
    obtain it' A' A'' where d: "del_element it A = Some (it', A')" "stop_if_empty p A' = Some A''" "data_at A'' = data_at A"
      "ports_rel A'' (R(p := t @ dn)) (V(p := map (data_at A) (t @ dn))) U"
      "if t @ dn = [] then adj_end it' else if t = [] then in_round A'' (R(p := t @ dn)) p dn [] it' else in_round A'' (R(p := t @ dn)) p t dn it'"
      using round_del_ports [OF less.prems(1) p H] by blast
    have g: "gc_loop exist p it A = gc_loop exist p it' A''" using h e d(1,2) False by (subst gc_loop.simps) simp
    have f: "filter (\<lambda>a. live (peer_qid (data_at A a))) (todo @ dn) = filter (\<lambda>a. live (peer_qid (data_at A a))) (t @ dn)" using c False by simp
    consider "t @ dn = []" | "t = []" "dn \<noteq> []" | "t \<noteq> []" by auto
    then show ?thesis
    proof cases
      case 1
      then have "gc_loop exist p it' A'' = Some A''" using d(5) by (subst gc_loop.simps) simp
      then show ?thesis using g d(4) 1 f by (intro exI [of _ A''] exI [of _ "[]"]) simp
    next
      case 2
      then have I: "in_round A'' (R(p := t @ dn)) p dn [] it'" using d(5) by simp
      obtain A2 ys where "gc_loop exist p it' A'' = Some A2" "ports_rel A2 (R(p := ys)) (V(p := map (data_at A) ys)) U"
        "rotated (filter (\<lambda>a. live (peer_qid (data_at A a))) dn) ys"
        using less.hyps [OF _ d(4) I, unfolded d(3) fun_upd_upd] c 2 by auto
      then show ?thesis using g f 2 by auto
    next
      case 3
      then have I: "in_round A'' (R(p := t @ dn)) p t dn it'" using d(5) by simp
      obtain A2 ys where "gc_loop exist p it' A'' = Some A2" "ports_rel A2 (R(p := ys)) (V(p := map (data_at A) ys)) U"
        "rotated (filter (\<lambda>a. live (peer_qid (data_at A a))) (t @ dn)) ys"
        using less.hyps [OF _ d(4) I, unfolded d(3) fun_upd_upd, OF _ less.prems(3)] c by auto
      then show ?thesis using g f by auto
    qed
  qed
qed

lemma gc_port_rel:
  assumes P: "ports_rel A R V U" and p: "p < 65536" and ex: "\<And>q. exist q = Some (live q)"
  shows "\<exists>A' ys xs. gc_port exist p A = Some A' \<and> ports_rel A' (R(p := ys)) (V(p := xs)) U \<and> rotated (filter (\<lambda>x. live (peer_qid x)) (V p)) xs"
proof (cases "V p = []")
  case True
  then have "V(p := []) = V" "R(p := R p) = R" by auto
  then have "ports_rel A (R(p := R p)) (V(p := [])) U" using P by simp
  moreover have "gc_port exist p A = Some A" using not_listening [OF P p True] by (auto simp: gc_port_def)
  moreover have "rotated (filter (\<lambda>x. live (peer_qid x)) (V p)) []" using True by simp
  ultimately show ?thesis by blast
next
  case False
  from ports_begin [OF P p False] obtain nd it where b: "key_data A p = Some nd" "is_listening nd \<noteq> 0" "adj_begin (int p) A = Some it" "in_round A R p (R p) [] it" by blast
  obtain A' ys where g: "gc_loop exist p it A = Some A'" "ports_rel A' (R(p := ys)) (V(p := map (data_at A) ys)) U"
    "rotated (filter (\<lambda>a. live (peer_qid (data_at A a))) (R p)) ys"
    using gc_loop_rel [where exist = exist and live = live, OF p ex P b(4)] by auto
  have "rotated (filter (\<lambda>x. live (peer_qid x)) (V p)) (map (data_at A) ys)"
    using rotated_map [OF g(3), of "data_at A"] ports_relD(3) [OF P p] by (simp add: filter_map comp_def)
  then show ?thesis using g(1,2) b by (auto simp: gc_port_def)
qed

lemma gc_ports_rel:
  assumes ex: "\<And>q. exist q = Some (live q)"
  shows "ports_rel A R V U \<Longrightarrow> list_all (\<lambda>p. p < 65536) ps \<Longrightarrow> distinct ps \<Longrightarrow>
    \<exists>A' R' V'. gc_ports exist ps A = Some A' \<and> ports_rel A' R' V' U
      \<and> (\<forall>p. if p \<in> set ps then rotated (filter (\<lambda>x. live (peer_qid x)) (V p)) (V' p) else V' p = V p)"
proof (induction ps arbitrary: A R V)
  case Nil
  then show ?case by auto
next
  case (Cons p ps)
  have p: "p < 65536" using Cons.prems(2) by simp
  obtain A1 ys xs where g: "gc_port exist p A = Some A1" "ports_rel A1 (R(p := ys)) (V(p := xs)) U" "rotated (filter (\<lambda>x. live (peer_qid x)) (V p)) xs"
    using gc_port_rel [where exist = exist and live = live, OF Cons.prems(1) p ex] by blast
  obtain A' R' V' where r: "gc_ports exist ps A1 = Some A'" "ports_rel A' R' V' U"
    "\<forall>q. if q \<in> set ps then rotated (filter (\<lambda>x. live (peer_qid x)) ((V(p := xs)) q)) (V' q) else V' q = (V(p := xs)) q"
    using Cons.IH [OF g(2)] Cons.prems(2,3) by auto
  have "if q \<in> set (p # ps) then rotated (filter (\<lambda>x. live (peer_qid x)) (V q)) (V' q) else V' q = V q" for q
    using r(3) [rule_format, of q] g(3) Cons.prems(3) by (cases "q = p") auto
  moreover have "gc_ports exist (p # ps) A = Some A'" using g(1) r(1) by simp
  ultimately show ?case using r(2) by blast
qed

definition qid_alive :: "int \<Rightarrow> lmon \<Rightarrow> bool" where
  "qid_alive q S \<longleftrightarrow> 0 \<le> q \<and> nat q \<in> in_use (processes S)"

lemma isexist_total: "darray_ok (processes S) \<Longrightarrow> process_isexist q S = Some (qid_alive q S)"
  by (auto simp: process_isexist_def qid_alive_def valid_idx_def darray_isvalid_def slot_valid_def darray_ok_def in_use_def)

lemma resource_gc_rel:
  assumes P: "ports_rel (ports S) R V U" and d: "darray_ok (processes S)"
  shows "\<exists>A' R' V'. sock_resource_gc S = Some (S\<lparr>ports := A'\<rparr>) \<and> ports_rel A' R' V' U
    \<and> (\<forall>p<65536. rotated (filter (\<lambda>x. qid_alive (peer_qid x) S) (V p)) (V' p))"
proof -
  obtain A' R' V' where g: "gc_ports (\<lambda>q. process_isexist q S) [0..<65536] (ports S) = Some A'" "ports_rel A' R' V' U"
    "\<forall>p. if p \<in> set [0..<65536] then rotated (filter (\<lambda>x. qid_alive (peer_qid x) S) (V p)) (V' p) else V' p = V p"
    using gc_ports_rel [where exist = "\<lambda>q. process_isexist q S" and live = "\<lambda>q. qid_alive q S", OF isexist_total [OF d] P, of "[0..<65536]"]
    by (auto simp: list_all_iff simp del: upt_rec_numeral)
  have "sock_resource_gc S = Some (S\<lparr>ports := A'\<rparr>)" unfolding sock_resource_gc_def g(1) by simp
  moreover have "rotated (filter (\<lambda>x. qid_alive (peer_qid x) S) (V p)) (V' p)" if "p < 65536" for p
    using g(3) [rule_format, of p] that by (simp del: upt_rec_numeral)
  ultimately show ?thesis using g(2) by blast
qed

section \<open>Start\<close>

text \<open>An array filled from the bottom.\<close>

definition filled :: "nat \<Rightarrow> 'c darray \<Rightarrow> bool" where
  "filled k d \<longleftrightarrow> darray_ok d \<and> in_use d = {0..<k} \<and> lowest_available d = k"

lemma add_filled:
  assumes F: "filled k d"
  shows "\<exists>d'. darray_add dflt x d = Some (k, d') \<and> filled (Suc k) d' \<and> (\<forall>i\<le>k. darray_get d' i = (if i < k then darray_get d i else Some x))"
proof -
  have ok: "darray_ok d" "in_use d = {0..<k}" "lowest_available d = k" using F by (simp_all add: filled_def)
  obtain i d' where a: "darray_add dflt x d = Some (i, d')" "darray_ok d'" "in_use d' = insert i (in_use d)" "darray_get d' i = Some x"
    "\<forall>j\<in>in_use d. darray_get d' j = darray_get d j" using add_ok [OF ok(1), of dflt x] by blast
  have n: "length (d_data d) = d_size d" "total_num d = k" "k < d_size d" using ok by (auto simp: darray_ok_def)
  let ?xs = "(d_data d)[k := (x, True)]"
  let ?sz = "if d_size d \<le> k + 1 then 2 * d_size d else d_size d" and ?ys = "if d_size d \<le> k + 1 then resize dflt (2 * d_size d) ?xs else ?xs"
  have ly: "length ?ys = ?sz" "Suc k < ?sz" using n by (auto simp: resize_nth)
  have "\<not> snd (?ys ! Suc k)"
  proof (cases "d_size d \<le> k + 1")
    case True
    then show ?thesis using n by (simp add: resize_nth)
  next
    case False
    then have "Suc k < length (d_data d)" "Suc k \<notin> in_use d" using n ok(2) by auto
    then show ?thesis using False by (simp add: in_use_def)
  qed
  then have "next_free ?ys ?sz k = Some (Suc k)" using ly by (subst next_free.simps) (simp only: Let_def slot_valid_def, simp)
  then have "i = k" "lowest_available d' = Suc k"
    using a(1) n ok(3) by (auto simp: darray_add_def Let_def split: if_splits)
  then show ?thesis using a ok(2) by (auto simp: filled_def atLeastLessThanSuc)
qed

lemma add_keys_filled:
  "filled k d \<Longrightarrow> \<exists>d'. add_keys da n e d = Some d' \<and> filled (k + n) d' \<and> (\<forall>i<k + n. darray_get d' i = (if i < k then darray_get d i else Some e))"
proof (induction n arbitrary: k d)
  case 0
  then show ?case by simp
next
  case (Suc n)
  obtain d1 where a: "darray_add da e d = Some (k, d1)" "filled (Suc k) d1" "\<forall>i\<le>k. darray_get d1 i = (if i < k then darray_get d i else Some e)"
    using add_filled [OF Suc.prems, of da e] by blast
  obtain d' where b: "add_keys da n e d1 = Some d'" "filled (Suc k + n) d'" "\<forall>i<Suc k + n. darray_get d' i = (if i < Suc k then darray_get d1 i else Some e)"
    using Suc.IH [OF a(2)] by blast
  have "darray_get d' i = (if i < k then darray_get d i else Some e)" if "i < k + Suc n" for i
    using a(3) b(3) that by (cases "i \<le> k") auto
  then show ?case using a(1) b(1,2) by auto
qed

definition mon_ok :: "lmon \<Rightarrow> (nat \<Rightarrow> monitor_sock_adjlist_t list) \<Rightarrow> (nat \<Rightarrow> int) \<Rightarrow> bool" where
  "mon_ok S V U \<longleftrightarrow> (\<exists>R. ports_rel (ports S) R V U) \<and> darray_ok (processes S)"

lemma monitor_starts:
  assumes "ports S = \<lparr>ad_index = new_darray dx 65536, ad_list = new_darray dy 1000\<rparr>" "darray_ok (processes S)"
  shows "\<exists>S'. sock_monitor_init da S = Some S' \<and> mon_ok S' (\<lambda>_. []) (\<lambda>_. 0) \<and> processes S' = processes S \<and> pushed S' = pushed S
    \<and> current_q_counter S' = current_q_counter S"
proof -
  let ?nd = "\<lparr>is_listening = 0, is_blocking = 1, is_addrreuse = 0\<rparr>" and ?d = "darray_init da 65536 (new_darray dx 65536)"
  have "filled 0 ?d"
    by (auto simp: filled_def darray_ok_def darray_init_def new_darray_def in_use_def resize_def)
  from add_keys_filled [OF this, where da = da and n = 65536 and e = "\<lparr>ix_data = ?nd, ix_pointer = - 1\<rparr>"]
  obtain d where d: "add_keys da 65536 \<lparr>ix_data = ?nd, ix_pointer = - 1\<rparr> ?d = Some d" "filled 65536 d"
    "\<forall>i<65536. darray_get d i = Some \<lparr>ix_data = ?nd, ix_pointer = - 1\<rparr>" by auto
  let ?A = "\<lparr>ad_index = d, ad_list = new_darray dy 1000\<rparr>"
  have "adj_rel ?A (\<lambda>_. [])"
    using d(2,3) new_darray_ok [of 1000 dy] by (auto simp: adj_rel_def filled_def ring_def key_ptr_def ptr_of_def)
  then have "ports_rel ?A (\<lambda>_. []) (\<lambda>_. []) (\<lambda>_. 0)" using d(2,3) by (auto simp: ports_rel_def filled_def key_data_def)
  moreover have "sock_monitor_init da S = Some (S\<lparr>ports := ?A\<rparr>)"
    using d(1) assms(1) by (simp add: sock_monitor_init_def adj_init_def)
  ultimately show ?thesis using assms(2) by (auto simp: mon_ok_def)
qed

section \<open>Properties\<close>

text \<open>What the handlers do to the listeners of a port: accept marks the first listener of the process, close removes it, and both leave the ring's pointer before it.\<close>

definition accept_in :: "int \<Rightarrow> monitor_sock_adjlist_t list \<Rightarrow> monitor_sock_adjlist_t list" where
  "accept_in qid xs = (case dropWhile (\<lambda>x. peer_qid x \<noteq> qid) xs of [] \<Rightarrow> xs
     | x # ws \<Rightarrow> x\<lparr>is_accepting := True\<rparr> # ws @ takeWhile (\<lambda>x. peer_qid x \<noteq> qid) xs)"

definition close_in :: "int \<Rightarrow> monitor_sock_adjlist_t list \<Rightarrow> monitor_sock_adjlist_t list" where
  "close_in qid xs = (case dropWhile (\<lambda>x. peer_qid x \<noteq> qid) xs of [] \<Rightarrow> xs | _ # ws \<Rightarrow> ws @ takeWhile (\<lambda>x. peer_qid x \<noteq> qid) xs)"

lemma split_first_match:
  obtains "dropWhile (\<lambda>x. \<not> P x) xs = []" "\<forall>x\<in>set xs. \<not> P x"
  | x ws where "dropWhile (\<lambda>x. \<not> P x) xs = x # ws" "xs = takeWhile (\<lambda>x. \<not> P x) xs @ x # ws" "\<forall>u\<in>set (takeWhile (\<lambda>x. \<not> P x) xs). \<not> P u" "P x"
proof (cases "dropWhile (\<lambda>x. \<not> P x) xs")
  case Nil
  then show thesis using that(1) by simp
next
  case (Cons x ws)
  moreover have "P x" using Cons by (metis dropWhile_eq_Cons_conv)
  moreover have "xs = takeWhile (\<lambda>x. \<not> P x) xs @ x # ws" using takeWhile_dropWhile_id [of "\<lambda>x. \<not> P x" xs] Cons by simp
  moreover have "\<forall>u\<in>set (takeWhile (\<lambda>x. \<not> P x) xs). \<not> P u" by (auto dest: set_takeWhileD)
  ultimately show thesis using that(2) by blast
qed

lemma mon_ok_ports: "mon_ok S V U \<Longrightarrow> ports_rel A R V' U' \<Longrightarrow> mon_ok (S\<lparr>ports := A\<rparr>) V' U'"
  by (auto simp: mon_ok_def)

lemma accept_spec:
  assumes M: "mon_ok S V U" and p: "p < 65536"
  shows "\<exists>A. accept_handler p qid S = Some (S\<lparr>ports := A\<rparr>) \<and> mon_ok (S\<lparr>ports := A\<rparr>) (V(p := accept_in qid (V p))) U"
proof -
  obtain R where P: "ports_rel (ports S) R V U" using M by (auto simp: mon_ok_def)
  show ?thesis
  proof (rule split_first_match [of "\<lambda>x. peer_qid x = qid" "V p"])
    assume c: "dropWhile (\<lambda>x. peer_qid x \<noteq> qid) (V p) = []" "\<forall>x\<in>set (V p). peer_qid x \<noteq> qid"
    have "V(p := accept_in qid (V p)) = V" unfolding accept_in_def c(1) by simp
    then show ?thesis using accept_rel(1) [OF P p c(2)] mon_ok_ports [OF M] by metis
  next
    fix x ws assume c: "dropWhile (\<lambda>x. peer_qid x \<noteq> qid) (V p) = x # ws" "V p = takeWhile (\<lambda>x. peer_qid x \<noteq> qid) (V p) @ x # ws"
      "\<forall>u\<in>set (takeWhile (\<lambda>x. peer_qid x \<noteq> qid) (V p)). peer_qid u \<noteq> qid" "peer_qid x = qid"
    have e: "accept_in qid (V p) = x\<lparr>is_accepting := True\<rparr> # ws @ takeWhile (\<lambda>x. peer_qid x \<noteq> qid) (V p)" using c(1) by (simp add: accept_in_def)
    show ?thesis using accept_rel(2) [OF P p c(2-4)] mon_ok_ports [OF M] unfolding e by blast
  qed
qed

lemma close_spec:
  assumes M: "mon_ok S V U" and p: "p < 65536"
  shows "\<exists>A. close_handler p qid S = Some (S\<lparr>ports := A\<rparr>) \<and> mon_ok (S\<lparr>ports := A\<rparr>) (V(p := close_in qid (V p))) U"
proof -
  obtain R where P: "ports_rel (ports S) R V U" using M by (auto simp: mon_ok_def)
  show ?thesis
  proof (rule split_first_match [of "\<lambda>x. peer_qid x = qid" "V p"])
    assume c: "dropWhile (\<lambda>x. peer_qid x \<noteq> qid) (V p) = []" "\<forall>x\<in>set (V p). peer_qid x \<noteq> qid"
    have "V(p := close_in qid (V p)) = V" unfolding close_in_def c(1) by simp
    then show ?thesis using close_none [OF P p c(2)] mon_ok_ports [OF M] by metis
  next
    fix x ws assume c: "dropWhile (\<lambda>x. peer_qid x \<noteq> qid) (V p) = x # ws" "V p = takeWhile (\<lambda>x. peer_qid x \<noteq> qid) (V p) @ x # ws"
      "\<forall>u\<in>set (takeWhile (\<lambda>x. peer_qid x \<noteq> qid) (V p)). peer_qid u \<noteq> qid" "peer_qid x = qid"
    have e: "close_in qid (V p) = ws @ takeWhile (\<lambda>x. peer_qid x \<noteq> qid) (V p)" using c(1) by (simp add: close_in_def)
    show ?thesis using close_found [OF P p c(2-4)] mon_ok_ports [OF M] unfolding e by blast
  qed
qed

lemma listen_spec:
  assumes M: "mon_ok S V U" and p: "p < 65536"
  shows "if V p \<noteq> [] \<and> U p = 0 then listen_handler db p reuse qid S = Some (M_error (Some 98), S)
    else \<exists>A. listen_handler db p reuse qid S = Some (M_success, S\<lparr>ports := A\<rparr>)
      \<and> mon_ok (S\<lparr>ports := A\<rparr>) (V(p := \<lparr>peer_fd = - 1, peer_qid = qid, is_accepting = False\<rparr> # V p)) (if V p = [] then U(p := reuse) else U)"
proof -
  obtain R where P: "ports_rel (ports S) R V U" using M by (auto simp: mon_ok_def)
  show ?thesis
  proof (cases "V p \<noteq> [] \<and> U p = 0")
    case True
    then show ?thesis using listen_rel(1) [OF P p] by simp
  next
    case False
    then have c: "V p = [] \<or> U p \<noteq> 0" by blast
    show ?thesis unfolding if_not_P [OF False] using listen_rel(2) [OF P p c, of db reuse qid] mon_ok_ports [OF M] by blast
  qed
qed

text \<open>
  C39. The ports of the legacy monitor behave as lists of listeners. For a port below 65536: listening is refused with \<^verbatim>\<open>EADDRINUSE\<close> exactly when the port has a listener
  and may not be shared, and otherwise adds a listener in front; accept marks the process's first listener and close removes it, and without
  one nothing changes; garbage collection keeps exactly the listeners whose process is alive, in their cyclic order, on every port. Each handler returns,
  no access leaves the arrays although the loops delete from the rings they run over, every other port stays as it is, and a port is marked as listening exactly
  when it has listeners.
\<close>

theorem ports_refine_lists:
  assumes "mon_ok S V U" "p < 65536"
  shows "(if V p \<noteq> [] \<and> U p = 0 then listen_handler db p reuse qid S = Some (M_error (Some 98), S)
      else \<exists>A. listen_handler db p reuse qid S = Some (M_success, S\<lparr>ports := A\<rparr>)
        \<and> mon_ok (S\<lparr>ports := A\<rparr>) (V(p := \<lparr>peer_fd = - 1, peer_qid = qid, is_accepting = False\<rparr> # V p)) (if V p = [] then U(p := reuse) else U))
    \<and> (\<exists>A. accept_handler p qid S = Some (S\<lparr>ports := A\<rparr>) \<and> mon_ok (S\<lparr>ports := A\<rparr>) (V(p := accept_in qid (V p))) U)
    \<and> (\<exists>A. close_handler p qid S = Some (S\<lparr>ports := A\<rparr>) \<and> mon_ok (S\<lparr>ports := A\<rparr>) (V(p := close_in qid (V p))) U)
    \<and> (\<exists>A V'. sock_resource_gc S = Some (S\<lparr>ports := A\<rparr>) \<and> mon_ok (S\<lparr>ports := A\<rparr>) V' U
        \<and> (\<forall>p<65536. rotated (filter (\<lambda>x. qid_alive (peer_qid x) S) (V p)) (V' p)))"
proof (intro conjI, goal_cases)
  case 1
  show ?case by (rule listen_spec [OF assms])
next
  case 2
  show ?case by (rule accept_spec [OF assms])
next
  case 3
  show ?case by (rule close_spec [OF assms])
next
  case 4
  show ?case using assms(1) resource_gc_rel [of S] mon_ok_ports [OF assms(1)] unfolding mon_ok_def by blast
qed

text \<open>A run of connection requests: the fd, whether it is over RDMA, and the process of each.\<close>

fun connects :: "(int \<Rightarrow> bool) \<Rightarrow> monitor_sock_adjlist_t \<Rightarrow> nat \<Rightarrow> (int \<times> bool \<times> int) list \<Rightarrow> lmon \<Rightarrow> (mon_msg list \<times> lmon) option" where
  "connects shm g p [] S = Some ([], S)"
| "connects shm g p ((fd, rdma, qid) # rs) S = do {
     (m, S1) \<leftarrow> connect_handler shm g p fd rdma qid S;
     (ms, S2) \<leftarrow> connects shm g p rs S1;
     Some (m # ms, S2) }"

lemma connects_snoc:
  "connects shm g p (rs @ [(fd, rdma, qid)]) S = do {
     (ms, S1) \<leftarrow> connects shm g p rs S;
     (m, S2) \<leftarrow> connect_handler shm g p fd rdma qid S1;
     Some (ms @ [m], S2) }"
  by (induction rs arbitrary: S) (auto split: Option.bind_splits)

definition first_key :: "lmon \<Rightarrow> int" where
  "first_key S = 9837423 + current_q_counter S"

text \<open>The listener of request \<open>i\<close>, what the monitor pushes to it, and the two ends of the request's key.\<close>

definition nth_listener :: "monitor_sock_adjlist_t list \<Rightarrow> nat \<Rightarrow> monitor_sock_adjlist_t" where
  "nth_listener xs i = xs ! (i mod length xs)"

definition nth_push :: "nat \<Rightarrow> int \<Rightarrow> monitor_sock_adjlist_t list \<Rightarrow> (int \<times> bool \<times> int) list \<Rightarrow> nat \<Rightarrow> int \<times> bool \<times> mon_msg" where
  "nth_push p k xs rs i = (case rs ! i of (fd, rdma, _) \<Rightarrow> (peer_qid (nth_listener xs i), False, M_newconnection (k + int i) 1 fd p rdma))"

definition nth_ends :: "lmon \<Rightarrow> monitor_sock_adjlist_t list \<Rightarrow> (int \<times> bool \<times> int) list \<Rightarrow> nat \<Rightarrow> (int \<times> int) option" where
  "nth_ends S xs rs i = (case rs ! i of (_, rdma, qid) \<Rightarrow>
     if rdma then Some (peer_qid (nth_listener xs i), qid)
     else (case (process_gettid qid S, process_gettid (peer_qid (nth_listener xs i)) S) of (Some a, Some b) \<Rightarrow> Some (a, b) | _ \<Rightarrow> None))"

lemma connects_run:
  assumes M: "mon_ok S V U" and p: "p < 65536" and ne: "V p \<noteq> []" and acc: "\<forall>x\<in>set (V p). is_accepting x \<and> process_gettid (peer_qid x) S \<noteq> None" and shm: "\<forall>k. shm k"
  shows "\<forall>(_, _, qid)\<in>set rs. process_gettid qid S \<noteq> None \<Longrightarrow>
    \<exists>S'. connects shm g p rs S = Some (map (\<lambda>i. M_connect (first_key S + int i) 0) [0..<length rs], S')
      \<and> mon_ok S' (V(p := rotate (length rs) (V p))) U \<and> processes S' = processes S \<and> current_q_counter S' = current_q_counter S + int (length rs)
      \<and> pushed S' = pushed S @ map (nth_push p (first_key S) (V p) rs) [0..<length rs]
      \<and> (\<forall>i<length rs. key_ends (fst (snd (rs ! i))) (first_key S + int i) S' = nth_ends S (V p) rs i)"
proof (induction rs rule: rev_induct)
  case Nil
  then show ?case using M by simp
next
  case (snoc r rs)
  obtain fd rdma qid where r: "r = (fd, rdma, qid)" by (cases r) auto
  let ?n = "length rs" and ?x = "nth_listener (V p) (length rs)"
  have pre: "\<forall>(_, _, qid)\<in>set rs. process_gettid qid S \<noteq> None" using snoc.prems by simp
  obtain S1 where c: "connects shm g p rs S = Some (map (\<lambda>i. M_connect (first_key S + int i) 0) [0..<?n], S1)"
    "mon_ok S1 (V(p := rotate ?n (V p))) U" "processes S1 = processes S" "current_q_counter S1 = current_q_counter S + int ?n"
    "pushed S1 = pushed S @ map (nth_push p (first_key S) (V p) rs) [0..<?n]"
    "\<forall>i<?n. key_ends (fst (snd (rs ! i))) (first_key S + int i) S1 = nth_ends S (V p) rs i"
    using snoc.IH [OF pre] by blast
  obtain R where P: "ports_rel (ports S1) R (V(p := rotate ?n (V p))) U" using c(2) by (auto simp: mon_ok_def)
  have hd: "?x = hd (rotate ?n (V p))" using ne by (simp add: nth_listener_def hd_rotate_conv_nth)
  have v: "(V(p := rotate ?n (V p))) p = [] @ ?x # tl (rotate ?n (V p))" using ne unfolding hd by simp
  have x: "?x \<in> set (V p)" using ne by (simp add: nth_listener_def)
  obtain t1 t2 where t: "process_gettid qid S1 = Some t1" "process_gettid (peer_qid ?x) S1 = Some t2" "process_gettid qid S = Some t1" "process_gettid (peer_qid ?x) S = Some t2"
    using snoc.prems acc x r c(3) by (auto simp: process_gettid_def)
  have k: "9837423 + current_q_counter S1 = first_key S + int ?n" using c(4) by (simp add: first_key_def)
  have s: "shm (9837423 + current_q_counter S1)" "\<forall>u\<in>set []. \<not> is_accepting u" "is_accepting ?x" using shm acc x by auto
  obtain S2 R' where f: "connect_handler shm g p fd rdma qid S1 = Some (M_connect (first_key S + int ?n) 0, S2)"
    "ports_rel (ports S2) R' (V(p := rotate ?n (V p), p := tl (rotate ?n (V p)) @ [] @ [?x])) U" "processes S2 = processes S1"
    "current_q_counter S2 = current_q_counter S1 + 1" "pushed S2 = pushed S1 @ [(peer_qid ?x, False, M_newconnection (first_key S + int ?n) 1 fd p rdma)]"
    "key_ends rdma (first_key S + int ?n) S2 = Some (if rdma then (peer_qid ?x, qid) else (t1, t2))"
    "\<forall>r k. (r, k) \<noteq> (rdma, first_key S + int ?n) \<longrightarrow> key_ends r k S2 = key_ends r k S1"
    using connect_found [where shm = shm and g = g and fd = fd and rdma = rdma, OF P p v s(2,3,1) t(1,2), unfolded k] by (elim exE conjE) (rule that)
  have rot: "tl (rotate ?n (V p)) @ [] @ [?x] = rotate (Suc ?n) (V p)" unfolding hd using ne by (cases "rotate ?n (V p)") auto
  have "connects shm g p (rs @ [r]) S = Some (map (\<lambda>i. M_connect (first_key S + int i) 0) [0..<length (rs @ [r])], S2)"
    unfolding r connects_snoc c(1) using f(1) by simp
  moreover have "mon_ok S2 (V(p := rotate (length (rs @ [r])) (V p))) U"
    using f(2,3) c(2,3) rot by (auto simp: mon_ok_def)
  moreover have pushes: "map (nth_push p (first_key S) (V p) (rs @ [r])) [0..<length (rs @ [r])] = map (nth_push p (first_key S) (V p) rs) [0..<?n]
      @ [(peer_qid ?x, False, M_newconnection (first_key S + int ?n) 1 fd p rdma)]"
    using r by (simp add: nth_push_def nth_append)
  moreover have "key_ends (fst (snd ((rs @ [r]) ! i))) (first_key S + int i) S2 = nth_ends S (V p) (rs @ [r]) i" if "i < length (rs @ [r])" for i
  proof (cases "i = ?n")
    case True
    then show ?thesis using f(6) r t(3,4) by (simp add: nth_ends_def)
  next
    case False
    then have "i < ?n" using that by simp
    then show ?thesis using f(7) c(6) by (simp add: nth_append nth_ends_def)
  qed
  moreover have "pushed S2 = pushed S @ map (nth_push p (first_key S) (V p) (rs @ [r])) [0..<length (rs @ [r])]"
    unfolding pushes f(5) c(5) by simp
  moreover have "processes S2 = processes S" "current_q_counter S2 = current_q_counter S + int (length (rs @ [r]))" using f(3,4) c(3,4) by simp_all
  ultimately show ?case by blast
qed


text \<open>A monitor at start with room for processes, and one with two accepting listeners on port 80.\<close>

definition blank_listener :: monitor_sock_adjlist_t where
  "blank_listener = \<lparr>peer_fd = 0, peer_qid = 0, is_accepting = False\<rparr>"

definition blank_key :: "monitor_sock_node_t index_t" where
  "blank_key = \<lparr>ix_data = \<lparr>is_listening = 0, is_blocking = 0, is_addrreuse = 0\<rparr>, ix_pointer = 0\<rparr>"

definition blank_element :: "monitor_sock_adjlist_t adj_element" where
  "blank_element = \<lparr>adjdata = blank_listener, adj_next = 0\<rparr>"

definition blank_process :: process_sturc where
  "blank_process = \<lparr>ps_isRDMA = False, ps_pid = 0, ps_tid = 0, uniq_shmem_id = 0, ps_token = 0, ps_queue = blank_mq, glb_ref = 0\<rparr>"

definition blank_monitor :: lmon where
  "blank_monitor = \<lparr>ports = \<lparr>ad_index = new_darray blank_key 65536, ad_list = new_darray blank_element 1000\<rparr>, buf_idx = Map.empty, current_q_counter = 0,
     key2tid = Map.empty, rdma_id2key = Map.empty, rdma_key2qid = Map.empty, processes = new_darray blank_process 4, tidmap = Map.empty, pushed = [], thr_counter = 0\<rparr>"

definition two_listeners :: "lmon option" where
  "two_listeners = do {
     S \<leftarrow> sock_monitor_init blank_key blank_monitor;
     (_, S) \<leftarrow> listen_handler blank_element 80 1 1 S;
     (_, S) \<leftarrow> listen_handler blank_element 80 1 2 S;
     S \<leftarrow> accept_handler 80 1 S;
     accept_handler 80 2 S }"

lemma blank_starts: "\<exists>S. sock_monitor_init blank_key blank_monitor = Some S \<and> mon_ok S (\<lambda>_. []) (\<lambda>_. 0) \<and> processes S = new_darray blank_process 4
    \<and> pushed S = [] \<and> current_q_counter S = 0"
  using monitor_starts [of blank_monitor blank_key blank_element blank_key] new_darray_ok [of 4 blank_process] by (simp add: blank_monitor_def)

lemma two_listeners_ok:
  "\<exists>S V U. two_listeners = Some S \<and> mon_ok S V U \<and> processes S = new_darray blank_process 4 \<and> pushed S = [] \<and> current_q_counter S = 0
    \<and> V 80 = [\<lparr>peer_fd = - 1, peer_qid = 2, is_accepting = True\<rparr>, \<lparr>peer_fd = - 1, peer_qid = 1, is_accepting = True\<rparr>]"
proof -
  let ?l = "\<lambda>q b. \<lparr>peer_fd = - 1, peer_qid = q, is_accepting = b\<rparr>"
  have p: "(80 :: nat) < 65536" by simp
  obtain S0 where s0: "sock_monitor_init blank_key blank_monitor = Some S0" "mon_ok S0 (\<lambda>_. []) (\<lambda>_. 0)" "processes S0 = new_darray blank_process 4"
    "pushed S0 = []" "current_q_counter S0 = 0" using blank_starts by blast
  define V1 :: "nat \<Rightarrow> monitor_sock_adjlist_t list" where "V1 = (\<lambda>_. [])(80 := [?l 1 False])"
  define U :: "nat \<Rightarrow> int" where "U = (\<lambda>_. 0)(80 := 1)"
  obtain A1 where s1: "listen_handler blank_element 80 1 1 S0 = Some (M_success, S0\<lparr>ports := A1\<rparr>)" "mon_ok (S0\<lparr>ports := A1\<rparr>) V1 U"
    using listen_spec [OF s0(2) p, of blank_element 1 1] by (auto simp: V1_def U_def)
  define V2 where "V2 = V1(80 := [?l 2 False, ?l 1 False])"
  have n: "\<not> (V1 80 \<noteq> [] \<and> U 80 = 0)" "V1 80 = [?l 1 False]" by (simp_all add: U_def V1_def)
  obtain A2 where s2: "listen_handler blank_element 80 1 2 (S0\<lparr>ports := A1\<rparr>) = Some (M_success, S0\<lparr>ports := A2\<rparr>)" "mon_ok (S0\<lparr>ports := A2\<rparr>) V2 U"
    using listen_spec [OF s1(2) p, of blank_element 1 2, unfolded if_not_P [OF n(1)]] n(2) by (auto simp: V2_def)
  define V3 where "V3 = V2(80 := [?l 1 True, ?l 2 False])"
  have "accept_in 1 (V2 80) = [?l 1 True, ?l 2 False]" by (simp add: accept_in_def V2_def)
  then obtain A3 where s3: "accept_handler 80 1 (S0\<lparr>ports := A2\<rparr>) = Some (S0\<lparr>ports := A3\<rparr>)" "mon_ok (S0\<lparr>ports := A3\<rparr>) V3 U"
    using accept_spec [OF s2(2) p, of 1] by (auto simp: V3_def)
  have "accept_in 2 (V3 80) = [?l 2 True, ?l 1 True]" by (simp add: accept_in_def V3_def)
  then obtain A4 where s4: "accept_handler 80 2 (S0\<lparr>ports := A3\<rparr>) = Some (S0\<lparr>ports := A4\<rparr>)" "mon_ok (S0\<lparr>ports := A4\<rparr>) (V3(80 := [?l 2 True, ?l 1 True])) U"
    using accept_spec [OF s3(2) p, of 2] by auto
  have "two_listeners = Some (S0\<lparr>ports := A4\<rparr>)" using s0(1) s1(1) s2(1) s3(1) s4(1) by (simp add: two_listeners_def)
  then show ?thesis using s4(2) s0(3-5) by (intro exI [of _ "S0\<lparr>ports := A4\<rparr>"] exI [of _ "V3(80 := [?l 2 True, ?l 1 True])"] exI [of _ U]) simp
qed

theorem ports_refine_lists_witness:
  "\<exists>S A. sock_monitor_init blank_key blank_monitor = Some S \<and> listen_handler blank_element 80 0 3 S = Some (M_success, S\<lparr>ports := A\<rparr>)
    \<and> mon_ok (S\<lparr>ports := A\<rparr>) ((\<lambda>_. [])(80 := [\<lparr>peer_fd = - 1, peer_qid = 3, is_accepting = False\<rparr>])) ((\<lambda>_. 0)(80 := 0))"
proof -
  obtain S where s: "sock_monitor_init blank_key blank_monitor = Some S" "mon_ok S (\<lambda>_. []) (\<lambda>_. 0)" using blank_starts by blast
  have p: "(80 :: nat) < 65536" by simp
  from ports_refine_lists [OF s(2) p, of blank_element 0 3] s(1) show ?thesis by auto
qed


end
