(* ===== verification/Spec2Isabelle.thy ===== *)
theory Spec2Isabelle
  imports Shm_Ring_Spsc Fd_Remap Monitor_Ipc Shm_Handshake Config_File Log_Sink Shm_Conn Metrics_Registry
    Monitor_Daemon Socket_Api Socket_Msg Poll_Api Zc_Device Zc_Client Metrics_Dump Preload Ctl_Tool
    Futex_Wait Rdma_Conn Adj_List Lockless_Queue Credit_Queue Meta_Queue Legacy_Ports
begin

text \<open>
  Verification of SocksDirect, a user-space socket system: a preload library that replaces the kernel's TCP path between
  two processes of one host by shared memory, a monitor daemon that brokers the keys of the segments, a kernel module
  for zero-copy pages, and the data structures of the older RDMA data plane with its monitor. All paths below are under \<^verbatim>\<open>src/\<close>.

  \<^bold>\<open>How the parts interact.\<close> A process runs with the library preloaded. Its constructor (\<^verbatim>\<open>src/lib/preload.cpp\<close>) reads the configuration, greets the
  daemon and activates the hooks. After a TCP connection is set up by the kernel, each end asks the daemon for a key over a
  Unix socket, one JSON line per message; the daemon gives both ends the same key and makes one of them the creator of a segment. The
  segment has a byte ring per direction. From then on \<^verbatim>\<open>send\<close> and \<^verbatim>\<open>recv\<close> on the fd use the rings and sleep on futexes, \<^verbatim>\<open>epoll\<close> is
  served through eventfds by a poller thread, and \<^verbatim>\<open>close\<close>, \<^verbatim>\<open>dup\<close> and \<^verbatim>\<open>fork\<close> keep the table of virtual fds in step. A watchdog closes the rings of dead
  peers, and metrics are written to a file. \<^verbatim>\<open>socksdirect-ctl\<close> talks to the daemon.

  \<^bold>\<open>Conventions.\<close> Machine integers are words of their width (\<open>u8\<close> to \<open>u64\<close>), so counters wrap where they do in C. Structs and classes are records,
  enumerations datatypes, \<^verbatim>\<open>std::map\<close> an association list in key order. \<open>None\<close> is what the source leaves undefined or
  never returns from: an access outside an array, a loop without end, a fatal error; that it does not happen is part of the
  properties. A failing call is a value (\<open>errno\<close> in a sum, \<open>Blocked\<close> in \<open>io\<close>). What the operating system, the verbs library or the kernel answers is an
  argument. Functions and constants of the C and C++ libraries that the source uses, such as \<open>atoi\<close>, \<open>lower_bound\<close> or the signal numbers, are small definitions next to their first use. What other processes do in between is a schedule: a list of steps, of which every
  point where the caller gives way or sleeps uses one, or a step relation in which single memory accesses interleave.

  \<^bold>\<open>The shared-memory data path.\<close>
  \<^item> \<open>Shm_Ring\<close> (\<^verbatim>\<open>include/socksdirect/shm_ring.hpp\<close>): the ring's operations on 64-bit counters that are never reduced. They implement a bounded FIFO of bytes, the
    interface \<open>byte_stream\<close>, under wrap-around of counters and array.
  \<^item> \<open>Shm_Ring_Spsc\<close>: the same operations as interleaved atomic accesses of a producer and a consumer process; an invariant over all interleavings gives order and
    completeness of the stream, also at its end, and the sequential operations are uninterrupted runs of this machine.
  \<^item> \<open>Shm_Segment\<close> (\<^verbatim>\<open>shm_segment.hpp\<close>): layout, create, join with its waiting loops, exchange and close over POSIX shared memory.
  \<^item> \<open>Futex_Wait\<close> (the sleeping protocol of \<^verbatim>\<open>src/lib/socket_api.cpp\<close> with \<^verbatim>\<open>ShmSegment::close\<close>): no wake-up is lost.
  \<^item> \<open>Socket_Api\<close>, \<open>Socket_Msg\<close> (\<^verbatim>\<open>src/lib/socket_api.cpp\<close>): every hook; the loops of \<^verbatim>\<open>send\<close> and \<^verbatim>\<open>recv\<close> refine appending to and taking from a stream, and
    \<^verbatim>\<open>sendmsg\<close> and \<^verbatim>\<open>recvmsg\<close> are one transfer of the concatenated buffers.

  \<^bold>\<open>Descriptors and connections of the library.\<close>
  \<^item> \<open>Fd_Remap\<close> (\<^verbatim>\<open>fd_remap.hpp\<close>): the table of virtual fds, its invariant, and the interface \<open>fd_tracker\<close> that the hooks rely on.
  \<^item> \<open>Lib_State\<close>, \<open>Shm_Conn\<close> (\<^verbatim>\<open>src/lib/state.hpp\<close>, \<^verbatim>\<open>intercept.hpp\<close>, \<^verbatim>\<open>shm_conn.cpp\<close>): state of a process, registry of connections, attach and watchdog.
  \<^item> \<open>File_Api\<close>, \<open>Poll_Api\<close>, \<open>Preload\<close> (\<^verbatim>\<open>src/lib/file_api.cpp\<close>, \<^verbatim>\<open>poll_api.cpp\<close>, \<^verbatim>\<open>preload.cpp\<close>, \<^verbatim>\<open>process_api.cpp\<close>): descriptor, epoll and process hooks, start and end.
  \<^item> \<open>Metrics_Registry\<close>, \<open>Metrics_Dump\<close>, \<open>Log_Sink\<close>, \<open>Config_File\<close> (\<^verbatim>\<open>metrics.hpp\<close>, \<^verbatim>\<open>src/lib/metrics_dump.cpp\<close>, \<^verbatim>\<open>log.hpp\<close>, \<^verbatim>\<open>config.hpp\<close>): lock-free counters as interleaved
    compare-and-swap loops, the file protocol over inodes, ownership of log files, and the INI loader.

  \<^bold>\<open>The control plane.\<close>
  \<^item> \<open>Monitor_Ipc\<close> (\<^verbatim>\<open>monitor_ipc.hpp\<close>): JSON codec and socket helpers, with round trips. \<open>C_Strings\<close> and \<open>Std_Map\<close> hold the parts of the C++ library they use; \<open>Std_Map\<close> has the
    interface \<open>ordered_map\<close>.
  \<^item> \<open>Shm_Handshake\<close> (\<^verbatim>\<open>shm_handshake.hpp\<close>): the key broker. \<open>Monitor_Daemon\<close> (\<^verbatim>\<open>src/monitor/main.cpp\<close>): operations, framing, event loop, shutdown. \<open>Ctl_Tool\<close> (\<^verbatim>\<open>tools/socksdirect-ctl.cpp\<close>).
  \<^item> This theory composes them: \<open>wire_handshake\<close> runs two library processes against the daemon through the codec, and \<open>ctl_shows_answer\<close> the tool.

  \<^bold>\<open>Zero copy and RDMA.\<close>
  \<^item> \<open>Zc_Device\<close> (\<^verbatim>\<open>src/kernel/socksdirect_dev.c\<close>): every entry of the module; pages taken from and given back to the kernel are a multiset that balances.
  \<^item> \<open>Zc_Client\<close> (\<^verbatim>\<open>zerocopy_client.hpp\<close>, \<^verbatim>\<open>zerocopy_mock.hpp\<close>): the client on top of the module, and the mock, which agrees with the module.
  \<^item> \<open>Rdma_Conn\<close> (\<^verbatim>\<open>rdma/qp_info.hpp\<close>, \<^verbatim>\<open>src/lib/rdma/conn.cpp\<close>): descriptor codec and set-up of connections.

  \<^bold>\<open>The older data plane\<close> (\<^verbatim>\<open>common/\<close>).
  \<^item> \<open>Darray\<close>, \<open>Adj_List\<close> (\<^verbatim>\<open>darray.hpp\<close>, \<^verbatim>\<open>adjlist_t.hpp\<close>): a growing array with holes as a map, and linked lists inside two such arrays as lists.
  \<^item> \<open>Lockless_Queue\<close>, \<open>Credit_Queue\<close> (\<^verbatim>\<open>locklessq_v3.hpp\<close>, \<^verbatim>\<open>locklessqueue_n.hpp\<close>): two lock-free queues as FIFOs under every order of turns, the second also over RDMA with writes
    that arrive late.
  \<^item> \<open>Meta_Queue\<close> (\<^verbatim>\<open>metaqueue.h\<close>): control segments of four such queues, and messages in pieces.
  \<^item> \<open>Legacy_Monitor\<close>, \<open>Legacy_Ports\<close> (\<^verbatim>\<open>monitor/sock_monitor.cpp\<close>, \<^verbatim>\<open>process.cpp\<close>, with \<^verbatim>\<open>rdma_ack_handler\<close> of \<^verbatim>\<open>rdma_monitor.cpp\<close> and the dispatcher of \<^verbatim>\<open>main.cpp\<close>): the older monitor's table of processes,
    its segments and its request handlers. Its ports are lists of listeners, kept in step by handlers that always return; connections are dealt out to
    the listeners in turn. \<open>fork_with_segments_never_returns\<close> shows that a fork request of a process with a segment does not return.

  \<^bold>\<open>Bounds and termination.\<close> There is no fuel. Loops that the source bounds are structural or have a termination proof; those that it does not are
  \<open>partial_function (option)\<close>, and the properties show that they return, under the data structure's invariant. A call that
  waits for others ends \<open>Blocked\<close> when its schedule is used up; \<open>shm_send_completes\<close>, \<open>no_lost_wakeup\<close>, \<open>epoll_reports_ready\<close> and \<open>long_message_delivered\<close> say how much of a
  schedule is enough. Where a bound is a hypothesis it is one the source relies on: sizes that its static assertions demand, fewer than \<open>2^31\<close> descriptors or slots, a
  ring size that is a power of two.

  \<^bold>\<open>Memory model.\<close> Interleavings are sequentially consistent. For the byte ring and the segment, the release stores and acquire loads of the source justify the order
  in which the steps of one process are taken. The queues of the older data plane use compiler barriers and 16-byte vector moves: an operation of theirs
  is one step, which needs the strong store order of x86.

  \<^bold>\<open>Not modelled.\<close>
  \<^item> Log lines and diagnostics, thread creation, signal dispositions and the detaching of threads: they do not change the modelled state.
  \<^item> Floating-point rounding in the metrics, which is an argument.
  \<^item> The build of the RDMA connection without verbs, in which every operation fails.
  \<^item> Of the older monitor, the endless event loop, the exchange on the set-up socket, the verbs calls that accept an RDMA client, and \<^verbatim>\<open>buffer_enlarge\<close>, which has no return
    statement. Its signed counters are unbounded integers here.
  \<^item> The other queues and buffers of the older data plane (\<^verbatim>\<open>locklessq_v2\<close>, \<^verbatim>\<open>rdma_locklessqueue_n\<close>, \<^verbatim>\<open>interprocess_t\<close>) and the older preload library \<^verbatim>\<open>lib/\<close> built on them.
  \<^item> The kernel patch \<^verbatim>\<open>zerocopy/\<close>, which edits page tables through structures of Linux that are not among the sources, and the verbs helpers \<^verbatim>\<open>common/rdma.cpp\<close> and \<^verbatim>\<open>rdma/\<close>, which are
    sequences of library calls.
  \<^item> Benchmarks, demonstrations, tests, scripts and packaging.
\<close>

section \<open>Library and daemon\<close>

text \<open>What the daemon sends for a request line, and the line a client reads.\<close>

definition serve :: "'d host \<Rightarrow> 'd Daemon \<Rightarrow> string \<Rightarrow> (string \<times> 'd Daemon) option" where
  "serve h d msg =
     (case cut_line msg of None \<Rightarrow> None
      | Some (line, _) \<Rightarrow> map_option (\<lambda>(resp, d', _). (encode_response resp, d')) (answer_line h d line))"

definition listening :: "'d host \<Rightarrow> 'd Daemon \<Rightarrow> monitor" where
  "listening h d path msg =
     (if path = control_socket_path d then map_option (\<lambda>(text, _). takeWhile (\<lambda>c. c \<noteq> newline) text) (serve h d msg) else None)"

lemma serve_request:
  "serve h d (encode_request req) = map_option (\<lambda>(resp, d', _). (encode_response resp, d')) (dispatch h d req)"
proof -
  obtain line where "encode_request req = line @ [newline]" "newline \<notin> set line" "decode_request line = Some req"
    using encode_request_line [of req] by blast
  moreover from this(2) have "cut_line (line @ [newline]) = Some (line, [])"
    by (auto simp: cut_line_def takeWhile_append dropWhile_append)
  ultimately show ?thesis by (simp add: serve_def answer_line_def)
qed

lemma takeWhile_response: "decode_response (takeWhile (\<lambda>c. c \<noteq> newline) (encode_response r)) = Some (resp_norm r)"
proof -
  obtain line where "encode_response r = line @ [newline]" "newline \<notin> set line" "decode_response line = Some (resp_norm r)"
    using encode_response_line by blast
  then show ?thesis by (auto simp: takeWhile_append)
qed

lemma dec_str_no_nul: "CHR 0x00 \<notin> set (dec_str n)"
  using dec_str_digits [of "CHR 0x00" n] by (auto simp: isdigit_def)

lemma atoi_pid:
  assumes "0 < p" "p < 2 ^ 31"
  shows "atoi (c_str (take 15 (int_str p))) = p"
proof -
  have d: "int_str p = dec_str (nat p)" using assms by (simp add: int_str_def)
  have "nat p < 10 ^ 10" using assms by simp
  then have t: "take 15 (dec_str (nat p)) = dec_str (nat p)" using dec_str_length [of "nat p" 10] by simp
  have "c_str (dec_str (nat p)) = dec_str (nat p)" using dec_str_no_nul by (auto simp: c_str_def takeWhile_eq_all_conv)
  moreover have "strtol (dec_str (nat p)) = (p, [])"
    using strtol_dec_str [of "nat p" "[]"] assms by (simp add: c_str_def starts_digit_def)
  moreover have "sint (of_int p :: 32 word) = p"
    using assms by (simp add: signed_of_int signed_take_bit_int_eq_self)
  ultimately show ?thesis by (simp add: atoi_def d t)
qed

lemma inc_handle_registry [simp]: "shm_registry (inc_handle h n d) = shm_registry d"
  "control_socket_path (inc_handle h n d) = control_socket_path d"
  by (simp_all add: inc_handle_def)

lemma dispatch_register:
  assumes "0 < p" "p < 2 ^ 31" "register_endpoint (shm_registry d) (make_ConnId x y) p = Some (res, R)"
  shows "\<exists>d' ls. dispatch h d (register_request x y p) = Some (resp_lines_ok
      [''shm_key='' @ dec_str (unat (res_key res)), if res_role res = kCreator then ''role=creator'' else ''role=joiner'', ls], d', [])
    \<and> take 6 ls = ''pid_a='' \<and> shm_registry d' = R \<and> control_socket_path d' = control_socket_path d"
proof -
  obtain a b where ab: "canonical x y = (a, b)" by (cases "canonical x y")
  have "unat (res_key res) < 10 ^ 20" using unat_bound [of "res_key res"] by simp
  then have "length (dec_str (unat (res_key res))) \<le> 20" by (intro dec_str_length) simp_all
  then have k: "take 55 (dec_str (unat (res_key res))) = dec_str (unat (res_key res))" by simp
  define ls where "ls = take 63 (''pid_a='' @ int_str (res_pid_a res) @ '' pid_b='' @ int_str (res_pid_b res))"
  have "op_shm_register (inc_handle h requests_name d) (register_request x y p) = Some (resp_lines_ok
      [''shm_key='' @ dec_str (unat (res_key res)), if res_role res = kCreator then ''role=creator'' else ''role=joiner'', ls],
      (inc_handle h requests_name d)\<lparr>shm_registry := R\<rparr>)"
    unfolding op_shm_register_def ls_def
    using assms atoi_pid [OF assms(1,2)] canonical_make [OF ab]
    by (simp only: register_request_def ab Let_def prod.case CtlRequest.simps) (simp add: numeral_2_eq_2 k)
  moreover have "req_op (register_request x y p) = ''shm-register''" by (simp add: register_request_def ab)
  moreover have "take 6 ls = ''pid_a=''" by (simp add: ls_def)
  ultimately show ?thesis
    by (intro exI [of _ "(inc_handle h requests_name d)\<lparr>shm_registry := R\<rparr>"] exI [of _ ls]) (simp add: dispatch_def Let_def)
qed

lemma scan_answer:
  "foldl scan_line ((0, False), False, False) [''shm_key='' @ dec_str (unat k), role, l]
     = scan_line (scan_line ((k, False), True, False) role) l"
proof -
  have "c_str (''shm_key='' @ dec_str (unat k)) = ''shm_key='' @ dec_str (unat k)"
    using dec_str_no_nul by (auto simp: c_str_def takeWhile_eq_all_conv)
  moreover have "fst (strtoull (dec_str (unat k))) = k"
    using strtoull_dec_str [of "unat k" "[]"] unat_bound [of k] by (simp add: c_str_def starts_digit_def)
  ultimately show ?thesis by (simp add: scan_line_def)
qed

lemma request_key_dispatch:
  assumes "dispatch h d (register_request x y p) = Some (resp_lines_ok
      [''shm_key='' @ dec_str (unat k), if role = kCreator then ''role=creator'' else ''role=joiner'', ls], d', [])"
    "take 6 ls = ''pid_a=''" "k \<noteq> 0"
    "get_string env cfg ''monitor'' ''control_socket'' kMonitorCtlSocketDefault = control_socket_path d"
  shows "request_key_from_monitor (listening h d) env cfg x y p = Some (k, role = kCreator)"
proof -
  have ls: "scan_line st ls = st" for st
  proof -
    have "take 8 ls \<noteq> ''shm_key=''"
    proof
      assume "take 8 ls = ''shm_key=''"
      then have "take 6 (take 8 ls) = take 6 ''shm_key=''" by (rule arg_cong)
      then show False using assms(2) by (simp add: take_take min_def)
    qed
    moreover have "ls \<noteq> ''role=creator''" "ls \<noteq> ''role=joiner''" using assms(2) by auto
    ultimately show ?thesis by (simp add: scan_line_def split: prod.splits)
  qed
  have role: "scan_line ((k, False), True, False) (if role = kCreator then ''role=creator'' else ''role=joiner'')
      = ((k, role = kCreator), True, True)"
    by (simp add: scan_line_def)
  define kl rl where "kl = ''shm_key='' @ dec_str (unat k)"
    and "rl = (if role = kCreator then ''role=creator'' else ''role=joiner'')"
  have f: "foldl scan_line ((0, False), False, False) [kl, rl, ls] = ((k, role = kCreator), True, True)"
    unfolding kl_def rl_def scan_answer role ls ..
  have d: "dispatch h d (register_request x y p) = Some (resp_lines_ok [kl, rl, ls], d', [])"
    using assms(1) unfolding kl_def rl_def .
  show ?thesis
    using assms(3) unfolding request_key_from_monitor_def listening_def assms(4) serve_request d
    by (simp add: takeWhile_response resp_norm_def resp_lines_ok_def f del: foldl.simps)
qed

text \<open>
  C9. The handshake over the wire. A process that holds one end of a connection and whose configuration
  names the daemon's socket sends its registration request; the daemon decodes, dispatches and answers;
  the process decodes the answer. When the pair is not registered yet, the process gets the fresh key, which
  is not 0, as creator. When the process at the other end, which names the endpoints in the opposite order,
  then does the same with the daemon's new state, it gets the same key as joiner.
\<close>

theorem wire_handshake:
  assumes "map_find (active (shm_registry d)) (make_ConnId x y) = None" "next_key (rng (shm_registry d)) = Some (k, ks)"
    "0 < p" "p < 2 ^ 31" "0 < q" "q < 2 ^ 31"
    "get_string env cfg ''monitor'' ''control_socket'' kMonitorCtlSocketDefault = control_socket_path d"
    "get_string env' cfg' ''monitor'' ''control_socket'' kMonitorCtlSocketDefault = control_socket_path d"
  shows "k \<noteq> 0 \<and> request_key_from_monitor (listening h d) env cfg x y p = Some (k, True)
    \<and> (\<exists>reply d'. serve h d (encode_request (register_request x y p)) = Some (reply, d')
          \<and> request_key_from_monitor (listening h d') env' cfg' y x q = Some (k, False))"
proof -
  have k: "k \<noteq> 0" by (rule next_key_nonzero [OF assms(2)])
  obtain res R where r: "register_endpoint (shm_registry d) (make_ConnId x y) p = Some (res, R)"
    "res_key res = k" "res_role res = kCreator"
    "map_find (active R) (make_ConnId x y) = Some \<lparr>e_key = k, e_creator_pid = p, e_joiner_pid = 0\<rparr>"
    using assms(1,2) by (auto simp: register_endpoint_def map_find_put)
  obtain d' ls where d': "dispatch h d (register_request x y p) = Some (resp_lines_ok
      [''shm_key='' @ dec_str (unat k), if kCreator = kCreator then ''role=creator'' else ''role=joiner'', ls], d', [])"
    "take 6 ls = ''pid_a=''" "shm_registry d' = R" "control_socket_path d' = control_socket_path d"
    using dispatch_register [OF assms(3,4) r(1), of h] unfolding r(2,3) by blast
  obtain res2 R2 where r2: "register_endpoint (shm_registry d') (make_ConnId y x) q = Some (res2, R2)"
    "res_key res2 = k" "res_role res2 = kJoiner"
    using r(4) make_ConnId_sym [of x y] by (auto simp: register_endpoint_def d'(3) Let_def)
  obtain d2 ls2 where d2: "dispatch h d' (register_request y x q) = Some (resp_lines_ok
      [''shm_key='' @ dec_str (unat k), if kJoiner = kCreator then ''role=creator'' else ''role=joiner'', ls2], d2, [])"
    "take 6 ls2 = ''pid_a=''"
    using dispatch_register [OF assms(5,6) r2(1), of h] unfolding r2(2,3) by blast
  show ?thesis
    using request_key_dispatch [OF d'(1,2) k assms(7)]
      request_key_dispatch [OF d2 k, of env' cfg', unfolded d'(4), OF assms(8)] k
    by (simp add: serve_request d'(1))
qed

theorem wire_handshake_witness:
  "request_key_from_monitor (listening demo_host demo_daemon) (\<lambda>_. None) [] ''127.0.0.1:80'' ''127.0.0.1:4000'' 10 = Some (5, True)
   \<and> (\<exists>reply d'. serve demo_host demo_daemon (encode_request (register_request ''127.0.0.1:80'' ''127.0.0.1:4000'' 10)) = Some (reply, d')
        \<and> request_key_from_monitor (listening demo_host d') (\<lambda>_. None) [] ''127.0.0.1:4000'' ''127.0.0.1:80'' 11 = Some (5, False))"
proof -
  have r: "shm_registry demo_daemon = new_registry [5, 6]" "control_socket_path demo_daemon = kMonitorCtlSocketDefault"
    by (simp_all add: demo_daemon_def set_up_def Let_def or_config_def new_Args_def get_string_def env_lookup_def
        load_default_def load_config_def demo_host_def)
  have g: "get_string (\<lambda>_. None) [] ''monitor'' ''control_socket'' kMonitorCtlSocketDefault = control_socket_path demo_daemon"
    by (simp add: r get_string_def env_lookup_def)
  have n: "map_find (active (shm_registry demo_daemon)) (make_ConnId ''127.0.0.1:80'' ''127.0.0.1:4000'') = None"
    "next_key (rng (shm_registry demo_daemon)) = Some (5, [6])"
    by (simp_all add: r new_registry_def)
  show ?thesis
    using wire_handshake [OF n, of 10 11, OF _ _ _ _ g g, of demo_host] by simp
qed


section \<open>Command-line tool and daemon\<close>

text \<open>What the tool prints for a response, with its exit code.\<close>

definition shown :: "CtlResponse \<Rightarrow> nat \<times> ctl_out list" where
  "shown r = (if resp_ok r then (0, map (\<lambda>l. Stdout (c_str l @ [newline])) (resp_lines r))
     else (1, [Stderr (c_str (resp_error r) @ [newline])]))"

lemma shown_norm: "shown (resp_norm r) = shown r"
  by (simp add: shown_def resp_norm_def)

text \<open>
  C21. An administrator sees what the daemon answered. The tool is called with an operation and arguments that are not flags, its socket
  path fits an address and the connection is made, the request is written, however the writes are split, the
  daemon serves exactly the bytes written and the tool reads the daemon's reply byte by byte, interrupted or not, the
  reply fitting the cap on lines. Then the daemon has dispatched that operation with those arguments,
  and the tool prints the lines of its response and exits with 0, or prints its error text and exits with 1;
  its socket is closed.
\<close>

theorem ctl_shows_answer:
  assumes "plain_arg o1" "o1 \<noteq> []" "list_all plain_arg as" "length (ctl_path env) < 108"
    "write_all ws (encode_request \<lparr>req_op = o1, req_args = as\<rparr>) [] = Some ((True, bytes), ws')"
    "serve h d bytes = Some (reply, d')" "filter (\<lambda>r. r \<noteq> Read_err EINTR) rs = map Byte reply" "length reply \<le> 2 ^ 20"
  shows "\<exists>resp ev. dispatch h d \<lparr>req_op = o1, req_args = as\<rparr> = Some (resp, d', ev)
    \<and> ctl_main strerror text env (Inr fd) None ws rs (o1 # as)
        = Some (shown resp, bytes, [Connect_path (ctl_path env), Close_fd fd])"
proof -
  let ?req = "\<lparr>req_op = o1, req_args = as\<rparr>"
  have b: "bytes = encode_request ?req" using write_all_sent [OF assms(5)] by simp
  obtain resp ev where r: "dispatch h d ?req = Some (resp, d', ev)" "reply = encode_response resp"
    using assms(6) unfolding b serve_request by auto
  obtain line where l: "encode_response resp = line @ [newline]" "newline \<notin> set line" "decode_response line = Some (resp_norm resp)"
    using encode_response_line by blast
  have ne: "line \<noteq> []"
  proof
    assume "line = []"
    then have "encode_response resp = [newline]" using l(1) by simp
    then show False by (simp add: encode_response_def lbrace_def split: if_splits)
  qed
  have "length ([] :: string) + length line \<le> 2 ^ 20" using assms(8) l(1) r(2) by simp
  with read_line_bytes [of rs line "[]" "[]"] assms(7) l r(2) obtain rest where
    rd: "read_line rs [] = Some ((line, False), rest)" by auto
  have c: "connect_unix (Inr fd) None (ctl_path env) = (Inr fd, [Connect_path (ctl_path env)])"
    using assms(4) by (simp add: connect_unix_def sun_path_size_def)
  have "run_request strerror text (Inr fd) None ws rs (ctl_path env) ?req
      = Some (shown (resp_norm resp), bytes, [Connect_path (ctl_path env), Close_fd fd])"
    unfolding run_request_def c by (simp add: assms(5) rd ne l(3) shown_def)
  then have "ctl_main strerror text env (Inr fd) None ws rs (o1 # as)
      = Some (shown resp, bytes, [Connect_path (ctl_path env), Close_fd fd])"
    unfolding ctl_main_def parse_ctl_plain(1) [OF assms(1-3)] by (simp add: shown_norm)
  then show ?thesis using r(1) by blast
qed

text \<open>\<^verbatim>\<open>socksdirect-ctl ping hello\<close>.\<close>

theorem ctl_shows_answer_witness:
  "ctl_main (\<lambda>_. '''') '''' (\<lambda>_. None) (Inr 5) None
       [Wrote (length (encode_request \<lparr>req_op = ''ping'', req_args = [''hello'']\<rparr>))]
       (map Byte (encode_response (resp_lines_ok [''hello'']))) [''ping'', ''hello'']
     = Some ((0, [Stdout (''hello'' @ [newline])]), encode_request \<lparr>req_op = ''ping'', req_args = [''hello'']\<rparr>,
             [Connect_path kMonitorCtlSocketDefault, Close_fd 5])"
proof -
  let ?req = "\<lparr>req_op = ''ping'', req_args = [''hello'']\<rparr>" and ?resp = "resp_lines_ok [''hello'']"
  let ?d = "inc_handle demo_host requests_name demo_daemon"
  have d: "dispatch demo_host demo_daemon ?req = Some (?resp, ?d, [])" by (simp add: dispatch_def Let_def op_ping_def)
  have s: "serve demo_host demo_daemon (encode_request ?req) = Some (encode_response ?resp, ?d)"
    by (simp add: serve_request d)
  have w: "write_all [Wrote (length (encode_request ?req))] (encode_request ?req) [] = Some ((True, encode_request ?req), [])"
    by (subst write_all_eqs(3)) (simp_all add: encode_request_def lbrace_def write_all_eqs(1))
  have f: "filter (\<lambda>r. r \<noteq> Read_err EINTR) (map Byte x) = map Byte x" for x by (induction x) auto
  have len: "length (encode_response ?resp) \<le> 2 ^ 20"
    by (simp add: encode_response_def resp_lines_ok_def json_escape_def json_escape_char_def lbrace_def)
  have p: "plain_arg ''ping''" "''ping'' \<noteq> ''''" "list_all plain_arg [''hello'']" "length (ctl_path (\<lambda>_. None)) < 108"
    by (simp_all add: plain_arg_def ctl_path_def kMonitorCtlSocketDefault_def)
  obtain resp ev where r: "dispatch demo_host demo_daemon ?req = Some (resp, ?d, ev)"
    "ctl_main (\<lambda>_. '''') '''' (\<lambda>_. None) (Inr 5) None [Wrote (length (encode_request ?req))] (map Byte (encode_response ?resp)) [''ping'', ''hello'']
      = Some (shown resp, encode_request ?req, [Connect_path (ctl_path (\<lambda>_. None)), Close_fd 5])"
    using ctl_shows_answer [OF p w s f len] by blast
  have "resp = ?resp" using r(1) d by simp
  moreover have "shown ?resp = (0, [Stdout (''hello'' @ [newline])])" by (simp add: shown_def resp_lines_ok_def c_str_def)
  ultimately show ?thesis using r(2) by (simp add: ctl_path_def)
qed

end
